(* ===== verification/Prelude.thy ===== *)
theory Prelude
  imports Main "HOL-Library.Word" "HOL-Library.List_Lexorder"
begin

unbundle bit_operations_syntax

text \<open>
  Shared vocabulary of the development: the names of the machine integer types, byte strings, and
  the generic facts on words, bits and lists that the component theories use.

  \<^item> \<open>u8\<close>, \<open>u32\<close>, \<open>u64\<close> stand for \<^verbatim>\<open>uint8_t\<close>/\<^verbatim>\<open>char\<close>, \<^verbatim>\<open>uint32_t\<close> and \<^verbatim>\<open>uint64_t\<close>; their
    arithmetic wraps as in C++.
  \<^item> \<open>bytes\<close> stands for the contents of a \<^verbatim>\<open>std::string\<close>, of a \<^verbatim>\<open>Slice\<close>, or of the memory a
    \<^verbatim>\<open>const char*\<close> points to.
  \<^item> The collection \<open>bits\<close> holds the rewrite rules that turn an equation between words into one
    between their bits; \<open>inv_simps\<close> the definitions of the well-formedness invariants.
\<close>

named_theorems bits \<open>equations between words, bit by bit\<close>
named_theorems inv_simps \<open>definitions of component invariants\<close>

type_synonym u8 = "8 word"
type_synonym u32 = "32 word"
type_synonym u64 = "64 word"
type_synonym bytes = "u8 list"

text \<open>The bytes of a string literal.\<close>

definition ascii :: "string \<Rightarrow> bytes" where
  "ascii s = map (\<lambda>c. of_nat (of_char c)) s"

section \<open>Bits of words\<close>

lemma bit_int_128 [simp]: "bit (128::int) n \<longleftrightarrow> n = 7"
proof -
  have "(128::int) = 2 ^ 7" by simp
  then show ?thesis by (simp only: bit_exp_iff) auto
qed

lemma bit_int_127 [simp]: "bit (127::int) n \<longleftrightarrow> n < 7"
proof -
  have "(127::int) = mask 7" by (simp add: mask_eq_exp_minus_1)
  then show ?thesis by (simp only: bit_mask_iff) auto
qed

lemma bit_int_255 [simp]: "bit (255::int) n \<longleftrightarrow> n < 8"
proof -
  have "(255::int) = mask 8" by (simp add: mask_eq_exp_minus_1)
  then show ?thesis by (simp only: bit_mask_iff) auto
qed

lemmas [bits] = bit_and_iff bit_or_iff bit_xor_iff bit_push_bit_iff bit_drop_bit_eq
  bit_take_bit_iff bit_unsigned_iff

lemma bit_beyond_length: "LENGTH('a) \<le> n \<Longrightarrow> \<not> bit (w::'a::len word) n"
  by (auto dest: bit_imp_le_length)

lemma and_128_eq_0: "x AND (128::'a::len word) = 0 \<longleftrightarrow> \<not> bit x 7"
proof
  assume "x AND 128 = 0"
  then have "\<not> bit (x AND 128) 7" by simp
  then show "\<not> bit x 7" by (auto simp: bit_and_iff dest: bit_imp_le_length)
next
  assume "\<not> bit x 7"
  then show "x AND 128 = 0" by (intro bit_word_eqI) (auto simp: bit_and_iff)
qed

lemma unat_drop_bit_div: "unat (drop_bit n v) = unat v div 2 ^ n"
  by (metis unat_drop_bit_eq drop_bit_eq_div)

lemma bit_less_exp: "unat (v::'a::len word) < 2 ^ k \<Longrightarrow> k \<le> n \<Longrightarrow> \<not> bit v n"
proof
  assume lt: "unat v < 2 ^ k" and "k \<le> n" "bit v n"
  from lt have "take_bit k (unat v) = unat v" by (simp add: take_bit_nat_eq_self_iff)
  moreover have "bit (unat v) n"
    using \<open>bit v n\<close> by (simp add: bit_unsigned_iff possible_bit_def)
  ultimately have "bit (take_bit k (unat v)) n" by simp
  then show False using \<open>k \<le> n\<close> by (simp add: bit_take_bit_iff)
qed

text \<open>A word is its low \<open>k\<close> bits together with the rest, also under a shift.\<close>

lemma push_bit_split:
  "push_bit s (take_bit k v) OR push_bit (s + k) (drop_bit k v) = push_bit s (v::'a::len word)"
proof (rule bit_word_eqI)
  fix n
  show "bit (push_bit s (take_bit k v) OR push_bit (s + k) (drop_bit k v)) n = bit (push_bit s v) n"
    by (cases "n < s + k") (auto simp: bit_simps)
qed

lemma unat_ucast: "unat (ucast (w::'a::len word) :: 'b::len word) = unat w mod 2 ^ LENGTH('b)"
  by (simp add: unsigned_ucast_eq unsigned_take_bit_eq take_bit_eq_mod)

lemma unat_ucast_up:
  "LENGTH('a) \<le> LENGTH('b) \<Longrightarrow> unat (ucast (w::'a::len word) :: 'b::len word) = unat w"
proof -
  assume "LENGTH('a) \<le> LENGTH('b)"
  then have "(2::nat) ^ LENGTH('a) \<le> 2 ^ LENGTH('b)" by simp
  then have "unat w < 2 ^ LENGTH('b)" using unsigned_less [of w, where 'a = nat] by linarith
  then show ?thesis by (simp add: unat_ucast)
qed

lemma u8_succ:
  assumes "x \<noteq> (255::u8)"
  shows "unat (x + 1) = unat x + 1" and "x < x + 1"
proof -
  have "unat x \<noteq> unat (255::u8)" using assms by (metis word_unat_eq_iff)
  moreover have "unat x < 2 ^ 8" using unsigned_less [of x, where 'a = nat] by simp
  ultimately show "unat (x + 1) = unat x + 1" by (simp add: unat_word_ariths)
  then show "x < x + 1" by (simp add: word_less_nat_alt)
qed

lemma sint_u8: "sint (c :: u8) = (if c < 128 then uint c else uint c - 256)"
proof -
  have "uint c < 256" using unsigned_less [of c, where 'a = int] by simp
  then show ?thesis
    using mod_pos_pos_trivial [of "uint c - 128" 256] mod_add_self2 [of "uint c - 128" 256]
    by (auto simp: sint_uint signed_take_bit_eq_take_bit_shift take_bit_eq_mod word_less_def add.commute)
qed

section \<open>Lists\<close>

lemma take_append_length [simp]: "take (length xs) (xs @ ys) = xs"
  by simp

lemma nth_append_prefix: "i < length xs \<Longrightarrow> (xs @ ys) ! i = xs ! i"
  by (simp add: nth_append)

end
