(* ===== verification/Slice.thy ===== *)
theory Slice
  imports Prelude
begin

text \<open>
  \<^verbatim>\<open>include/slice.h\<close>: the byte-string view that every component passes around.  A slice is modelled
  by the bytes it shows; its methods are the functions below.  \<^verbatim>\<open>memcmp\<close> is the C library function,
  of which only the sign is specified: the model returns \<open>-1\<close>, \<open>0\<close> or \<open>1\<close>.  The precondition that
  \<^verbatim>\<open>remove_prefix\<close> and \<^verbatim>\<open>operator[]\<close> assert is \<open>None\<close> in the model when it fails.
\<close>

fun memcmp :: "bytes \<Rightarrow> bytes \<Rightarrow> nat \<Rightarrow> int" where
  "memcmp (x # xs) (y # ys) (Suc n) =
     (if x = y then memcmp xs ys n else if x < y then -1 else 1)"
| "memcmp _ _ _ = 0"

definition Slice_empty :: "bytes \<Rightarrow> bool" where
  "Slice_empty s \<longleftrightarrow> length s = 0"

definition Slice_index :: "bytes \<Rightarrow> nat \<Rightarrow> u8 option" where
  "Slice_index s n = (if n < length s then Some (s ! n) else None)"

definition Slice_remove_prefix :: "nat \<Rightarrow> bytes \<Rightarrow> bytes option" where
  "Slice_remove_prefix n s = (if n \<le> length s then Some (drop n s) else None)"

definition Slice_starts_with :: "bytes \<Rightarrow> bytes \<Rightarrow> bool" where
  "Slice_starts_with s x \<longleftrightarrow> length x \<le> length s \<and> memcmp s x (length x) = 0"

definition Slice_eq :: "bytes \<Rightarrow> bytes \<Rightarrow> bool" where
  "Slice_eq x y \<longleftrightarrow> length x = length y \<and> memcmp x y (length x) = 0"

definition Slice_compare :: "bytes \<Rightarrow> bytes \<Rightarrow> int" where
  "Slice_compare a b =
     (let min_size = (if length b < length a then length b else length a);
          r = memcmp a b min_size
      in if r = 0 then (if length a < length b then -1 else 1) else r)"

section \<open>What the comparison functions compute\<close>

lemma memcmp_0_iff: "n \<le> length a \<Longrightarrow> n \<le> length b \<Longrightarrow> memcmp a b n = 0 \<longleftrightarrow> take n a = take n b"
  by (induction a b n rule: memcmp.induct) auto

lemma Slice_eq_iff [simp]: "Slice_eq x y \<longleftrightarrow> x = y"
  by (auto simp: Slice_eq_def memcmp_0_iff)

lemma Slice_starts_with_iff: "Slice_starts_with s x \<longleftrightarrow> take (length x) s = x"
proof (cases "length x \<le> length s")
  case True
  then show ?thesis by (simp add: Slice_starts_with_def memcmp_0_iff)
next
  case False
  then have "length (take (length x) s) \<noteq> length x" by simp
  then have "take (length x) s \<noteq> x" by (rule contrapos_nn) simp
  with False show ?thesis by (simp add: Slice_starts_with_def)
qed

lemma Nil_less_iff: "[] < xs \<longleftrightarrow> xs \<noteq> []" for xs :: bytes
  by (cases xs) auto

lemma memcmp_lexord:
  "length a = n \<or> length b = n \<Longrightarrow> n \<le> length a \<Longrightarrow> n \<le> length b \<Longrightarrow>
     (memcmp a b n < 0 \<or> memcmp a b n = 0 \<and> length a < length b) \<longleftrightarrow> a < b"
proof (induction a b n rule: memcmp.induct)
  case (1 x xs y ys n)
  then show ?case by auto
qed (auto simp: Nil_less_iff)

lemma Slice_compare_less_iff: "Slice_compare a b < 0 \<longleftrightarrow> a < b"
  using memcmp_lexord [of a "min (length a) (length b)" b]
  by (auto simp: Slice_compare_def Let_def min_def split: if_splits)

lemma Slice_compare_same: "Slice_compare a a = 1"
  by (simp add: Slice_compare_def memcmp_0_iff Let_def)

lemma Slice_compare_not_0: "Slice_compare a b \<noteq> 0"
  by (simp add: Slice_compare_def Let_def)

section \<open>Properties\<close>

text \<open>\<^verbatim>\<open>Slice::compare\<close> is negative exactly when the first slice is smaller in the lexicographic
  order of unsigned bytes, \<^verbatim>\<open>operator==\<close> is equality of contents, and \<^verbatim>\<open>starts_with\<close> is the prefix
  test; but \<^verbatim>\<open>compare\<close> is never zero: on equal slices it answers \<open>+1\<close>, as if the first one were larger.\<close>

theorem slice_comparisons:
  "(Slice_compare a b < 0 \<longleftrightarrow> a < b) \<and> (Slice_compare a b = 1 \<longleftrightarrow> b \<le> a) \<and>
   (Slice_eq a b \<longleftrightarrow> a = b) \<and> (Slice_starts_with a b \<longleftrightarrow> (\<exists>r. a = b @ r)) \<and>
   Slice_compare a a = 1"
proof -
  have one: "Slice_compare a b = 1 \<longleftrightarrow> \<not> Slice_compare a b < 0" for a b
  proof -
    have "memcmp a b n \<in> {-1, 0, 1}" for n by (induction a b n rule: memcmp.induct) auto
    from this [of "min (length a) (length b)"] show ?thesis
      by (auto simp: Slice_compare_def Let_def min_def split: if_splits)
  qed
  have "Slice_starts_with a b \<longleftrightarrow> (\<exists>r. a = b @ r)"
    unfolding Slice_starts_with_iff by (metis append_eq_conv_conj append_take_drop_id)
  then show ?thesis by (simp add: one Slice_compare_less_iff not_less)
qed

end
