(* ===== verification/Comparator.thy ===== *)
theory Comparator
  imports Slice
begin

text \<open>
  \<^verbatim>\<open>include/comparator.h\<close> and \<^verbatim>\<open>util/comparator.cc\<close>.  The abstract class \<^verbatim>\<open>Comparator\<close> is a record of
  its virtual methods; the methods that change a \<^verbatim>\<open>std::string*\<close> in place return the new string.

  Two contracts are stated as locales.  \<open>ordering\<close> is what a search structure needs that only asks
  whether \<^verbatim>\<open>Compare(a, b) < 0\<close>: a strict weak order.  \<open>three_way\<close> is the contract \<^verbatim>\<open>comparator.h\<close>
  documents, where zero means equal; it implies the former.  The built-in \<^verbatim>\<open>BytewiseComparator\<close>
  satisfies the first one only, because \<^verbatim>\<open>Slice::compare\<close> never returns zero.
\<close>

record Comparator =
  Compare :: "bytes \<Rightarrow> bytes \<Rightarrow> int"
  FindShortestSeparator :: "bytes \<Rightarrow> bytes \<Rightarrow> bytes"
  FindShortSuccessor :: "bytes \<Rightarrow> bytes"

section \<open>The bytewise comparator\<close>

definition Bytewise_Compare :: "bytes \<Rightarrow> bytes \<Rightarrow> int" where
  "Bytewise_Compare a b = Slice_compare a b"

function diff_index_loop :: "bytes \<Rightarrow> bytes \<Rightarrow> nat \<Rightarrow> nat \<Rightarrow> nat" where
  "diff_index_loop start limit min_length diff_index =
     (if diff_index < min_length \<and> start ! diff_index = limit ! diff_index
      then diff_index_loop start limit min_length (diff_index + 1)
      else diff_index)"
  by pat_completeness auto
termination
  by (relation "measure (\<lambda>(start, limit, min_length, diff_index). min_length - diff_index)") auto

declare diff_index_loop.simps [simp del]

definition Bytewise_FindShortestSeparator :: "bytes \<Rightarrow> bytes \<Rightarrow> bytes" where
  "Bytewise_FindShortestSeparator start limit =
     (let min_length = min (length start) (length limit);
          diff_index = diff_index_loop start limit min_length 0
      in if min_length \<le> diff_index then start
         else let diff_byte = start ! diff_index in
           if diff_byte < 255 \<and> unat diff_byte + 1 < unat (limit ! diff_index)
           then take (diff_index + 1) (start[diff_index := start ! diff_index + 1])
           else start)"

function short_successor_loop :: "bytes \<Rightarrow> nat \<Rightarrow> nat \<Rightarrow> bytes" where
  "short_successor_loop key n i =
     (if i < n then
        let byte = key ! i in
        if byte \<noteq> 255 then take (i + 1) (key[i := byte + 1])
        else short_successor_loop key n (i + 1)
      else key)"
  by pat_completeness auto
termination
  by (relation "measure (\<lambda>(key, n, i). n - i)") auto

declare short_successor_loop.simps [simp del]

definition Bytewise_FindShortSuccessor :: "bytes \<Rightarrow> bytes" where
  "Bytewise_FindShortSuccessor key = short_successor_loop key (length key) 0"

definition BytewiseComparator :: Comparator where
  "BytewiseComparator =
     \<lparr>Compare = Bytewise_Compare,
      FindShortestSeparator = Bytewise_FindShortestSeparator,
      FindShortSuccessor = Bytewise_FindShortSuccessor\<rparr>"

section \<open>The interfaces\<close>

locale ordering =
  fixes cmp :: "'k \<Rightarrow> 'k \<Rightarrow> int"
  assumes cmp_irrefl: "\<not> cmp a a < 0"
    and cmp_trans: "cmp a b < 0 \<Longrightarrow> cmp b c < 0 \<Longrightarrow> cmp a c < 0"
    and cmp_neg_trans: "\<not> cmp a b < 0 \<Longrightarrow> \<not> cmp b c < 0 \<Longrightarrow> \<not> cmp a c < 0"
begin

lemma cmp_asym: "cmp a b < 0 \<Longrightarrow> \<not> cmp b a < 0"
  using cmp_irrefl cmp_trans by blast

lemma less_le_trans: "cmp a b < 0 \<Longrightarrow> \<not> cmp c b < 0 \<Longrightarrow> cmp a c < 0"
  using cmp_neg_trans by blast

lemma le_less_trans: "\<not> cmp b a < 0 \<Longrightarrow> cmp b c < 0 \<Longrightarrow> cmp a c < 0"
  using cmp_neg_trans by blast

lemma ordering_projected: "ordering (\<lambda>a b. cmp (f a) (f b))"
  using cmp_irrefl cmp_trans cmp_neg_trans by unfold_locales blast+

text \<open>In a list sorted by the order, the elements below a key are a prefix.\<close>

lemma sorted_takeWhile:
  assumes "sorted_wrt (\<lambda>x y. \<not> cmp y x < 0) xs"
  shows "takeWhile (\<lambda>x. cmp x k < 0) xs = filter (\<lambda>x. cmp x k < 0) xs"
    and "dropWhile (\<lambda>x. cmp x k < 0) xs = filter (\<lambda>x. \<not> cmp x k < 0) xs"
proof -
  have "takeWhile (\<lambda>x. cmp x k < 0) xs = filter (\<lambda>x. cmp x k < 0) xs \<and>
    dropWhile (\<lambda>x. cmp x k < 0) xs = filter (\<lambda>x. \<not> cmp x k < 0) xs"
    using assms
  proof (induction xs)
    case (Cons x xs)
    show ?case
    proof (cases "cmp x k < 0")
      case True
      with Cons show ?thesis by simp
    next
      case False
      have "\<not> cmp y k < 0" if "y \<in> set xs" for y
        using Cons.prems False that cmp_neg_trans by fastforce
      then show ?thesis using False by (simp add: filter_id_conv filter_empty_conv)
    qed
  qed simp
  then show "takeWhile (\<lambda>x. cmp x k < 0) xs = filter (\<lambda>x. cmp x k < 0) xs"
    and "dropWhile (\<lambda>x. cmp x k < 0) xs = filter (\<lambda>x. \<not> cmp x k < 0) xs"
    by auto
qed

end

locale three_way =
  fixes cmp :: "'k \<Rightarrow> 'k \<Rightarrow> int"
  assumes cmp_refl: "cmp a a = 0"
    and cmp_swap: "cmp b a > 0 \<longleftrightarrow> cmp a b < 0"
    and cmp_le_trans: "cmp a b \<le> 0 \<Longrightarrow> cmp b c \<le> 0 \<Longrightarrow> cmp a c \<le> 0"
begin

lemma cmp_0_sym: "cmp a b = 0 \<longleftrightarrow> cmp b a = 0"
  using cmp_swap [of a b] cmp_swap [of b a] by linarith

lemma cmp_not_less: "\<not> cmp a b < 0 \<longleftrightarrow> cmp b a \<le> 0"
  using cmp_swap [of b a] by linarith

lemma cmp_0_iff: "cmp a b = 0 \<longleftrightarrow> \<not> cmp a b < 0 \<and> \<not> cmp b a < 0"
  using cmp_swap [of a b] cmp_swap [of b a] by linarith

end

sublocale three_way \<subseteq> ordering cmp
proof
  show "\<not> cmp a a < 0" for a by (simp add: cmp_refl)
  show "\<not> cmp a b < 0 \<Longrightarrow> \<not> cmp b c < 0 \<Longrightarrow> \<not> cmp a c < 0" for a b c
    unfolding cmp_not_less using cmp_le_trans by blast
  show "cmp a b < 0 \<Longrightarrow> cmp b c < 0 \<Longrightarrow> cmp a c < 0" for a b c
    by (meson cmp_le_trans cmp_not_less less_imp_le not_less order.trans linorder_not_less)
qed

interpretation bytewise: ordering Bytewise_Compare
  by unfold_locales (auto simp: Bytewise_Compare_def Slice_compare_less_iff)

text \<open>Comparing first by a key and then, on equal keys, by a number in descending order.\<close>

context three_way
begin

lemma cmp_0_cong: "cmp a b = 0 \<Longrightarrow> cmp b c = 0 \<Longrightarrow> cmp a c = 0"
  using cmp_0_iff cmp_neg_trans by blast

lemma projected: "three_way (\<lambda>a b. cmp (f a) (f b))"
  using cmp_refl cmp_swap cmp_le_trans by unfold_locales blast+

lemma lexicographic:
  fixes f :: "'x \<Rightarrow> 'k" and g :: "'x \<Rightarrow> u64"
  shows "three_way (\<lambda>a b. let r = cmp (f a) (f b)
    in if r = 0 then if g a > g b then -1 else if g a < g b then 1 else r else r)" (is "three_way ?c")
proof
  show "?c a a = 0" for a by (simp add: cmp_refl)
  show "?c b a > 0 \<longleftrightarrow> ?c a b < 0" for a b
    using cmp_0_sym [of "f a" "f b"] cmp_swap [of "f b" "f a"] by (auto simp: Let_def)
  show "?c a c \<le> 0" if ab: "?c a b \<le> 0" and bc: "?c b c \<le> 0" for a b c
  proof (cases "cmp (f a) (f b) = 0 \<and> cmp (f b) (f c) = 0")
    case True
    then have "cmp (f a) (f c) = 0" using cmp_0_cong by blast
    with True ab bc show ?thesis by (auto simp: Let_def split: if_splits)
  next
    case False
    have le: "cmp (f a) (f b) \<le> 0" "cmp (f b) (f c) \<le> 0"
      using ab bc by (auto simp: Let_def split: if_splits)
    with False have "cmp (f a) (f c) < 0"
      using cmp_trans less_le_trans le_less_trans cmp_not_less by (metis order.order_iff_strict)
    then show ?thesis by (simp add: Let_def)
  qed
qed

end

section \<open>Shortening keys\<close>

lemma less_append_prefix: "p @ x # xs < p @ y # ys \<longleftrightarrow> x < y \<or> x = y \<and> xs < ys" for p :: bytes
  by (induction p) auto

lemma diff_index_loop_spec:
  assumes "i \<le> m" "d = diff_index_loop a b m i"
  shows "i \<le> d \<and> d \<le> m \<and> (\<forall>j. i \<le> j \<and> j < d \<longrightarrow> a ! j = b ! j) \<and> (d < m \<longrightarrow> a ! d \<noteq> b ! d)"
  using assms
proof (induction a b m i arbitrary: d rule: diff_index_loop.induct)
  case (1 a b m i)
  show ?case
  proof (cases "i < m \<and> a ! i = b ! i")
    case True
    then have "d = diff_index_loop a b m (i + 1)"
      using 1(3) by (simp add: diff_index_loop.simps [of a b m i])
    from 1(1) [OF True _ this] True
    have "i + 1 \<le> d" "d \<le> m" "\<forall>j. i + 1 \<le> j \<and> j < d \<longrightarrow> a ! j = b ! j" "d < m \<longrightarrow> a ! d \<noteq> b ! d"
      by auto
    moreover have "j = i \<or> i + 1 \<le> j" if "i \<le> j" for j using that by linarith
    ultimately show ?thesis using True by (metis add_leD1)
  next
    case False
    then show ?thesis using 1(2,3) by (auto simp: diff_index_loop.simps [of a b m i])
  qed
qed

text \<open>The separator replaces the first differing byte by its successor and cuts the string there.\<close>

lemma FindShortestSeparator_cases:
  obtains (unchanged) "Bytewise_FindShortestSeparator a b = a"
  | (shortened) p x y xs ys where "a = p @ x # xs" "b = p @ y # ys" "x < x + 1" "x + 1 < y"
      "Bytewise_FindShortestSeparator a b = p @ [x + 1]"
proof -
  define m where "m = min (length a) (length b)"
  define d where "d = diff_index_loop a b m 0"
  have spec: "d \<le> m" "\<forall>j < d. a ! j = b ! j"
    using diff_index_loop_spec [of 0 m d a b] by (auto simp: d_def)
  show ?thesis
  proof (cases "Bytewise_FindShortestSeparator a b = a")
    case False
    then have d: "d < m" "a ! d < 255" "unat (a ! d) + 1 < unat (b ! d)"
      and r: "Bytewise_FindShortestSeparator a b = take (d + 1) (a[d := a ! d + 1])"
      by (auto simp: Bytewise_FindShortestSeparator_def Let_def not_le simp flip: m_def d_def
          split: if_splits)
    then have len: "d < length a" "d < length b" by (auto simp: m_def)
    have "take d a = take d b" using spec(2) len by (intro nth_take_lemma) auto
    then have ab: "a = take d a @ a ! d # drop (d + 1) a" "b = take d a @ b ! d # drop (d + 1) b"
      using id_take_nth_drop len by (metis Suc_eq_plus1)+
    have succ: "unat (a ! d + 1) = unat (a ! d) + 1"
      using d(2) by (intro u8_succ) auto
    have "take (d + 1) (a[d := a ! d + 1]) = take d a @ [a ! d + 1]"
      using len(1) by (simp add: take_Suc_conv_app_nth)
    with ab d succ r show ?thesis by (intro shortened) (auto simp: word_less_nat_alt)
  qed (rule unchanged)
qed

lemma short_successor_loop_cases:
  assumes "n = length key"
  shows "short_successor_loop key n i = key \<or>
    (\<exists>p x xs. key = p @ x # xs \<and> x < x + 1 \<and> short_successor_loop key n i = p @ [x + 1])"
  using assms
proof (induction key n i rule: short_successor_loop.induct)
  case (1 key n i)
  show ?case
  proof (cases "i < n \<and> key ! i \<noteq> 255")
    case True
    then have "key = take i key @ key ! i # drop (i + 1) key"
      using 1(2) by (metis Suc_eq_plus1 id_take_nth_drop)
    moreover have "key ! i < key ! i + 1"
      using True by (simp add: u8_succ)
    moreover have "short_successor_loop key n i = take i key @ [key ! i + 1]"
      using True 1(2) by (simp add: short_successor_loop.simps [of key "length key" i] Let_def take_Suc_conv_app_nth)
    ultimately show ?thesis by blast
  next
    case False
    then have "short_successor_loop key n i = (if i < n then short_successor_loop key n (i + 1) else key)"
      by (auto simp: short_successor_loop.simps [of key n i] Let_def)
    with 1 False show ?thesis by (cases "i < n") auto
  qed
qed

text \<open>The documented contract of the two shortening methods, relative to the order.\<close>

locale key_shortening = ordering cmp
  for cmp :: "bytes \<Rightarrow> bytes \<Rightarrow> int" +
  fixes sep :: "bytes \<Rightarrow> bytes \<Rightarrow> bytes" and succ :: "bytes \<Rightarrow> bytes"
  assumes sep_between: "cmp s l < 0 \<Longrightarrow> \<not> cmp (sep s l) s < 0 \<and> cmp (sep s l) l < 0"
    and succ_above: "\<not> cmp (succ k) k < 0"

lemma Bytewise_separator:
  assumes "start < limit"
  shows "start \<le> Bytewise_FindShortestSeparator start limit \<and>
    Bytewise_FindShortestSeparator start limit < limit \<and>
    length (Bytewise_FindShortestSeparator start limit) \<le> length start"
proof (cases rule: FindShortestSeparator_cases [of start limit])
  case unchanged
  then show ?thesis using assms by simp
next
  case (shortened p x y xs ys)
  then show ?thesis by (auto simp: less_append_prefix le_less)
qed

lemma Bytewise_successor:
  "key \<le> Bytewise_FindShortSuccessor key \<and> length (Bytewise_FindShortSuccessor key) \<le> length key"
  using short_successor_loop_cases [of "length key" key 0]
  by (auto simp: Bytewise_FindShortSuccessor_def less_append_prefix le_less)

interpretation bytewise_keys: key_shortening Bytewise_Compare Bytewise_FindShortestSeparator
    Bytewise_FindShortSuccessor
  using Bytewise_separator Bytewise_successor
  by unfold_locales (auto simp: Bytewise_Compare_def Slice_compare_less_iff not_less)

text \<open>A comparator that does meet the documented contract: lexicographic order with zero on equal keys, and the
  shortening methods of the bytewise one.\<close>

definition reference_comparator :: Comparator where
  "reference_comparator =
     \<lparr>Compare = (\<lambda>a b. if a < b then -1 else if a = b then 0 else 1),
      FindShortestSeparator = Bytewise_FindShortestSeparator,
      FindShortSuccessor = Bytewise_FindShortSuccessor\<rparr>"

interpretation reference: three_way "Compare reference_comparator"
  by unfold_locales (auto simp: reference_comparator_def split: if_splits)

section \<open>Properties\<close>

text \<open>\<^verbatim>\<open>BytewiseComparator\<close> shortens keys as documented.  If \<open>start\<close> is below \<open>limit\<close>, the separator
  lies in the half-open interval from \<open>start\<close> to \<open>limit\<close>; the short successor is not below the key; and neither
  is longer than the original.\<close>

theorem bytewise_shortening:
  assumes "start < limit"
  shows "start \<le> FindShortestSeparator BytewiseComparator start limit \<and>
    FindShortestSeparator BytewiseComparator start limit < limit \<and>
    length (FindShortestSeparator BytewiseComparator start limit) \<le> length start \<and>
    key \<le> FindShortSuccessor BytewiseComparator key \<and>
    length (FindShortSuccessor BytewiseComparator key) \<le> length key"
  using Bytewise_separator [OF assms] Bytewise_successor [of key] by (simp add: BytewiseComparator_def)

theorem bytewise_shortening_witness:
  "FindShortestSeparator BytewiseComparator [97, 98, 99] [97, 102] = [97, 99] \<and>
   FindShortSuccessor BytewiseComparator [255, 98, 99] = [255, 99] \<and>
   [97, 98, 99] \<le> FindShortestSeparator BytewiseComparator [97, 98, 99] [97, 102] \<and>
   FindShortestSeparator BytewiseComparator [97, 98, 99] [97, 102] < [97, 102]"
proof -
  have "[97, 98, 99] < ([97, 102] :: bytes)" by simp
  note bytewise_shortening [OF this]
  moreover have "FindShortestSeparator BytewiseComparator [97, 98, 99] [97, 102] = [97, 99]"
    "FindShortSuccessor BytewiseComparator [255, 98, 99] = [255, 99]"
    by code_simp+
  ultimately show ?thesis by blast
qed

text \<open>The documented contract of \<^verbatim>\<open>Compare\<close> (zero exactly on equal keys) fails for the built-in
  comparator: it orders keys, but no pair of keys compares equal.\<close>

theorem bytewise_not_three_way:
  "(Compare BytewiseComparator a b < 0 \<longleftrightarrow> a < b) \<and> Compare BytewiseComparator a b \<noteq> 0 \<and>
   \<not> three_way (Compare BytewiseComparator)"
proof -
  have "\<not> three_way Bytewise_Compare"
    using three_way.cmp_refl [of Bytewise_Compare "[]"]
    by (auto simp: Bytewise_Compare_def Slice_compare_not_0)
  then show ?thesis
    by (simp add: BytewiseComparator_def Bytewise_Compare_def Slice_compare_less_iff
        Slice_compare_not_0)
qed

end
