(* ===== verification/Rand.thy ===== *)
theory Rand
  imports Prelude
begin

text \<open>
  \<^verbatim>\<open>util/random.h\<close>: the multiplicative congruential generator that chooses the heights of skip list
  nodes.  The state is the field \<^verbatim>\<open>seed_\<close>; every operation returns its result and the new seed.  The
  \<^verbatim>\<open>int\<close> arguments, which the code requires to be positive, are words of the width they are converted
  to.
\<close>

definition Random_init :: "u32 \<Rightarrow> u32" where
  "Random_init s =
     (let seed = s AND 0x7fffffff in if seed = 0 \<or> seed = 2147483647 then 1 else seed)"

definition Random_Next :: "u32 \<Rightarrow> u32" where
  "Random_Next seed =
     (let M = (2147483647 :: u32);
          A = (16807 :: u64);
          product = ucast seed * A;
          seed' = (ucast (drop_bit 31 product + (product AND ucast M)) :: u32)
      in if M < seed' then seed' - M else seed')"

definition Random_Uniform :: "u32 \<Rightarrow> u32 \<Rightarrow> u32 \<times> u32" where
  "Random_Uniform n seed = (let seed' = Random_Next seed in (seed' mod n, seed'))"

definition Random_OneIn :: "u32 \<Rightarrow> u32 \<Rightarrow> bool \<times> u32" where
  "Random_OneIn n seed = (let seed' = Random_Next seed in (seed' mod n = 0, seed'))"

definition Random_Skewed :: "nat \<Rightarrow> u32 \<Rightarrow> u32 \<times> u32" where
  "Random_Skewed max_log seed =
     (let (base, seed') = Random_Uniform (of_nat max_log + 1) seed
      in Random_Uniform (push_bit (unat base) 1) seed')"

text \<open>A seed is good when it is neither 0 nor \<open>M = 2\<^sup>3\<^sup>1 - 1\<close>, the two fixed points.\<close>

definition good_seed :: "u32 \<Rightarrow> bool" where
  "good_seed s \<longleftrightarrow> 0 < unat s \<and> unat s < 2147483647"

lemma Random_init_good: "good_seed (Random_init s)"
proof -
  have "(s AND 0x7fffffff :: u32) = take_bit 31 s"
    by (simp add: take_bit_eq_mask mask_eq_exp_minus_1)
  then have "unat (s AND 0x7fffffff) < 2 ^ 31"
    by (simp only: unsigned_take_bit_eq take_bit_nat_less_exp)
  moreover have "unat (s AND 0x7fffffff) \<noteq> 0" if "s AND 0x7fffffff \<noteq> 0"
    using that by (simp add: unat_eq_0)
  moreover have "unat (s AND 0x7fffffff) \<noteq> 2147483647" if "s AND 0x7fffffff \<noteq> 2147483647"
    using that by (simp add: word_unat_eq_iff)
  ultimately show ?thesis
    by (auto simp: Random_init_def good_seed_def Let_def)
qed

text \<open>The reduction by shift and mask computes the remainder modulo \<open>M\<close>.\<close>

lemma mersenne_reduce:
  fixes p :: nat
  assumes "p < 2 ^ 46" "p mod 2147483647 \<noteq> 0"
  shows "p mod 2147483647 =
    (let t = p div 2 ^ 31 + p mod 2 ^ 31 in if 2147483647 < t then t - 2147483647 else t)"
proof -
  define q r where "q = p div 2 ^ 31" and "r = p mod 2 ^ 31"
  have p: "p = q * 2147483647 + (q + r)" by (simp add: q_def r_def)
  have bounds: "q < 2 ^ 15" "r < 2 ^ 31" using assms(1) by (auto simp: q_def r_def)
  have m: "p mod 2147483647 = (q + r) mod 2147483647" by (subst p) (rule mod_mult_self3)
  have "(q + r) mod 2147483647 = (if 2147483647 < q + r then q + r - 2147483647 else q + r)"
  proof (cases "q + r < 2147483647")
    case False
    moreover have "q + r \<noteq> 2147483647" using assms(2) m by auto
    ultimately show ?thesis using bounds by (simp add: le_mod_geq)
  qed simp
  with m show ?thesis by (simp add: Let_def q_def r_def)
qed

lemma unat_Random_Next:
  assumes "good_seed s"
  shows "unat (Random_Next s) = (16807 * unat s) mod 2147483647"
proof -
  define p where "p = 16807 * unat s"
  have s: "unat s < 2147483647" using assms by (simp add: good_seed_def)
  then have p: "p < 2 ^ 46" by (simp add: p_def)
  have nz: "p mod 2147483647 \<noteq> 0"
  proof
    assume "p mod 2147483647 = 0"
    moreover have "coprime (2147483647::nat) 16807" by (simp add: coprime_iff_gcd_eq_1 gcd_nat.simps)
    ultimately have "2147483647 dvd unat s"
      by (metis p_def coprime_dvd_mult_right_iff mod_eq_0_iff_dvd)
    then show False using assms s by (auto simp: good_seed_def dest: dvd_imp_le)
  qed
  have prod: "unat (ucast s * 16807 :: u64) = p"
    using s by (simp add: p_def unat_word_ariths unat_ucast_up)
  have "unat (drop_bit 31 (ucast s * 16807 :: u64)) = p div 2 ^ 31"
    by (simp only: unat_drop_bit_div prod)
  moreover have "unat ((ucast s * 16807 :: u64) AND ucast (2147483647::u32)) = p mod 2 ^ 31"
  proof -
    have "(ucast (2147483647::u32) :: u64) = mask 31" by (simp add: mask_eq_exp_minus_1)
    then have "(ucast s * 16807 :: u64) AND ucast (2147483647::u32) = take_bit 31 (ucast s * 16807)"
      by (simp add: take_bit_eq_mask)
    then show ?thesis by (simp only: unsigned_take_bit_eq prod) (simp only: take_bit_eq_mod)
  qed
  ultimately have t: "unat (ucast (drop_bit 31 (ucast s * 16807 :: u64) +
      ((ucast s * 16807) AND ucast (2147483647::u32))) :: u32) = p div 2 ^ 31 + p mod 2 ^ 31"
    using p by (simp add: unat_ucast unat_word_ariths)
  show ?thesis
    unfolding Random_Next_def Let_def
    using mersenne_reduce [OF p nz] t
    by (auto simp: Let_def word_less_nat_alt unat_sub_if' p_def split: if_splits)
qed

lemma Random_Next_good: "good_seed s \<Longrightarrow> good_seed (Random_Next s)"
proof -
  assume s: "good_seed s"
  then have "\<not> 2147483647 dvd unat s" by (auto simp: good_seed_def dest: dvd_imp_le)
  moreover have "coprime (2147483647::nat) 16807" by (simp add: coprime_iff_gcd_eq_1 gcd_nat.simps)
  ultimately have "(16807 * unat s) mod 2147483647 \<noteq> 0"
    by (metis coprime_dvd_mult_right_iff mod_eq_0_iff_dvd)
  then show ?thesis by (simp add: good_seed_def unat_Random_Next [OF s])
qed

section \<open>Properties\<close>

text \<open>From every initial seed the generator stays on good seeds (it never gets stuck at 0 or at
  the modulus) and each step is exactly \<open>seed * 16807 mod (2\<^sup>3\<^sup>1 - 1)\<close>: the shift-and-mask reduction in
  64-bit arithmetic loses nothing.\<close>

theorem random_lehmer:
  "good_seed ((Random_Next ^^ n) (Random_init s)) \<and>
   unat ((Random_Next ^^ n) (Random_init s)) = (16807 ^ n * unat (Random_init s)) mod 2147483647"
proof (induction n)
  case 0
  have "unat (Random_init s) < 2147483647"
    using Random_init_good [of s] by (simp add: good_seed_def)
  then show ?case by (simp add: Random_init_good)
next
  case (Suc n)
  then show ?case
    by (simp add: Random_Next_good unat_Random_Next mod_mult_right_eq mult.assoc)
qed

end
