(* ===== verification/Arena.thy ===== *)
theory Arena
  imports Prelude
begin

text \<open>
  \<^verbatim>\<open>util/arena.h\<close> and \<^verbatim>\<open>util/arena.cc\<close>: the bump allocator behind the memtable.  Addresses and sizes
  are natural numbers, the null pointer is 0, pointers have eight bytes.  \<^verbatim>\<open>new char[n]\<close> belongs to the
  C++ runtime and is the parameter \<open>new_char\<close> of the allocating operations: from the blocks that are
  live and a size it gives an address.  \<open>fresh_allocator\<close> says what is relied on: the address is
  aligned for any object, and the new block overlaps no live one.

  The record keeps the fields of the class; \<open>blocks\<close> holds each block's size next to its address,
  which in the program only the runtime knows.
\<close>

type_synonym region = "nat \<times> nat"

record arena =
  alloc_ptr :: nat
  alloc_bytes_remaining :: nat
  blocks :: "region list"
  memory_usage :: nat

definition kArenaBlockSize :: nat where
  "kArenaBlockSize = 4096"

definition Arena_init :: arena where
  "Arena_init = \<lparr>alloc_ptr = 0, alloc_bytes_remaining = 0, blocks = [], memory_usage = 0\<rparr>"

definition MemoryUsage :: "arena \<Rightarrow> nat" where
  "MemoryUsage A = memory_usage A"

definition AllocateNewBlock :: "(region list \<Rightarrow> nat \<Rightarrow> nat) \<Rightarrow> nat \<Rightarrow> arena \<Rightarrow> nat \<times> arena" where
  "AllocateNewBlock new_char block_bytes A =
     (let result = new_char (blocks A) block_bytes
      in (result, A\<lparr>blocks := blocks A @ [(result, block_bytes)],
                    memory_usage := memory_usage A + (block_bytes + 8)\<rparr>))"

definition AllocateFallback :: "(region list \<Rightarrow> nat \<Rightarrow> nat) \<Rightarrow> nat \<Rightarrow> arena \<Rightarrow> nat \<times> arena" where
  "AllocateFallback new_char bytes A =
     (if kArenaBlockSize div 4 < bytes then AllocateNewBlock new_char bytes A
      else
        let (ptr, A1) = AllocateNewBlock new_char kArenaBlockSize A;
            A2 = A1\<lparr>alloc_ptr := ptr, alloc_bytes_remaining := kArenaBlockSize\<rparr>;
            result = alloc_ptr A2
        in (result, A2\<lparr>alloc_ptr := alloc_ptr A2 + bytes,
                        alloc_bytes_remaining := alloc_bytes_remaining A2 - bytes\<rparr>))"

definition Allocate :: "(region list \<Rightarrow> nat \<Rightarrow> nat) \<Rightarrow> nat \<Rightarrow> arena \<Rightarrow> nat \<times> arena" where
  "Allocate new_char bytes A =
     (if bytes \<le> alloc_bytes_remaining A
      then (alloc_ptr A, A\<lparr>alloc_ptr := alloc_ptr A + bytes,
                           alloc_bytes_remaining := alloc_bytes_remaining A - bytes\<rparr>)
      else AllocateFallback new_char bytes A)"

definition AllocateAligned :: "(region list \<Rightarrow> nat \<Rightarrow> nat) \<Rightarrow> nat \<Rightarrow> arena \<Rightarrow> nat \<times> arena" where
  "AllocateAligned new_char bytes A =
     (let align = 8;
          current_mod = alloc_ptr A AND (align - 1);
          slop = (if current_mod = 0 then 0 else align - current_mod);
          needed = bytes + slop
      in if needed \<le> alloc_bytes_remaining A
         then (alloc_ptr A + slop, A\<lparr>alloc_ptr := alloc_ptr A + needed,
                                     alloc_bytes_remaining := alloc_bytes_remaining A - needed\<rparr>)
         else AllocateFallback new_char bytes A)"

section \<open>Regions\<close>

fun apart :: "region \<Rightarrow> region \<Rightarrow> bool" where
  "apart (p, n) (q, m) \<longleftrightarrow> p + n \<le> q \<or> q + m \<le> p"

fun inside :: "region \<Rightarrow> region \<Rightarrow> bool" where
  "inside (p, n) (q, m) \<longleftrightarrow> q \<le> p \<and> p + n \<le> q + m"

definition fresh_allocator :: "(region list \<Rightarrow> nat \<Rightarrow> nat) \<Rightarrow> bool" where
  "fresh_allocator new_char \<longleftrightarrow>
     (\<forall>bs n. 0 < n \<longrightarrow> new_char bs n mod 8 = 0 \<and> (\<forall>b \<in> set bs. apart (new_char bs n, n) b))"

lemma apart_sym: "apart r s \<longleftrightarrow> apart s r"
  by (cases r; cases s) auto

lemma apart_inside: "inside r b \<Longrightarrow> apart b c \<Longrightarrow> apart r c"
  by (cases r; cases b; cases c) auto

lemma inside_trans: "inside r s \<Longrightarrow> inside s b \<Longrightarrow> inside r b"
  by (cases r; cases s; cases b) auto

lemma apart_inside2: "inside r b \<Longrightarrow> apart c b \<Longrightarrow> apart c r"
  using apart_inside apart_sym by blast

declare apart.simps [simp del] inside.simps [simp del]

text \<open>
  The invariant relates an arena to the regions it has handed out: they lie in its blocks, overlap
  neither each other nor the free rest of the current block, and the usage counter adds up the
  blocks with one pointer each.
\<close>

definition arena_inv :: "arena \<Rightarrow> region list \<Rightarrow> bool" where [inv_simps]:
  "arena_inv A rs \<longleftrightarrow>
     sorted_wrt apart (blocks A) \<and>
     sorted_wrt apart rs \<and>
     (\<forall>r \<in> set rs. \<exists>b \<in> set (blocks A). inside r b) \<and>
     (0 < alloc_bytes_remaining A \<longrightarrow>
        (\<exists>b \<in> set (blocks A). inside (alloc_ptr A, alloc_bytes_remaining A) b) \<and>
        (\<forall>r \<in> set rs. apart (alloc_ptr A, alloc_bytes_remaining A) r)) \<and>
     memory_usage A = sum_list (map (\<lambda>b. snd b + 8) (blocks A))"

lemma arena_inv_init: "arena_inv Arena_init []"
  by (simp add: arena_inv_def Arena_init_def)

text \<open>Carving a piece out of the free rest, and taking a piece of a new block, keep the invariant.\<close>

lemma arena_inv_carve:
  assumes "arena_inv A rs" "0 < n" "slop + n \<le> alloc_bytes_remaining A"
  shows "arena_inv (A\<lparr>alloc_ptr := alloc_ptr A + (n + slop),
      alloc_bytes_remaining := alloc_bytes_remaining A - (n + slop)\<rparr>) (rs @ [(alloc_ptr A + slop, n)])"
proof -
  have free: "\<exists>b \<in> set (blocks A). inside (alloc_ptr A, alloc_bytes_remaining A) b"
    "\<forall>r \<in> set rs. apart (alloc_ptr A, alloc_bytes_remaining A) r"
    using assms by (auto simp: arena_inv_def)
  let ?p = "alloc_ptr A" and ?k = "alloc_bytes_remaining A"
  have new: "inside (?p + slop, n) (?p, ?k)" and rest: "inside (?p + (n + slop), ?k - (n + slop)) (?p, ?k)"
    and split: "apart (?p + (n + slop), ?k - (n + slop)) (?p + slop, n)"
    using assms(3) by (auto simp: inside.simps apart.simps)
  have "\<exists>b \<in> set (blocks A). inside (?p + slop, n) b"
    "\<exists>b \<in> set (blocks A). inside (?p + (n + slop), ?k - (n + slop)) b"
    using free(1) inside_trans [OF new] inside_trans [OF rest] by blast+
  moreover have "apart r (?p + slop, n)" "apart (?p + (n + slop), ?k - (n + slop)) r" if "r \<in> set rs" for r
    using free(2) that apart_inside2 [OF new] apart_inside [OF rest] apart_sym by blast+
  ultimately show ?thesis
    using assms(1) split by (auto simp: arena_inv_def sorted_wrt_append)
qed

lemma arena_inv_new_block:
  assumes fresh: "fresh_allocator new_char" and inv: "arena_inv A rs" and "0 < sz"
    and A': "AllocateNewBlock new_char sz A = (p, A')"
  shows "p mod 8 = 0" "alloc_ptr A' = alloc_ptr A"
    "alloc_bytes_remaining A' = alloc_bytes_remaining A" "arena_inv A' rs"
    "(p, sz) \<in> set (blocks A')" "\<forall>r \<in> set rs. apart (p, sz) r"
    "0 < alloc_bytes_remaining A \<longrightarrow> apart (p, sz) (alloc_ptr A, alloc_bytes_remaining A)"
proof -
  have p: "p mod 8 = 0" "\<forall>b \<in> set (blocks A). apart (p, sz) b"
    using fresh A' \<open>0 < sz\<close> by (auto simp: fresh_allocator_def AllocateNewBlock_def Let_def)
  have apart: "apart (p, sz) r" if "\<exists>b \<in> set (blocks A). inside r b" for r
    using that p(2) by (meson apart_inside apart_sym)
  show "p mod 8 = 0" by (rule p(1))
  show "\<forall>r \<in> set rs. apart (p, sz) r"
    "0 < alloc_bytes_remaining A \<longrightarrow> apart (p, sz) (alloc_ptr A, alloc_bytes_remaining A)"
    using inv by (auto simp: arena_inv_def intro: apart)
  show "alloc_ptr A' = alloc_ptr A" "alloc_bytes_remaining A' = alloc_bytes_remaining A"
    "(p, sz) \<in> set (blocks A')"
    using A' by (auto simp: AllocateNewBlock_def Let_def)
  show "arena_inv A' rs"
  proof -
    have "\<forall>b \<in> set (blocks A). apart b (p, sz)" using p(2) apart_sym by blast
    moreover have "blocks A' = blocks A @ [(p, sz)]" "memory_usage A' = memory_usage A + (sz + 8)"
      "alloc_ptr A' = alloc_ptr A" "alloc_bytes_remaining A' = alloc_bytes_remaining A"
      using A' by (auto simp: AllocateNewBlock_def Let_def)
    ultimately show ?thesis using inv by (auto simp: arena_inv_def sorted_wrt_append)
  qed
qed

lemma arena_inv_region:
  assumes "arena_inv A rs" "(p, sz) \<in> set (blocks A)" "n \<le> sz"
    "\<forall>r \<in> set rs. apart (p, sz) r"
    "0 < alloc_bytes_remaining A \<longrightarrow> apart (p, sz) (alloc_ptr A, alloc_bytes_remaining A)"
  shows "arena_inv A (rs @ [(p, n)])"
proof -
  have piece: "inside (p, n) (p, sz)" using assms(3) by (simp add: inside.simps)
  then have "apart r (p, n)" if "r \<in> set rs" for r
    using assms(4) that apart_inside apart_sym by blast
  moreover have "apart (alloc_ptr A, alloc_bytes_remaining A) (p, n)" if "0 < alloc_bytes_remaining A"
    using assms(5) that piece apart_inside apart_sym by blast
  ultimately show ?thesis
    using assms(1,2) piece by (auto simp: arena_inv_def sorted_wrt_append)
qed

lemma arena_inv_switch:
  assumes "arena_inv A rs" "(p, sz) \<in> set (blocks A)" "\<forall>r \<in> set rs. apart (p, sz) r"
  shows "arena_inv (A\<lparr>alloc_ptr := p, alloc_bytes_remaining := sz\<rparr>) rs"
proof -
  have "inside (p, sz) (p, sz)" by (simp add: inside.simps)
  then show ?thesis using assms by (auto simp: arena_inv_def)
qed

lemma arena_inv_fallback:
  assumes fresh: "fresh_allocator new_char" and inv: "arena_inv A rs" and "0 < n"
    and A': "AllocateFallback new_char n A = (p, A')"
  shows "arena_inv A' (rs @ [(p, n)]) \<and> p mod 8 = 0"
proof (cases "kArenaBlockSize div 4 < n")
  case True
  then have "AllocateNewBlock new_char n A = (p, A')" using A' by (simp add: AllocateFallback_def)
  from arena_inv_new_block [OF fresh inv \<open>0 < n\<close> this] show ?thesis
    by (auto intro!: arena_inv_region)
next
  case False
  obtain q A1 where A1: "AllocateNewBlock new_char kArenaBlockSize A = (q, A1)" by fastforce
  have pos: "0 < kArenaBlockSize" by (simp add: kArenaBlockSize_def)
  note new = arena_inv_new_block [OF fresh inv pos A1]
  let ?A2 = "A1\<lparr>alloc_ptr := q, alloc_bytes_remaining := kArenaBlockSize\<rparr>"
  have "arena_inv ?A2 rs" using new by (intro arena_inv_switch) auto
  from arena_inv_carve [OF this \<open>0 < n\<close>, of 0] show ?thesis
    using False A' A1 new(1) by (auto simp: AllocateFallback_def kArenaBlockSize_def)
qed

lemma and_7_mod_8: "x AND 7 = x mod 8" for x :: nat
  using take_bit_eq_mask [of 3 x] by (simp add: take_bit_eq_mod mask_eq_exp_minus_1)

lemma align_mask: "x AND (8 - 1) = x mod 8" for x :: nat
  by (simp add: and_7_mod_8)

lemma arena_inv_Allocate:
  assumes "fresh_allocator new_char" "arena_inv A rs" "0 < n" "Allocate new_char n A = (p, A')"
  shows "arena_inv A' (rs @ [(p, n)])"
  using assms arena_inv_carve [OF assms(2,3), of 0] arena_inv_fallback [OF assms(1-3)]
  by (auto simp: Allocate_def split: if_splits)

lemma round_up_8: "(x + (8 - x mod 8)) mod 8 = (0::nat)"
  by presburger

lemma arena_inv_AllocateAligned:
  assumes "fresh_allocator new_char" "arena_inv A rs" "0 < n" "AllocateAligned new_char n A = (p, A')"
  shows "arena_inv A' (rs @ [(p, n)]) \<and> p mod 8 = 0"
proof -
  define slop where "slop = (if alloc_ptr A mod 8 = 0 then 0 else 8 - alloc_ptr A mod 8)"
  have "(alloc_ptr A + slop) mod 8 = 0"
    unfolding slop_def using round_up_8 by (cases "alloc_ptr A mod 8 = 0") (simp, simp only: if_False)
  moreover have "AllocateAligned new_char n A =
    (if n + slop \<le> alloc_bytes_remaining A
     then (alloc_ptr A + slop, A\<lparr>alloc_ptr := alloc_ptr A + (n + slop),
                                 alloc_bytes_remaining := alloc_bytes_remaining A - (n + slop)\<rparr>)
     else AllocateFallback new_char n A)"
    by (simp only: AllocateAligned_def Let_def slop_def align_mask)
  ultimately show ?thesis
    using assms(4) arena_inv_carve [OF assms(2,3), of slop] arena_inv_fallback [OF assms(1-3), of p A']
    by (cases "n + slop \<le> alloc_bytes_remaining A") (auto simp: add.commute)
qed

section \<open>Runs of allocations\<close>

datatype request = Plain nat | Aligned nat

fun request_size :: "request \<Rightarrow> nat" where
  "request_size (Plain n) = n"
| "request_size (Aligned n) = n"

fun serve :: "(region list \<Rightarrow> nat \<Rightarrow> nat) \<Rightarrow> request list \<Rightarrow> arena \<Rightarrow> nat list \<times> arena" where
  "serve new_char [] A = ([], A)"
| "serve new_char (q # qs) A =
     (let (p, A1) = (case q of Plain n \<Rightarrow> Allocate new_char n A | Aligned n \<Rightarrow> AllocateAligned new_char n A);
          (ps, A2) = serve new_char qs A1
      in (p # ps, A2))"

lemma serve_inv:
  assumes "fresh_allocator new_char" "arena_inv A rs" "\<forall>q \<in> set qs. 0 < request_size q"
    "serve new_char qs A = (ps, A')"
  shows "arena_inv A' (rs @ zip ps (map request_size qs)) \<and> length ps = length qs \<and>
    (\<forall>i < length qs. (\<exists>n. qs ! i = Aligned n) \<longrightarrow> ps ! i mod 8 = 0)"
  using assms(2-)
proof (induction qs arbitrary: A rs ps)
  case (Cons q qs)
  obtain p A1 where A1: "(case q of Plain n \<Rightarrow> Allocate new_char n A
      | Aligned n \<Rightarrow> AllocateAligned new_char n A) = (p, A1)"
    by fastforce
  obtain ps' where ps': "serve new_char qs A1 = (ps', A')" "ps = p # ps'"
    using Cons.prems(3) A1 by (auto split: prod.splits)
  have step: "arena_inv A1 (rs @ [(p, request_size q)]) \<and> ((\<exists>n. q = Aligned n) \<longrightarrow> p mod 8 = 0)"
    using A1 Cons.prems(1,2) arena_inv_Allocate [OF assms(1)] arena_inv_AllocateAligned [OF assms(1)]
    by (cases q) auto
  from Cons.IH [OF conjunct1 [OF this] _ ps'(1)] Cons.prems(2) step ps'(2) show ?case
    by (auto simp: nth_Cons split: nat.splits)
qed simp

section \<open>Properties\<close>


text \<open>A concrete runtime allocator for the witness: each block starts at the next multiple of eight
  after all live ones.\<close>

definition bump_new :: "region list \<Rightarrow> nat \<Rightarrow> nat" where
  "bump_new bs n = 8 * (1 + fold (\<lambda>b m. max (fst b + snd b) m) bs 0)"

lemma bump_new_fresh: "fresh_allocator bump_new"
proof -
  have mono: "m \<le> fold (\<lambda>b m. max (fst b + snd b) m) bs m" for bs :: "region list" and m
    by (induction bs arbitrary: m) (auto, meson max.bounded_iff)
  have bound: "fst b + snd b \<le> fold (\<lambda>b m. max (fst b + snd b) m) bs m" if "b \<in> set bs"
    for b and bs :: "region list" and m
    using that
  proof (induction bs arbitrary: m)
    case (Cons a bs)
    then show ?case using mono [of "max (fst a + snd a) m" bs] by auto
  qed simp
  have "apart (bump_new bs n, n) b" if "b \<in> set bs" for b bs n
    using bound [OF that, of 0] by (cases b) (auto simp: bump_new_def apart.simps)
  then show ?thesis by (auto simp: fresh_allocator_def bump_new_def)
qed


end
