(* ===== verification/Skiplist.thy ===== *)
theory Skiplist
  imports Comparator Rand Arena "HOL-Library.Multiset"
begin

text \<open>
  \<^verbatim>\<open>db/skiplist.h\<close>.  The nodes of a list are kept in the order of their creation: a \<^verbatim>\<open>Node*\<close> is the
  index of its node, \<open>None\<close> is \<^verbatim>\<open>nullptr\<close>, \<^verbatim>\<open>head_\<close> is node 0.  (Nodes are never freed before the
  list is, and the arena theory shows that their memory does not overlap.)  A node has its key and its
  array \<^verbatim>\<open>next_\<close>, whose length is the node's height.  The comparator is a parameter, as the template
  has it.  The barriers of \<^verbatim>\<open>Next\<close>/\<^verbatim>\<open>SetNext\<close> and their \<^verbatim>\<open>NoBarrier_\<close> variants only matter to
  concurrent readers; in this sequential model both are the plain read and write.

  The searches are loops that follow pointers, so their result is an \<open>option\<close>: \<open>None\<close> if the loop does
  not return, or if the assertion in \<^verbatim>\<open>FindLessThan\<close> fails.  For \<open>Insert\<close>, \<open>None\<close> also stands for the failed assertion that no equal key is present
  and for reading an entry of \<^verbatim>\<open>prev\<close> that was never written: the array starts out uninitialised.
\<close>

record 'k node =
  node_key :: 'k
  node_next :: "nat option list"

record 'k skiplist =
  nodes :: "'k node list"
  max_height :: nat
  rnd :: u32
  sl_arena :: arena

definition kMaxHeight :: nat where
  "kMaxHeight = 12"

definition kBranching :: u32 where
  "kBranching = 4"

abbreviation (input) head :: nat where
  "head \<equiv> 0"

section \<open>Nodes\<close>

definition Next :: "'k skiplist \<Rightarrow> nat \<Rightarrow> nat \<Rightarrow> nat option" where
  "Next sl x n = node_next (nodes sl ! x) ! n"

definition SetNext :: "nat \<Rightarrow> nat \<Rightarrow> nat option \<Rightarrow> 'k skiplist \<Rightarrow> 'k skiplist" where
  "SetNext x n p sl =
     sl\<lparr>nodes := (nodes sl)[x := (nodes sl ! x)\<lparr>node_next := (node_next (nodes sl ! x))[n := p]\<rparr>]\<rparr>"

definition NewNode :: "(region list \<Rightarrow> nat \<Rightarrow> nat) \<Rightarrow> 'k \<Rightarrow> nat \<Rightarrow> 'k skiplist \<Rightarrow> nat \<times> 'k skiplist" where
  "NewNode new_char key height sl =
     (let (node_memory, A) = AllocateAligned new_char (16 + 8 * (height - 1)) (sl_arena sl)
      in (length (nodes sl),
          sl\<lparr>nodes := nodes sl @ [\<lparr>node_key = key, node_next = replicate height None\<rparr>],
             sl_arena := A\<rparr>))"

definition SkipList_init :: "(region list \<Rightarrow> nat \<Rightarrow> nat) \<Rightarrow> 'k \<Rightarrow> arena \<Rightarrow> 'k skiplist" where
  "SkipList_init new_char zero A =
     (let (h, sl) = NewNode new_char zero kMaxHeight
            \<lparr>nodes = [], max_height = 1, rnd = Random_init 0xdeadbeef, sl_arena = A\<rparr>
      in fold (\<lambda>i. SetNext h i None) [0..<kMaxHeight] sl)"

section \<open>Searching\<close>

definition Equal :: "('k \<Rightarrow> 'k \<Rightarrow> int) \<Rightarrow> 'k \<Rightarrow> 'k \<Rightarrow> bool" where
  "Equal cmp a b \<longleftrightarrow> cmp a b = 0"

definition KeyIsAfterNode :: "('k \<Rightarrow> 'k \<Rightarrow> int) \<Rightarrow> 'k skiplist \<Rightarrow> 'k \<Rightarrow> nat option \<Rightarrow> bool" where
  "KeyIsAfterNode cmp sl key n =
     (case n of None \<Rightarrow> False | Some i \<Rightarrow> cmp (node_key (nodes sl ! i)) key < 0)"

partial_function (option) FindGreaterOrEqual_loop ::
    "('k \<Rightarrow> 'k \<Rightarrow> int) \<Rightarrow> 'k skiplist \<Rightarrow> 'k \<Rightarrow> nat \<Rightarrow> nat \<Rightarrow> nat option list option
     \<Rightarrow> (nat option \<times> nat option list option) option" where
  "FindGreaterOrEqual_loop cmp sl key x level prev =
     (let nxt = Next sl x level in
      if KeyIsAfterNode cmp sl key nxt
      then FindGreaterOrEqual_loop cmp sl key (the nxt) level prev
      else
        let prev' = map_option (\<lambda>p. p[level := Some x]) prev in
        if level = 0 then Some (nxt, prev')
        else FindGreaterOrEqual_loop cmp sl key x (level - 1) prev')"

declare FindGreaterOrEqual_loop.simps [code]

definition FindGreaterOrEqual ::
    "('k \<Rightarrow> 'k \<Rightarrow> int) \<Rightarrow> 'k skiplist \<Rightarrow> 'k \<Rightarrow> nat option list option
     \<Rightarrow> (nat option \<times> nat option list option) option" where
  "FindGreaterOrEqual cmp sl key prev =
     FindGreaterOrEqual_loop cmp sl key head (max_height sl - 1) prev"

partial_function (option) FindLessThan_loop ::
    "('k \<Rightarrow> 'k \<Rightarrow> int) \<Rightarrow> 'k skiplist \<Rightarrow> 'k \<Rightarrow> nat \<Rightarrow> nat \<Rightarrow> nat option" where
  "FindLessThan_loop cmp sl key x level =
     (if x = head \<or> cmp (node_key (nodes sl ! x)) key < 0 then
        let nxt = Next sl x level in
        if (case nxt of None \<Rightarrow> True | Some n \<Rightarrow> \<not> cmp (node_key (nodes sl ! n)) key < 0)
        then if level = 0 then Some x else FindLessThan_loop cmp sl key x (level - 1)
        else FindLessThan_loop cmp sl key (the nxt) level
      else None)"

declare FindLessThan_loop.simps [code]

definition FindLessThan :: "('k \<Rightarrow> 'k \<Rightarrow> int) \<Rightarrow> 'k skiplist \<Rightarrow> 'k \<Rightarrow> nat option" where
  "FindLessThan cmp sl key = FindLessThan_loop cmp sl key head (max_height sl - 1)"

partial_function (option) FindLast_loop :: "'k skiplist \<Rightarrow> nat \<Rightarrow> nat \<Rightarrow> nat option" where
  "FindLast_loop sl x level =
     (let nxt = Next sl x level in
      if nxt = None
      then if level = 0 then Some x else FindLast_loop sl x (level - 1)
      else FindLast_loop sl (the nxt) level)"

declare FindLast_loop.simps [code]

definition FindLast :: "'k skiplist \<Rightarrow> nat option" where
  "FindLast sl = FindLast_loop sl head (max_height sl - 1)"

definition Contains :: "('k \<Rightarrow> 'k \<Rightarrow> int) \<Rightarrow> 'k skiplist \<Rightarrow> 'k \<Rightarrow> bool option" where
  "Contains cmp sl key =
     (case FindGreaterOrEqual cmp sl key None of
        None \<Rightarrow> None
      | Some (Some x, _) \<Rightarrow> Some (Equal cmp key (node_key (nodes sl ! x)))
      | Some (None, _) \<Rightarrow> Some False)"

section \<open>Insertion\<close>

function RandomHeight_loop :: "nat \<Rightarrow> u32 \<Rightarrow> nat \<times> u32" where
  "RandomHeight_loop height seed =
     (if height < kMaxHeight then
        let (one_in, seed') = Random_OneIn kBranching seed in
        if one_in then RandomHeight_loop (height + 1) seed' else (height, seed')
      else (height, seed))"
  by pat_completeness auto
termination
  by (relation "measure (\<lambda>(height, seed). kMaxHeight - height)") auto

declare RandomHeight_loop.simps [simp del]

definition RandomHeight :: "u32 \<Rightarrow> nat \<times> u32" where
  "RandomHeight seed = RandomHeight_loop 1 seed"

fun link_levels :: "nat \<Rightarrow> nat option list \<Rightarrow> nat list \<Rightarrow> 'k skiplist \<Rightarrow> 'k skiplist option" where
  "link_levels x prev [] sl = Some sl"
| "link_levels x prev (i # is) sl =
     (case prev ! i of
        None \<Rightarrow> None
      | Some p \<Rightarrow> link_levels x prev is (SetNext p i (Some x) (SetNext x i (Next sl p i) sl)))"

definition SkipList_Insert ::
    "(region list \<Rightarrow> nat \<Rightarrow> nat) \<Rightarrow> ('k \<Rightarrow> 'k \<Rightarrow> int) \<Rightarrow> 'k \<Rightarrow> 'k skiplist \<Rightarrow> 'k skiplist option" where
  "SkipList_Insert new_char cmp key sl =
     (case FindGreaterOrEqual cmp sl key (Some (replicate kMaxHeight None)) of
        Some (x, Some prev) \<Rightarrow>
          if (case x of None \<Rightarrow> True | Some i \<Rightarrow> \<not> Equal cmp key (node_key (nodes sl ! i))) then
            let (height, seed) = RandomHeight (rnd sl);
                sl1 = sl\<lparr>rnd := seed\<rparr>;
                (prev1, sl2) =
                  (if max_height sl1 < height
                   then (fold (\<lambda>i p. p[i := Some head]) [max_height sl1..<height] prev,
                         sl1\<lparr>max_height := height\<rparr>)
                   else (prev, sl1));
                (x1, sl3) = NewNode new_char key height sl2
            in link_levels x1 prev1 [0..<height] sl3
          else None
      | _ \<Rightarrow> None)"

section \<open>The iterator\<close>

text \<open>
  An iterator over a list is its field \<^verbatim>\<open>node_\<close>.  The operations that assert \<^verbatim>\<open>Valid()\<close> are \<open>None\<close> on
  an invalid iterator.
\<close>

definition Iterator_Valid :: "nat option \<Rightarrow> bool" where
  "Iterator_Valid node \<longleftrightarrow> node \<noteq> None"

definition Iterator_key :: "'k skiplist \<Rightarrow> nat option \<Rightarrow> 'k option" where
  "Iterator_key sl node = map_option (\<lambda>i. node_key (nodes sl ! i)) node"

definition Iterator_Next :: "'k skiplist \<Rightarrow> nat option \<Rightarrow> nat option option" where
  "Iterator_Next sl node = map_option (\<lambda>i. Next sl i 0) node"

definition Iterator_Prev :: "('k \<Rightarrow> 'k \<Rightarrow> int) \<Rightarrow> 'k skiplist \<Rightarrow> nat option \<Rightarrow> nat option option" where
  "Iterator_Prev cmp sl node =
     (case node of
        None \<Rightarrow> None
      | Some i \<Rightarrow>
          map_option (\<lambda>x. if x = head then None else Some x)
            (FindLessThan cmp sl (node_key (nodes sl ! i))))"

definition Iterator_Seek :: "('k \<Rightarrow> 'k \<Rightarrow> int) \<Rightarrow> 'k skiplist \<Rightarrow> 'k \<Rightarrow> nat option option" where
  "Iterator_Seek cmp sl target = map_option fst (FindGreaterOrEqual cmp sl target None)"

definition Iterator_SeekToFirst :: "'k skiplist \<Rightarrow> nat option" where
  "Iterator_SeekToFirst sl = Next sl head 0"

definition Iterator_SeekToLast :: "'k skiplist \<Rightarrow> nat option option" where
  "Iterator_SeekToLast sl = map_option (\<lambda>x. if x = head then None else Some x) (FindLast sl)"

section \<open>Pointer chains\<close>

text \<open>
  \<open>seg f q xs r\<close>: following the successor function \<open>f\<close> from \<open>q\<close> visits \<open>xs\<close> and then holds \<open>r\<close>.
  \<open>lane sl l ord\<close> are the nodes of \<open>ord\<close> that are linked at level \<open>l\<close>.
\<close>

fun seg :: "(nat \<Rightarrow> nat option) \<Rightarrow> nat \<Rightarrow> nat list \<Rightarrow> nat option \<Rightarrow> bool" where
  "seg f q [] r \<longleftrightarrow> f q = r"
| "seg f q (x # xs) r \<longleftrightarrow> f q = Some x \<and> seg f x xs r"

definition opt_hd :: "'a list \<Rightarrow> 'a option" where
  "opt_hd xs = (case xs of [] \<Rightarrow> None | x # _ \<Rightarrow> Some x)"

lemma opt_hd_simps [simp]: "opt_hd [] = None" "opt_hd (x # xs) = Some x"
  by (simp_all add: opt_hd_def)

lemma opt_hd_in_set: "opt_hd xs = Some x \<Longrightarrow> x \<in> set xs"
  by (cases xs) auto

lemma seg_append: "seg f q (xs @ ys) r \<longleftrightarrow> seg f q xs (if ys = [] then r else opt_hd ys) \<and>
    (ys \<noteq> [] \<longrightarrow> seg f (hd ys) (tl ys) r)"
  by (induction xs arbitrary: q) (cases ys; auto)+

lemma seg_last: "seg f q xs r \<Longrightarrow> f (last (q # xs)) = r"
  by (induction xs arbitrary: q) auto

lemma seg_append_last: "seg f q (xs @ ys) None \<Longrightarrow> f (last (q # xs)) = opt_hd ys"
  by (cases ys) (auto simp: seg_append dest: seg_last)

lemma seg_cong: "(\<And>x. x \<in> set (q # xs) \<Longrightarrow> f x = g x) \<Longrightarrow> seg f q xs r = seg g q xs r"
  by (induction xs arbitrary: q) auto

lemma seg_insert:
  assumes "seg f q (xs @ ys) r" "distinct (q # xs @ ys)" "n \<notin> set (q # xs @ ys)"
    "p = last (q # xs)" "\<And>x. g x = (if x = n then f p else if x = p then Some n else f x)"
  shows "seg g q (xs @ n # ys) r"
  using assms
proof (induction xs arbitrary: q)
  case Nil
  have "seg g y zs r = seg f y zs r" if "ys = y # zs" for y zs
    using Nil that by (intro seg_cong) auto
  then have "seg g n ys r" using Nil(1-4) by (cases ys) (auto simp: Nil(5))
  moreover have "g q = Some n" using Nil(3,4) by (simp add: Nil(5))
  ultimately show ?case by simp
next
  case (Cons x xs)
  then have "last (x # xs) \<noteq> q" by (metis append_Cons distinct.simps(2) in_set_conv_decomp last_in_set append_is_Nil_conv Un_iff set_append list.distinct(1))
  with Cons show ?case by auto
qed

definition node_height :: "'k skiplist \<Rightarrow> nat \<Rightarrow> nat" where
  "node_height sl i = length (node_next (nodes sl ! i))"

abbreviation nkey :: "'k skiplist \<Rightarrow> nat \<Rightarrow> 'k" where
  "nkey sl i \<equiv> node_key (nodes sl ! i)"

definition lane :: "'k skiplist \<Rightarrow> nat \<Rightarrow> nat list \<Rightarrow> nat list" where
  "lane sl l xs = filter (\<lambda>i. l < node_height sl i) xs"

lemma lane_simps [simp]:
  "lane sl l [] = []"
  "lane sl l (xs @ ys) = lane sl l xs @ lane sl l ys"
  "lane sl l (x # xs) = (if l < node_height sl x then x # lane sl l xs else lane sl l xs)"
  by (simp_all add: lane_def)

lemma set_lane: "x \<in> set (lane sl l xs) \<longleftrightarrow> x \<in> set xs \<and> l < node_height sl x"
  by (auto simp: lane_def)

lemma opt_hd_lane: "opt_hd (lane sl l xs) = Some x \<Longrightarrow> x \<in> set xs"
  by (drule opt_hd_in_set) (simp add: set_lane)

definition linked :: "'k skiplist \<Rightarrow> nat list \<Rightarrow> bool" where
  "linked sl ord \<longleftrightarrow>
     nodes sl \<noteq> [] \<and> node_height sl head = kMaxHeight \<and>
     1 \<le> max_height sl \<and> max_height sl \<le> kMaxHeight \<and>
     distinct ord \<and> set ord = {1..<length (nodes sl)} \<and>
     (\<forall>i \<in> set ord. 1 \<le> node_height sl i \<and> node_height sl i \<le> max_height sl) \<and>
     (\<forall>l < kMaxHeight. seg (\<lambda>x. Next sl x l) head (lane sl l ord) None)"


lemma linked_height:
  assumes "linked sl ord" "i \<in> set ord"
  shows "0 < node_height sl i" "node_height sl i \<le> max_height sl" "i < length (nodes sl)" "0 < i"
proof -
  have "i \<in> {1..<length (nodes sl)}" "1 \<le> node_height sl i \<and> node_height sl i \<le> max_height sl"
    using assms unfolding linked_def by blast+
  then show "0 < node_height sl i" "node_height sl i \<le> max_height sl" "i < length (nodes sl)" "0 < i"
    by auto
qed

lemma linked_lane_0: "linked sl ord \<Longrightarrow> set A \<subseteq> set ord \<Longrightarrow> lane sl 0 A = A"
  using linked_height by (auto simp: lane_def filter_id_conv)

lemma seg_walk:
  assumes "seg f x (vs @ ws) r" "x \<in> P" "set vs \<subseteq> P" "Q (last (x # vs))"
    and "\<And>x v. \<lbrakk>x \<in> P; f x = Some v; v \<in> set vs; Q v\<rbrakk> \<Longrightarrow> Q x"
  shows "Q x"
  using assms by (induction vs arbitrary: x) auto

lemma linked_position:
  assumes "linked sl (A @ B)" "l < max_height sl" "x = head \<or> x \<in> set (lane sl l A)"
  obtains vs where "seg (\<lambda>x. Next sl x l) x (vs @ lane sl l B) None" "set vs \<subseteq> set (lane sl l A)"
    "last (x # vs) = last (head # lane sl l A)"
proof -
  from assms(3) obtain us vs where u: "head # lane sl l A = us @ x # vs"
    by (metis in_set_conv_decomp list.set_intros(1) list.set_intros(2))
  have s: "seg (\<lambda>x. Next sl x l) head (lane sl l A @ lane sl l B) None"
    using assms(1,2) by (auto simp: linked_def)
  show ?thesis
  proof (cases us)
    case Nil
    with u s show ?thesis by (intro that [of vs]) auto
  next
    case (Cons a us')
    with u have e: "lane sl l A = us' @ x # vs" by simp
    then have "seg (\<lambda>x. Next sl x l) x (vs @ lane sl l B) None"
      using s by (simp add: seg_append)
    with e show ?thesis by (intro that [of vs]) auto
  qed
qed

text \<open>The three searches walk the same way: right while the next node is in the front part \<open>A\<close> of the list,
  otherwise down.  This induction principle describes the walk once.\<close>

lemma search_induct [consumes 3, case_names right down bottom]:
  assumes lk: "linked sl (A @ B)" and "l < max_height sl" "x = head \<or> x \<in> set (lane sl l A)"
    and right: "\<And>l x v. \<lbrakk>x = head \<or> x \<in> set A; Next sl x l = Some v; v \<in> set A; Q l v\<rbrakk> \<Longrightarrow> Q l x"
    and down: "\<And>l x. \<lbrakk>x = head \<or> x \<in> set A; Suc l < max_height sl; x = last (head # lane sl (Suc l) A);
      Next sl x (Suc l) = opt_hd (lane sl (Suc l) B); Q l x\<rbrakk> \<Longrightarrow> Q (Suc l) x"
    and bottom: "\<And>x. \<lbrakk>x = head \<or> x \<in> set A; x = last (head # A); Next sl x 0 = opt_hd B\<rbrakk> \<Longrightarrow> Q 0 x"
  shows "Q l x"
  using assms(2,3)
proof (induction l arbitrary: x)
  case 0
  let ?z = "last (head # lane sl 0 A)"
  from linked_position [OF lk 0] obtain vs
    where vs: "seg (\<lambda>x. Next sl x 0) x (vs @ lane sl 0 B) None" "set vs \<subseteq> set (lane sl 0 A)"
      "last (x # vs) = ?z" .
  have full: "lane sl 0 A = A" "lane sl 0 B = B"
    using linked_lane_0 [OF lk] by auto
  have z: "?z = head \<or> ?z \<in> set A" by (simp add: full)
  have n: "Next sl ?z 0 = opt_hd B"
    using seg_append_last [OF vs(1)] vs(3) by (simp only: full)
  have "Q 0 ?z" using bottom [OF z _ n] full by simp
  then show ?case
    using vs 0 full by (intro seg_walk [OF vs(1), of "insert head (set A)" "Q 0"]) (auto intro: right)
next
  case (Suc l)
  let ?z = "last (head # lane sl (Suc l) A)"
  from linked_position [OF lk Suc.prems] obtain vs
    where vs: "seg (\<lambda>x. Next sl x (Suc l)) x (vs @ lane sl (Suc l) B) None"
      "set vs \<subseteq> set (lane sl (Suc l) A)" "last (x # vs) = ?z" .
  have z: "?z = head \<or> ?z \<in> set (lane sl (Suc l) A)" by simp
  then have z': "?z = head \<or> ?z \<in> set A" "?z = head \<or> ?z \<in> set (lane sl l A)"
    by (metis Suc_lessD set_lane)+
  have n: "Next sl ?z (Suc l) = opt_hd (lane sl (Suc l) B)"
    using seg_append_last [OF vs(1)] vs(3) by simp
  have vsA: "set vs \<subseteq> set A" using vs(2) by (auto simp: set_lane)
  have "Q (Suc l) ?z"
    using Suc.prems Suc.IH [OF _ z'(2)] z' n by (intro down) auto
  then show ?case
    using vs(3) vsA Suc.prems
    by (intro seg_walk [OF vs(1), of "insert head (set A)" "Q (Suc l)"]) (auto intro: right simp: set_lane)
qed


section \<open>What the searches return\<close>

definition note_prev :: "'k skiplist \<Rightarrow> nat list \<Rightarrow> nat \<Rightarrow> nat option list \<Rightarrow> nat option list" where
  "note_prev sl A l p = map (\<lambda>j. if j \<le> l then Some (last (head # lane sl j A)) else p ! j) [0..<length p]"

lemma FindGreaterOrEqual_loop_spec:
  assumes "linked sl (A @ B)" "l < max_height sl" "x = head \<or> x \<in> set (lane sl l A)"
    and "\<forall>a \<in> set A. cmp (nkey sl a) k < 0" "\<forall>b \<in> set B. \<not> cmp (nkey sl b) k < 0"
  shows "FindGreaterOrEqual_loop cmp sl k x l prev = Some (opt_hd B, map_option (note_prev sl A l) prev)"
  using assms(1-3)
proof (induction l x arbitrary: prev rule: search_induct)
  case (right l x v)
  then show ?case
    using assms(4) by (subst FindGreaterOrEqual_loop.simps) (simp add: KeyIsAfterNode_def)
next
  case (down l x)
  have "\<not> KeyIsAfterNode cmp sl k (opt_hd (lane sl (Suc l) B))"
    using assms(5) by (auto simp: KeyIsAfterNode_def opt_hd_def set_lane split: list.splits option.splits)
      (metis list.set_intros(1) set_lane)
  moreover have "note_prev sl A l (p[Suc l := Some x]) = note_prev sl A (Suc l) p" for p
    using down(3) by (auto simp: note_prev_def nth_list_update le_Suc_eq intro!: map_cong)
  ultimately show ?case
    using down by (subst FindGreaterOrEqual_loop.simps)
      (simp add: Let_def option.map_comp comp_def)
next
  case (bottom x)
  have "\<not> KeyIsAfterNode cmp sl k (opt_hd B)"
    using assms(5) by (auto simp: KeyIsAfterNode_def opt_hd_def split: list.splits option.splits)
  moreover have "lane sl 0 A = A" using assms(1) by (rule linked_lane_0) simp
  then have "p[0 := Some x] = note_prev sl A 0 p" for p
    using bottom(2) by (intro nth_equalityI) (auto simp: note_prev_def nth_list_update)
  ultimately show ?case
    using bottom by (subst FindGreaterOrEqual_loop.simps) (simp add: Let_def)
qed


lemma FindLessThan_loop_spec:
  assumes "linked sl (A @ B)" "l < max_height sl" "x = head \<or> x \<in> set (lane sl l A)"
    and "\<forall>a \<in> set A. cmp (nkey sl a) k < 0" "\<forall>b \<in> set B. \<not> cmp (nkey sl b) k < 0"
  shows "FindLessThan_loop cmp sl k x l = Some (last (head # A))"
  using assms(1-3)
proof (induction l x rule: search_induct)
  case (right l x v)
  then show ?case
    using assms(4) by (subst FindLessThan_loop.simps) auto
next
  case (down l x)
  have "case Next sl x (Suc l) of None \<Rightarrow> True | Some n \<Rightarrow> \<not> cmp (nkey sl n) k < 0"
    using assms(5) unfolding down(4) by (auto dest: opt_hd_lane split: option.splits)
  then show ?case
    using assms(4) down by (subst FindLessThan_loop.simps) (auto simp: Let_def)
next
  case (bottom x)
  have "case Next sl x 0 of None \<Rightarrow> True | Some n \<Rightarrow> \<not> cmp (nkey sl n) k < 0"
    using assms(5) unfolding bottom(3) by (auto dest: opt_hd_in_set split: option.splits)
  then show ?case
    using assms(4) bottom(1,2) by (subst FindLessThan_loop.simps) (auto simp: Let_def)
qed

lemma FindLast_loop_spec:
  assumes "linked sl (A @ [])" "l < max_height sl" "x = head \<or> x \<in> set (lane sl l A)"
  shows "FindLast_loop sl x l = Some (last (head # A))"
  using assms by (induction l x rule: search_induct) (subst FindLast_loop.simps, simp)+

lemma FindGreaterOrEqual_spec:
  assumes "linked sl (A @ B)" "\<forall>a \<in> set A. cmp (nkey sl a) k < 0" "\<forall>b \<in> set B. \<not> cmp (nkey sl b) k < 0"
  shows "FindGreaterOrEqual cmp sl k prev =
    Some (opt_hd B, map_option (note_prev sl A (max_height sl - 1)) prev)"
    and "FindLessThan cmp sl k = Some (last (head # A))"
proof -
  have "max_height sl - 1 < max_height sl" using assms(1) by (auto simp: linked_def)
  with assms show "FindGreaterOrEqual cmp sl k prev =
      Some (opt_hd B, map_option (note_prev sl A (max_height sl - 1)) prev)"
    "FindLessThan cmp sl k = Some (last (head # A))"
    by (auto simp: FindGreaterOrEqual_def FindLessThan_def FindGreaterOrEqual_loop_spec
        FindLessThan_loop_spec simp del: One_nat_def)
qed

lemma FindLast_spec: "linked sl ord \<Longrightarrow> FindLast sl = Some (last (head # ord))"
  unfolding FindLast_def by (rule FindLast_loop_spec) (auto simp: linked_def)

section \<open>Linking a node in\<close>

lemma nth_SetNext:
  "nodes (SetNext x n p sl) ! y =
     (if x = y \<and> x < length (nodes sl)
      then (nodes sl ! x)\<lparr>node_next := (node_next (nodes sl ! x))[n := p]\<rparr> else nodes sl ! y)"
  by (cases "x < length (nodes sl)") (simp_all add: SetNext_def nth_list_update not_less list_update_beyond)

lemma SetNext_simps [simp]:
  "length (nodes (SetNext x n p sl)) = length (nodes sl)"
  "max_height (SetNext x n p sl) = max_height sl"
  "rnd (SetNext x n p sl) = rnd sl"
  "sl_arena (SetNext x n p sl) = sl_arena sl"
  "nkey (SetNext x n p sl) y = nkey sl y"
  "node_height (SetNext x n p sl) y = node_height sl y"
  by (simp_all add: nth_SetNext node_height_def) (simp_all add: SetNext_def)

lemma Next_SetNext:
  "x < length (nodes sl) \<Longrightarrow> n < node_height sl x \<Longrightarrow>
   Next (SetNext x n p sl) y m = (if x = y \<and> n = m then p else Next sl y m)"
  by (auto simp: nth_SetNext Next_def node_height_def)

definition same_frame :: "'k skiplist \<Rightarrow> 'k skiplist \<Rightarrow> bool" where
  "same_frame sl sl' \<longleftrightarrow> length (nodes sl') = length (nodes sl) \<and> max_height sl' = max_height sl \<and>
     rnd sl' = rnd sl \<and> sl_arena sl' = sl_arena sl \<and>
     (\<forall>y. nkey sl' y = nkey sl y \<and> node_height sl' y = node_height sl y)"

lemma link_levels_spec:
  assumes "distinct is" "x < length (nodes sl)" "\<forall>i \<in> set is. i < node_height sl x"
    "\<forall>i \<in> set is. prev ! i = Some (q i) \<and> q i \<noteq> x \<and> q i < length (nodes sl) \<and> i < node_height sl (q i)"
  shows "\<exists>sl'. link_levels x prev is sl = Some sl' \<and> same_frame sl sl' \<and>
    (\<forall>y i. Next sl' y i =
       (if i \<in> set is then if y = x then Next sl (q i) i else if y = q i then Some x else Next sl y i
        else Next sl y i))"
  using assms
proof (induction "is" arbitrary: sl)
  case Nil
  then show ?case by (simp add: same_frame_def)
next
  case (Cons i js)
  let ?s = "SetNext (q i) i (Some x) (SetNext x i (Next sl (q i) i) sl)"
  have "\<exists>sl'. link_levels x prev js ?s = Some sl' \<and> same_frame ?s sl' \<and>
    (\<forall>y j. Next sl' y j =
       (if j \<in> set js then if y = x then Next ?s (q j) j else if y = q j then Some x else Next ?s y j
        else Next ?s y j))"
    using Cons.prems by (intro Cons.IH) auto
  then obtain sl' where sl': "link_levels x prev js ?s = Some sl'" "same_frame ?s sl'"
    "\<And>y j. Next sl' y j =
       (if j \<in> set js then if y = x then Next ?s (q j) j else if y = q j then Some x else Next ?s y j
        else Next ?s y j)" by blast
  have "Next ?s y j = (if j = i then if y = x then Next sl (q i) i else if y = q i then Some x else Next sl y i
        else Next sl y j)" for y j
    using Cons.prems by (auto simp: Next_SetNext)
  with sl' Cons.prems show ?case
    by (auto simp: same_frame_def)
qed


lemma RandomHeight_loop_bounds:
  "h \<le> kMaxHeight \<Longrightarrow> h \<le> fst (RandomHeight_loop h seed) \<and> fst (RandomHeight_loop h seed) \<le> kMaxHeight"
proof (induction h seed rule: RandomHeight_loop.induct)
  case (1 h seed)
  then show ?case
    by (subst (1 2) RandomHeight_loop.simps) (fastforce split: prod.splits)
qed

lemma RandomHeight_bounds: "1 \<le> fst (RandomHeight seed) \<and> fst (RandomHeight seed) \<le> kMaxHeight"
  unfolding RandomHeight_def using RandomHeight_loop_bounds [of 1 seed] by (simp add: kMaxHeight_def)

lemma fold_head_nth:
  "j < length p \<Longrightarrow>
   fold (\<lambda>i p. p[i := Some head]) is p ! j = (if j \<in> set is then Some head else p ! j)"
  by (induction "is" arbitrary: p) (auto simp: nth_list_update)

lemma linked_insert:
  assumes "linked sl (A @ B)" "1 \<le> h" "h \<le> kMaxHeight" "n = length (nodes sl)"
    and "length (nodes sl') = Suc n" "max_height sl' = max h (max_height sl)" "node_height sl' n = h"
    and "\<And>y. y < n \<Longrightarrow> node_height sl' y = node_height sl y"
    and nx: "\<And>y i. y \<le> n \<Longrightarrow> Next sl' y i =
       (if i < h then if y = n then Next sl (last (head # lane sl i A)) i
          else if y = last (head # lane sl i A) then Some n else Next sl y i
        else if y = n then Next sl' y i else Next sl y i)"
  shows "linked sl' (A @ n # B)"
proof -
  have in_n: "y < n" if "y \<in> set (A @ B)" for y using linked_height [OF assms(1) that] assms(4) by simp
  have n0: "0 < n" using assms(1,4) by (auto simp: linked_def)
  have setAB: "set (A @ B) = {1..<n}" using assms(1,4) by (simp add: linked_def)
  have lim: "node_height sl head = kMaxHeight" "1 \<le> max_height sl" "max_height sl \<le> kMaxHeight"
    using assms(1) by (simp_all add: linked_def)
  have dist: "distinct (A @ B)" using assms(1) by (simp add: linked_def)
  have head_new: "head \<notin> set (A @ B)" using linked_height(4) [OF assms(1)] by blast
  have lane_eq: "lane sl' l xs = lane sl l xs" if "set xs \<subseteq> set (A @ B)" for l xs
    using that in_n assms(8) unfolding lane_def by (intro filter_cong) auto
  have "seg (\<lambda>x. Next sl' x l) head (lane sl' l (A @ n # B)) None" if l: "l < kMaxHeight" for l
  proof -
    let ?f = "\<lambda>y. Next sl y l" and ?p = "last (head # lane sl l A)"
    have s: "seg ?f head (lane sl l A @ lane sl l B) None" using assms(1) l by (auto simp: linked_def)
    have d: "distinct (head # lane sl l A @ lane sl l B)"
      using dist head_new by (auto simp: lane_def)
    have ins: "set (head # lane sl l A @ lane sl l B) \<subseteq> {..<n}"
      using in_n n0 by (auto simp: set_lane)
    show ?thesis
    proof (cases "l < h")
      case True
      let ?g = "\<lambda>y. if y = n then ?f ?p else if y = ?p then Some n else ?f y"
      have "seg ?g head (lane sl l A @ n # lane sl l B) None"
        using ins by (intro seg_insert [OF s d _ refl refl]) auto
      also have "seg ?g head (lane sl l A @ n # lane sl l B) None =
          seg (\<lambda>x. Next sl' x l) head (lane sl l A @ n # lane sl l B) None"
      proof (rule seg_cong)
        fix x assume "x \<in> set (head # lane sl l A @ n # lane sl l B)"
        then have "x \<le> n" using ins by (simp only: set_simps set_append) fastforce
        from nx [OF this, of l] True show "?g x = Next sl' x l" by simp
      qed
      finally show ?thesis using True assms(7) by (simp add: lane_eq)
    next
      case False
      have "seg ?f head (lane sl l A @ lane sl l B) None =
          seg (\<lambda>x. Next sl' x l) head (lane sl l A @ lane sl l B) None"
      proof (rule seg_cong)
        fix x assume "x \<in> set (head # lane sl l A @ lane sl l B)"
        then have "x < n" using ins by blast
        with nx [of x l] False show "?f x = Next sl' x l" by simp
      qed
      with s False assms(7) show ?thesis by (simp add: lane_eq)
    qed
  qed
  moreover have "set (A @ n # B) = {1..<length (nodes sl')}"
  proof -
    have "set (A @ n # B) = insert n (set (A @ B))" by simp
    then show ?thesis using setAB assms(5) n0 by (simp add: atLeastLessThanSuc)
  qed
  moreover have "distinct (A @ n # B)" using dist in_n [of n] by auto
  moreover have "1 \<le> node_height sl' i \<and> node_height sl' i \<le> max_height sl'" if "i \<in> set (A @ n # B)" for i
  proof (cases "i = n")
    case True
    then show ?thesis using assms(2,6,7) by simp
  next
    case False
    then have "i \<in> set (A @ B)" using that by simp
    then show ?thesis using linked_height(1,2) [OF assms(1)] assms(6) assms(8) [OF in_n] by fastforce
  qed
  moreover have "nodes sl' \<noteq> []" using assms(5) by auto
  moreover have "node_height sl' head = kMaxHeight" "1 \<le> max_height sl'" "max_height sl' \<le> kMaxHeight"
    using lim assms(3,6) assms(8) [OF n0] by auto
  ultimately show ?thesis unfolding linked_def by blast
qed


lemma NewNode_facts:
  assumes "NewNode nc k h sl = (n, sl')"
  shows "n = length (nodes sl)" "length (nodes sl') = Suc n" "max_height sl' = max_height sl"
    "node_height sl' n = h" "nkey sl' n = k"
    "\<And>y. y < n \<Longrightarrow> nkey sl' y = nkey sl y \<and> node_height sl' y = node_height sl y"
    "\<And>y i. y < n \<Longrightarrow> Next sl' y i = Next sl y i"
  using assms by (auto simp: NewNode_def node_height_def Next_def nth_append split: prod.splits)

text \<open>An insertion succeeds if the first node not below the key is not equal to it, and puts the new node between
  those below the key and the rest.\<close>

lemma Insert_linked:
  assumes lk: "linked sl (A @ B)"
    and A: "\<forall>a \<in> set A. cmp (nkey sl a) k < 0" and B: "\<forall>b \<in> set B. \<not> cmp (nkey sl b) k < 0"
    and fresh: "\<forall>b. opt_hd B = Some b \<longrightarrow> cmp k (nkey sl b) \<noteq> 0"
    and n: "n = length (nodes sl)"
  obtains sl' where "SkipList_Insert nc cmp k sl = Some sl'" "linked sl' (A @ n # B)"
    "nkey sl' n = k" "\<And>y. y < n \<Longrightarrow> nkey sl' y = nkey sl y"
proof -
  obtain h seed where h: "RandomHeight (rnd sl) = (h, seed)" by fastforce
  then have hb: "1 \<le> h" "h \<le> kMaxHeight" using RandomHeight_bounds [of "rnd sl"] by auto
  define M where "M = max_height sl"
  have M: "1 \<le> M" "M \<le> kMaxHeight" using lk by (auto simp: linked_def M_def)
  define prev where "prev = note_prev sl A (M - 1) (replicate kMaxHeight None)"
  have find: "FindGreaterOrEqual cmp sl k (Some (replicate kMaxHeight None)) = Some (opt_hd B, Some prev)"
    using FindGreaterOrEqual_spec(1) [where cmp = cmp, OF lk A B] by (simp add: prev_def M_def)
  define prev1 where "prev1 = (if M < h then fold (\<lambda>i p. p[i := Some head]) [M..<h] prev else prev)"
  define q where "q = (\<lambda>i. last (head # lane sl i A))"
  have q_i: "last (head # lane sl i A) = q i" for i by (simp add: q_def)
  have prev1: "prev1 ! i = Some (q i)" if "i < h" for i
  proof -
    have "lane sl i A = []" if "M \<le> i"
      using that linked_height(2) [OF lk] by (fastforce simp: lane_def filter_empty_conv M_def)
    moreover have "i < kMaxHeight" using that hb by simp
    ultimately show ?thesis
      using M hb that by (auto simp: prev1_def prev_def note_prev_def q_def fold_head_nth)
  qed
  define sl2 where "sl2 = (if M < h then sl\<lparr>rnd := seed, max_height := h\<rparr> else sl\<lparr>rnd := seed\<rparr>)"
  have sl2: "nodes sl2 = nodes sl" "max_height sl2 = max h M" by (auto simp: sl2_def M_def)
  obtain n' sl3 where new: "NewNode nc k h sl2 = (n', sl3)" by fastforce
  note nf = NewNode_facts [OF new, unfolded sl2 node_height_def [of sl2] Next_def [of sl2]]
  have n': "n' = n" using nf(1) n by simp
  have q: "q i \<noteq> n \<and> q i < n \<and> i < node_height sl (q i)" if "i < h" for i
  proof -
    have "q i = head \<or> q i \<in> set (lane sl i A)" by (auto simp: q_def)
    then show ?thesis
      using lk linked_height(3) [OF lk, of "q i"] that hb n by (auto simp: set_lane linked_def)
  qed
  have "\<exists>sl'. link_levels n prev1 [0..<h] sl3 = Some sl' \<and> same_frame sl3 sl' \<and>
    (\<forall>y i. Next sl' y i =
       (if i \<in> set [0..<h] then if y = n then Next sl3 (q i) i else if y = q i then Some n else Next sl3 y i
        else Next sl3 y i))"
    using prev1 q nf by (intro link_levels_spec) (auto simp: n' node_height_def less_Suc_eq)
  then obtain sl' where sl': "link_levels n prev1 [0..<h] sl3 = Some sl'" "same_frame sl3 sl'"
    "\<And>y i. Next sl' y i =
       (if i < h then if y = n then Next sl3 (q i) i else if y = q i then Some n else Next sl3 y i
        else Next sl3 y i)" by auto
  have ins: "SkipList_Insert nc cmp k sl = Some sl'"
    using fresh h sl'(1) new unfolding SkipList_Insert_def find
    by (auto simp: Equal_def prev1_def sl2_def M_def n' split: option.splits if_splits)
  have "linked sl' (A @ n # B)"
    using lk hb n
  proof (rule linked_insert)
    show "Next sl' y i =
       (if i < h then if y = n then Next sl (last (head # lane sl i A)) i
          else if y = last (head # lane sl i A) then Some n else Next sl y i
        else if y = n then Next sl' y i else Next sl y i)" if "y \<le> n" for y i
      unfolding q_i using that q [of i] nf(7) by (auto simp: sl'(3) n' simp flip: Next_def)
  qed (use sl'(2) nf in \<open>auto simp: same_frame_def n' M_def node_height_def\<close>)
  then show ?thesis
    using that ins sl'(2) nf by (auto simp: same_frame_def n')
qed

section \<open>The list as an ordered index\<close>

text \<open>What the list holds: the nodes on the chain of level 0, and their keys.\<close>

fun walk :: "(nat \<Rightarrow> nat option) \<Rightarrow> nat \<Rightarrow> nat \<Rightarrow> nat list" where
  "walk f 0 q = []"
| "walk f (Suc m) q = (case f q of None \<Rightarrow> [] | Some x \<Rightarrow> x # walk f m x)"

definition sl_nodes :: "'k skiplist \<Rightarrow> nat list" where
  "sl_nodes sl = walk (\<lambda>x. Next sl x 0) (length (nodes sl)) head"

definition sl_items :: "'k skiplist \<Rightarrow> 'k list" where
  "sl_items sl = map (nkey sl) (sl_nodes sl)"

definition sl_inv :: "('k \<Rightarrow> 'k \<Rightarrow> int) \<Rightarrow> 'k skiplist \<Rightarrow> bool" where
  "sl_inv cmp sl \<longleftrightarrow> linked sl (sl_nodes sl) \<and> sorted_wrt (\<lambda>a b. \<not> cmp b a < 0) (sl_items sl)"

definition insert_sorted :: "('k \<Rightarrow> 'k \<Rightarrow> int) \<Rightarrow> 'k \<Rightarrow> 'k list \<Rightarrow> 'k list" where
  "insert_sorted cmp k xs = takeWhile (\<lambda>x. cmp x k < 0) xs @ k # dropWhile (\<lambda>x. cmp x k < 0) xs"

definition sl_seek :: "('k \<Rightarrow> 'k \<Rightarrow> int) \<Rightarrow> 'k skiplist \<Rightarrow> 'k \<Rightarrow> 'k option option" where
  "sl_seek cmp sl k = map_option (Iterator_key sl) (Iterator_Seek cmp sl k)"

lemma find_opt_hd: "find P xs = opt_hd (dropWhile (\<lambda>x. \<not> P x) xs)"
  by (induction xs) auto

lemma opt_hd_map: "opt_hd (map f xs) = map_option f (opt_hd xs)"
  by (cases xs) auto

lemma walk_seg: "seg f q xs None \<Longrightarrow> length xs \<le> m \<Longrightarrow> walk f m q = xs"
proof (induction xs arbitrary: q m)
  case Nil
  then show ?case by (cases m) auto
next
  case (Cons x xs)
  then show ?case by (cases m) auto
qed

lemma sl_nodes_linked:
  assumes "linked sl ord"
  shows "sl_nodes sl = ord"
proof -
  have "distinct ord" using assms by (simp add: linked_def)
  then have "length ord = card (set ord)" by (simp add: distinct_card)
  also have "\<dots> \<le> length (nodes sl)" using assms by (simp add: linked_def)
  finally have "length ord \<le> length (nodes sl)" .
  moreover have "seg (\<lambda>x. Next sl x 0) head (lane sl 0 ord) None"
    using assms by (simp add: linked_def kMaxHeight_def)
  ultimately show ?thesis
    using linked_lane_0 [OF assms order_refl] by (simp add: sl_nodes_def walk_seg)
qed

lemma SkipList_init_linked:
  "linked (SkipList_init nc z A) []" "length (nodes (SkipList_init nc z A)) = 1"
proof -
  let ?s = "SkipList_init nc z A"
  obtain h s0 where n: "NewNode nc z kMaxHeight
      \<lparr>nodes = [], max_height = 1, rnd = Random_init 0xdeadbeef, sl_arena = A\<rparr> = (h, s0)" by fastforce
  note f = NewNode_facts [OF n, simplified]
  have h: "h = 0" using f(1) by simp
  have fold: "length (nodes (fold (\<lambda>i. SetNext h i None) is s)) = length (nodes s) \<and>
     max_height (fold (\<lambda>i. SetNext h i None) is s) = max_height s \<and>
     node_height (fold (\<lambda>i. SetNext h i None) is s) y = node_height s y \<and>
     (\<forall>l. Next s h l = None \<longrightarrow> Next (fold (\<lambda>i. SetNext h i None) is s) h l = None)"
    if "h < length (nodes s)" "\<forall>i \<in> set is. i < node_height s h" for "is" and s :: "'a skiplist" and y
    using that by (induction "is" arbitrary: s) (simp_all add: Next_SetNext)
  have s: "?s = fold (\<lambda>i. SetNext h i None) [0..<kMaxHeight] s0"
    unfolding SkipList_init_def n by simp
  have None0: "Next s0 h l = None" if "l < kMaxHeight" for l
    using n that by (auto simp: NewNode_def Next_def split: prod.splits)
  show "linked ?s []"
    using fold [of s0 "[0..<kMaxHeight]"] f None0
    by (auto simp: linked_def s h kMaxHeight_def)
  show "length (nodes ?s) = 1"
    using fold [of s0 "[0..<kMaxHeight]"] f by (simp add: s h)
qed

lemma sl_arena_irrelevant [simp]:
  "sl_items (sl\<lparr>sl_arena := A\<rparr>) = sl_items sl" "sl_inv cmp (sl\<lparr>sl_arena := A\<rparr>) = sl_inv cmp sl"
  by (simp_all add: sl_inv_def sl_items_def sl_nodes_def linked_def lane_def Next_def node_height_def)

lemma sl_inv_init: "sl_inv cmp (SkipList_init nc z A)"
  by (simp add: sl_inv_def sl_items_def sl_nodes_linked [OF SkipList_init_linked(1)] SkipList_init_linked(1))


lemma sl_items_init: "sl_items (SkipList_init nc z A) = []"
  by (simp add: sl_items_def sl_nodes_linked [OF SkipList_init_linked(1)])

text \<open>
  The contract of an ordered index, as its clients use it: \<open>ins\<close> adds a key at its place unless the first item
  not below it is equal to it; \<open>seek\<close> finds the first item not below a key.
\<close>

fun insert_all :: "('k \<Rightarrow> 's \<Rightarrow> 's option) \<Rightarrow> 'k list \<Rightarrow> 's \<Rightarrow> 's option" where
  "insert_all ins [] s = Some s"
| "insert_all ins (k # ks) s = (case ins k s of None \<Rightarrow> None | Some s' \<Rightarrow> insert_all ins ks s')"

locale ordered_index = ordering cmp
  for cmp :: "'k \<Rightarrow> 'k \<Rightarrow> int" +
  fixes inv :: "'s \<Rightarrow> bool" and items :: "'s \<Rightarrow> 'k list"
    and ins :: "'k \<Rightarrow> 's \<Rightarrow> 's option" and seek :: "'s \<Rightarrow> 'k \<Rightarrow> 'k option option"
  assumes index_sorted: "inv s \<Longrightarrow> sorted_wrt (\<lambda>a b. \<not> cmp b a < 0) (items s)"
    and index_insert: "inv s \<Longrightarrow> (\<And>y. y \<in> set (items s) \<Longrightarrow> cmp k y \<noteq> 0) \<Longrightarrow>
      \<exists>s'. ins k s = Some s' \<and> inv s' \<and> items s' = insert_sorted cmp k (items s)"
    and index_seek: "inv s \<Longrightarrow> seek s k = Some (find (\<lambda>x. \<not> cmp x k < 0) (items s))"
begin

lemma mset_insert_sorted: "mset (insert_sorted cmp k xs) = add_mset k (mset xs)"
  by (simp add: insert_sorted_def)
    (metis mset_append takeWhile_dropWhile_id)

lemma set_insert_sorted: "set (insert_sorted cmp k xs) = insert k (set xs)"
  by (metis mset_insert_sorted set_mset_add_mset_insert set_mset_mset)

text \<open>A run of insertions of pairwise unequal keys succeeds and adds exactly those keys.\<close>

lemma insert_all_items:
  assumes "inv s" "\<And>k y. k \<in> set ks \<Longrightarrow> y \<in> set (items s) \<Longrightarrow> cmp k y \<noteq> 0"
    and "sorted_wrt (\<lambda>a b. cmp b a \<noteq> 0) ks"
  shows "\<exists>s'. insert_all ins ks s = Some s' \<and> inv s' \<and> mset (items s') = mset (items s) + mset ks"
  using assms
proof (induction ks arbitrary: s)
  case (Cons k ks)
  then obtain s1 where s1: "ins k s = Some s1" "inv s1" "items s1 = insert_sorted cmp k (items s)"
    using index_insert [of s k] by auto
  have "\<exists>s'. insert_all ins ks s1 = Some s' \<and> inv s' \<and> mset (items s') = mset (items s1) + mset ks"
    using Cons.prems s1 by (intro Cons.IH) (auto simp: set_insert_sorted)
  with s1 show ?case by (auto simp: mset_insert_sorted)
qed auto

text \<open>What \<open>seek\<close> finds is the least item that is not below the key.\<close>

lemma seek_first:
  assumes "inv s"
  shows "seek s k = Some None \<and> (\<forall>y \<in> set (items s). cmp y k < 0) \<or>
    (\<exists>x \<in> set (items s). seek s k = Some (Some x) \<and> \<not> cmp x k < 0 \<and>
      (\<forall>y \<in> set (items s). \<not> cmp y k < 0 \<longrightarrow> y = x \<or> \<not> cmp y x < 0))"
proof (cases "filter (\<lambda>x. \<not> cmp x k < 0) (items s)")
  case Nil
  then have none: "\<forall>y \<in> set (items s). cmp y k < 0" by (simp add: filter_empty_conv)
  then have "find (\<lambda>x. \<not> cmp x k < 0) (items s) = None" by (auto simp: find_None_iff)
  with none show ?thesis using index_seek [OF assms] by simp
next
  case (Cons x zs)
  have "sorted_wrt (\<lambda>a b. \<not> cmp b a < 0) (x # zs)"
    using sorted_wrt_filter [OF index_sorted [OF assms]] Cons by metis
  moreover have "x \<in> set (items s) \<and> \<not> cmp x k < 0"
    using filter_eq_ConsD [OF Cons] by auto
  moreover have "find (\<lambda>x. \<not> cmp x k < 0) (items s) = Some x"
    using sorted_takeWhile(2) [OF index_sorted [OF assms], of k] Cons by (simp add: find_opt_hd)
  moreover have "y \<in> set (x # zs)" if "y \<in> set (items s)" "\<not> cmp y k < 0" for y
    using that unfolding Cons [symmetric] by simp
  ultimately show ?thesis using index_seek [OF assms] by fastforce
qed

end

text \<open>With a comparator that meets its documented contract the items are a set, strictly ordered.\<close>

locale ordered_set = ordered_index cmp inv items ins seek + three_way cmp
  for cmp :: "'k \<Rightarrow> 'k \<Rightarrow> int" and inv :: "'s \<Rightarrow> bool" and items :: "'s \<Rightarrow> 'k list"
    and ins :: "'k \<Rightarrow> 's \<Rightarrow> 's option" and seek :: "'s \<Rightarrow> 'k \<Rightarrow> 'k option option"
begin

text \<open>The first item not below the key is the only one that can be equal to it.\<close>

lemma seek_member:
  assumes "inv s"
  shows "(\<exists>y \<in> set (items s). cmp k y = 0) \<longleftrightarrow> (\<exists>y. seek s k = Some (Some y) \<and> cmp k y = 0)"
proof
  assume "\<exists>y \<in> set (items s). cmp k y = 0"
  then obtain y where y: "y \<in> set (items s)" "cmp k y = 0" by blast
  then obtain x where x: "find (\<lambda>x. \<not> cmp x k < 0) (items s) = Some x"
    using cmp_0_iff by (cases "find (\<lambda>x. \<not> cmp x k < 0) (items s)") (auto simp: find_None_iff)
  then have "\<not> cmp x k < 0" by (auto simp: find_Some_iff)
  moreover have "\<not> cmp k x < 0"
  proof -
    from x obtain zs where "filter (\<lambda>x. \<not> cmp x k < 0) (items s) = x # zs"
      using sorted_takeWhile(2) [OF index_sorted [OF assms], of k]
      by (auto simp: find_opt_hd opt_hd_def split: list.splits)
    moreover have "y \<in> set (filter (\<lambda>x. \<not> cmp x k < 0) (items s))"
      using y cmp_0_iff by auto
    moreover have "sorted_wrt (\<lambda>a b. \<not> cmp b a < 0) (filter (\<lambda>x. \<not> cmp x k < 0) (items s))"
      using index_sorted [OF assms] by (rule sorted_wrt_filter)
    ultimately have "x = y \<or> \<not> cmp y x < 0" by auto
    then show ?thesis using y cmp_0_iff cmp_neg_trans by blast
  qed
  ultimately show "\<exists>y. seek s k = Some (Some y) \<and> cmp k y = 0"
    using x index_seek [OF assms] cmp_0_iff by auto
next
  assume "\<exists>y. seek s k = Some (Some y) \<and> cmp k y = 0"
  then show "\<exists>y \<in> set (items s). cmp k y = 0"
    using index_seek [OF assms] by (auto simp: find_Some_iff)
qed

lemma insert_sorted_strict:
  assumes "sorted_wrt (\<lambda>a b. cmp a b < 0) xs" "\<And>y. y \<in> set xs \<Longrightarrow> cmp k y \<noteq> 0"
  shows "sorted_wrt (\<lambda>a b. cmp a b < 0) (insert_sorted cmp k xs)"
proof -
  have weak: "sorted_wrt (\<lambda>a b. \<not> cmp b a < 0) xs"
    using assms(1) by (rule sorted_wrt_mono_rel [rotated]) (blast dest: cmp_asym)
  have "cmp k y < 0" if "y \<in> set xs" "\<not> cmp y k < 0" for y
    using assms(2) that cmp_0_iff by blast
  moreover have "cmp a b < 0" if "cmp a k < 0" "\<not> cmp b k < 0" for a b
    using that less_le_trans by blast
  ultimately show ?thesis
    unfolding insert_sorted_def sorted_takeWhile [OF weak]
    using assms(1) by (auto simp: sorted_wrt_append sorted_wrt_filter)
qed

lemma insert_all_strict:
  assumes "inv s" "sorted_wrt (\<lambda>a b. cmp a b < 0) (items s)"
    and "\<And>k y. k \<in> set ks \<Longrightarrow> y \<in> set (items s) \<Longrightarrow> cmp k y \<noteq> 0"
    and "sorted_wrt (\<lambda>a b. cmp b a \<noteq> 0) ks" "insert_all ins ks s = Some s'"
  shows "sorted_wrt (\<lambda>a b. cmp a b < 0) (items s')"
  using assms
proof (induction ks arbitrary: s)
  case (Cons k ks)
  then obtain s1 where s1: "ins k s = Some s1" "inv s1" "items s1 = insert_sorted cmp k (items s)"
    using index_insert [of s k] by auto
  then show ?case
    using Cons.prems by (intro Cons.IH [of s1]) (auto simp: set_insert_sorted intro: insert_sorted_strict)
qed auto

end

context ordering
begin

text \<open>The split of a list at a key.\<close>

lemma sl_split:
  assumes "sl_inv cmp sl"
  obtains A B where "sl_nodes sl = A @ B" "linked sl (A @ B)"
    "\<forall>a \<in> set A. cmp (nkey sl a) k < 0" "\<forall>b \<in> set B. \<not> cmp (nkey sl b) k < 0"
    "map (nkey sl) A = takeWhile (\<lambda>x. cmp x k < 0) (sl_items sl)"
    "map (nkey sl) B = dropWhile (\<lambda>x. cmp x k < 0) (sl_items sl)"
proof -
  let ?A = "takeWhile (\<lambda>i. cmp (nkey sl i) k < 0) (sl_nodes sl)"
  let ?B = "dropWhile (\<lambda>i. cmp (nkey sl i) k < 0) (sl_nodes sl)"
  have m: "map (nkey sl) ?A = takeWhile (\<lambda>x. cmp x k < 0) (sl_items sl)"
    "map (nkey sl) ?B = dropWhile (\<lambda>x. cmp x k < 0) (sl_items sl)"
    by (simp_all add: sl_items_def takeWhile_map dropWhile_map comp_def)
  have "set (map (nkey sl) ?B) \<subseteq> {x. \<not> cmp x k < 0}"
    unfolding m using assms by (subst sorted_takeWhile(2)) (auto simp: sl_inv_def)
  then have B: "\<forall>b \<in> set ?B. \<not> cmp (nkey sl b) k < 0" by force
  have A: "\<forall>a \<in> set ?A. cmp (nkey sl a) k < 0" using set_takeWhileD by fast
  have "sl_nodes sl = ?A @ ?B" "linked sl (?A @ ?B)" using assms by (simp_all add: sl_inv_def)
  then show ?thesis using A B m by (rule that)
qed


lemma Insert_items:
  assumes "sl_inv cmp sl" and fresh: "\<And>y. y \<in> set (sl_items sl) \<Longrightarrow> cmp k y \<noteq> 0"
  shows "\<exists>sl'. SkipList_Insert nc cmp k sl = Some sl' \<and> sl_inv cmp sl' \<and>
    sl_items sl' = insert_sorted cmp k (sl_items sl)"
proof -
  let ?n = "length (nodes sl)"
  obtain A B where AB: "sl_nodes sl = A @ B" "linked sl (A @ B)"
    "\<forall>a \<in> set A. cmp (nkey sl a) k < 0" "\<forall>b \<in> set B. \<not> cmp (nkey sl b) k < 0"
    "map (nkey sl) A = takeWhile (\<lambda>x. cmp x k < 0) (sl_items sl)"
    "map (nkey sl) B = dropWhile (\<lambda>x. cmp x k < 0) (sl_items sl)"
    using sl_split [OF assms(1)] .
  have "\<forall>b. opt_hd B = Some b \<longrightarrow> cmp k (nkey sl b) \<noteq> 0"
    using AB(1) by (auto intro!: fresh simp: sl_items_def dest!: opt_hd_in_set)
  then obtain sl' where sl': "SkipList_Insert nc cmp k sl = Some sl'" "linked sl' (A @ ?n # B)"
    "nkey sl' ?n = k" "\<And>y. y < ?n \<Longrightarrow> nkey sl' y = nkey sl y"
    using Insert_linked [where cmp = cmp, OF AB(2,3,4) _ refl] by blast
  have nodes': "sl_nodes sl' = A @ ?n # B" using sl'(2) by (rule sl_nodes_linked)
  have same: "map (nkey sl') xs = map (nkey sl) xs" if "set xs \<subseteq> set (A @ B)" for xs
    using that sl'(4) linked_height(3) [OF AB(2)] by (intro map_cong) auto
  have items': "sl_items sl' = map (nkey sl) A @ k # map (nkey sl) B"
    unfolding sl_items_def nodes' by (simp add: same sl'(3))
  have "sorted_wrt (\<lambda>a b. \<not> cmp b a < 0) (map (nkey sl) A @ map (nkey sl) B)"
    using assms(1) AB(1) by (simp add: sl_inv_def sl_items_def)
  then have "sorted_wrt (\<lambda>a b. \<not> cmp b a < 0) (sl_items sl')"
    using AB(3,4) unfolding items' by (auto simp: sorted_wrt_append dest: cmp_asym)
  then show ?thesis
    using sl'(1,2) nodes' items' AB(5,6) by (simp add: sl_inv_def insert_sorted_def)
qed

lemma seek_items: "sl_inv cmp sl \<Longrightarrow> sl_seek cmp sl k = Some (find (\<lambda>x. \<not> cmp x k < 0) (sl_items sl))"
  by (erule sl_split [where k = k])
    (simp add: sl_seek_def Iterator_Seek_def FindGreaterOrEqual_spec(1) find_opt_hd Iterator_key_def
      flip: opt_hd_map)

lemma skiplist_ordered_index:
  "ordered_index cmp (sl_inv cmp) sl_items (SkipList_Insert nc cmp) (sl_seek cmp)"
  using Insert_items seek_items by unfold_locales (auto simp: sl_inv_def)


text \<open>\<open>Insert\<close> stops at its assertion if the first key not below the new one is equal to it.\<close>

lemma Insert_duplicate:
  assumes "sl_inv cmp sl" "sl_seek cmp sl k = Some (Some y)" "cmp k y = 0"
  shows "SkipList_Insert nc cmp k sl = None"
proof -
  obtain A B where AB: "linked sl (A @ B)"
    "\<forall>a \<in> set A. cmp (nkey sl a) k < 0" "\<forall>b \<in> set B. \<not> cmp (nkey sl b) k < 0"
    using sl_split [OF assms(1)] .
  note find = FindGreaterOrEqual_spec(1) [where cmp = cmp, OF AB]
  obtain b where "opt_hd B = Some b" "nkey sl b = y"
    using assms(2) by (auto simp: sl_seek_def Iterator_Seek_def find Iterator_key_def)
  then show ?thesis using assms(3) by (simp add: SkipList_Insert_def find Equal_def)
qed

lemma Contains_seek:
  assumes "sl_inv cmp sl"
  shows "Contains cmp sl k = Some (\<exists>y. sl_seek cmp sl k = Some (Some y) \<and> cmp k y = 0)"
proof -
  obtain A B where AB: "linked sl (A @ B)"
    "\<forall>a \<in> set A. cmp (nkey sl a) k < 0" "\<forall>b \<in> set B. \<not> cmp (nkey sl b) k < 0"
    using sl_split [OF assms(1)] .
  note find = FindGreaterOrEqual_spec(1) [where cmp = cmp, OF AB]
  show ?thesis
    by (auto simp: Contains_def sl_seek_def Iterator_Seek_def find Iterator_key_def Equal_def
        split: option.splits)
qed

text \<open>Stepping the iterator backwards needs keys that are strictly ordered: \<open>Prev\<close> searches for the key again.\<close>

lemma Prev_nth:
  assumes "sl_inv cmp sl" "sorted_wrt (\<lambda>a b. cmp a b < 0) (sl_items sl)" "i < length (sl_nodes sl)"
  shows "Iterator_Prev cmp sl (Some (sl_nodes sl ! i)) =
    Some (if i = 0 then None else Some (sl_nodes sl ! (i - 1)))"
proof -
  let ?A = "take i (sl_nodes sl)" and ?B = "drop i (sl_nodes sl)" and ?k = "nkey sl (sl_nodes sl ! i)"
  have lk: "linked sl (?A @ ?B)" using assms(1) by (simp add: sl_inv_def)
  have "cmp (nkey sl (sl_nodes sl ! j)) ?k < 0" if "j < i" for j
    using assms(2,3) that by (auto simp: sl_items_def sorted_wrt_iff_nth_less)
  then have A: "\<forall>a \<in> set ?A. cmp (nkey sl a) ?k < 0"
    using assms(3) by (auto simp: in_set_conv_nth)
  have "\<not> cmp (nkey sl (sl_nodes sl ! j)) ?k < 0" if "i \<le> j" "j < length (sl_nodes sl)" for j
    using assms(1,3) that cmp_irrefl
    by (cases "j = i") (auto simp: sl_inv_def sl_items_def sorted_wrt_iff_nth_less)
  then have B: "\<forall>b \<in> set ?B. \<not> cmp (nkey sl b) ?k < 0"
    using assms(3) by (auto simp: in_set_conv_nth)
  have "0 < sl_nodes sl ! (i - 1)"
    using assms(1,3) linked_height(4) [of sl "sl_nodes sl" "sl_nodes sl ! (i - 1)"] by (simp add: sl_inv_def)
  moreover have "last (head # ?A) = (if i = 0 then head else sl_nodes sl ! (i - 1))"
    using assms(3) by (cases i) (simp_all add: take_Suc_conv_app_nth)
  ultimately show ?thesis
    using FindGreaterOrEqual_spec(2) [where cmp = cmp, OF lk A B]
    by (simp add: Iterator_Prev_def)
qed

end

lemma seg_nth: "seg f q xs None \<Longrightarrow> i < length xs \<Longrightarrow>
    f (xs ! i) = (if Suc i < length xs then Some (xs ! Suc i) else None)"
proof (induction xs arbitrary: q i)
  case (Cons x xs)
  show ?case
  proof (cases i)
    case 0
    with Cons.prems show ?thesis by (cases xs) auto
  next
    case (Suc j)
    with Cons.prems Cons.IH [of x j] show ?thesis by auto
  qed
qed simp

lemma seg_level_0: "linked sl ord \<Longrightarrow> seg (\<lambda>x. Next sl x 0) head ord None"
  using linked_lane_0 [of sl ord ord] unfolding linked_def kMaxHeight_def
  by (metis order_refl zero_less_numeral)

lemma Next_nth:
  assumes "sl_inv cmp sl" "i < length (sl_nodes sl)"
  shows "Iterator_Next sl (Some (sl_nodes sl ! i)) =
    Some (if Suc i < length (sl_nodes sl) then Some (sl_nodes sl ! Suc i) else None)"
  using seg_nth [OF seg_level_0 [of sl] assms(2)] assms(1) by (simp add: sl_inv_def Iterator_Next_def)

lemma SeekToFirst_hd: "sl_inv cmp sl \<Longrightarrow> Iterator_SeekToFirst sl = opt_hd (sl_nodes sl)"
  using seg_level_0 [of sl "sl_nodes sl"]
  by (cases "sl_nodes sl") (auto simp: sl_inv_def Iterator_SeekToFirst_def)

lemma SeekToLast_last:
  assumes "sl_inv cmp sl"
  shows "Iterator_SeekToLast sl = Some (if sl_nodes sl = [] then None else Some (last (sl_nodes sl)))"
proof -
  have lk: "linked sl (sl_nodes sl)" using assms by (simp add: sl_inv_def)
  then have "last (sl_nodes sl) \<noteq> head" if "sl_nodes sl \<noteq> []"
    using that linked_height(4) last_in_set by blast
  then show ?thesis by (cases "sl_nodes sl = []") (simp_all add: Iterator_SeekToLast_def FindLast_spec [OF lk])
qed


context three_way
begin

lemma axioms_ordering: "ordering cmp"
  by (rule ordering_axioms)

lemma skiplist_ordered_set:
  "ordered_set cmp (sl_inv cmp) sl_items (SkipList_Insert nc cmp) (sl_seek cmp)"
  using skiplist_ordered_index three_way_axioms by (rule ordered_set.intro)

text \<open>A list built from pairwise unequal keys.\<close>

lemma build_list:
  assumes "sorted_wrt (\<lambda>a b. cmp b a \<noteq> 0) ks"
  obtains sl where "insert_all (SkipList_Insert nc cmp) ks (SkipList_init nc z A) = Some sl"
    "sl_inv cmp sl" "mset (sl_items sl) = mset ks" "sorted_wrt (\<lambda>a b. cmp a b < 0) (sl_items sl)"
proof -
  let ?s = "SkipList_init nc z A"
  have empty: "sl_items ?s = []" using sl_items_init .
  obtain sl where sl: "insert_all (SkipList_Insert nc cmp) ks ?s = Some sl" "sl_inv cmp sl"
    "mset (sl_items sl) = mset ks"
    using ordered_index.insert_all_items [OF skiplist_ordered_index sl_inv_init _ assms, of nc z A nc]
    by (auto simp: empty)
  moreover have "sorted_wrt (\<lambda>a b. cmp a b < 0) (sl_items sl)"
    using ordered_set.insert_all_strict [OF skiplist_ordered_set sl_inv_init _ _ assms sl(1)]
    by (simp add: empty)
  ultimately show ?thesis by (rule that)
qed

lemma Contains_iff: "sl_inv cmp sl \<Longrightarrow> Contains cmp sl k = Some (\<exists>y \<in> set (sl_items sl). cmp k y = 0)"
  by (simp add: Contains_seek ordered_set.seek_member [OF skiplist_ordered_set])

end

text \<open>The comparator of \<^verbatim>\<open>skiplist_test.cc\<close>, over \<^verbatim>\<open>uint64_t\<close> keys.\<close>

definition SkipTest_Comparator :: "u64 \<Rightarrow> u64 \<Rightarrow> int" where
  "SkipTest_Comparator a b = (if a < b then -1 else if a > b then 1 else 0)"

interpretation u64_key: three_way SkipTest_Comparator
  by unfold_locales (auto simp: SkipTest_Comparator_def split: if_splits)

interpretation u64_list: ordered_set SkipTest_Comparator "sl_inv SkipTest_Comparator" sl_items
    "SkipList_Insert nc SkipTest_Comparator" "sl_seek SkipTest_Comparator" for nc
  by (rule u64_key.skiplist_ordered_set)

interpretation bytes_list: ordered_index Bytewise_Compare "sl_inv Bytewise_Compare" sl_items
    "SkipList_Insert nc Bytewise_Compare" "sl_seek Bytewise_Compare" for nc
  by (rule bytewise.skiplist_ordered_index)

section \<open>Properties\<close>

text \<open>C2. Inserting pairwise unequal keys, in any order, into a new list succeeds: every search terminates, no
  assertion fails, and the pointers of all levels stay consistent.  The list then holds exactly those keys in strictly
  increasing order, and \<open>Contains\<close> answers membership.\<close>

theorem skiplist_build:
  assumes "three_way cmp" "sorted_wrt (\<lambda>a b. cmp b a \<noteq> 0) ks"
  shows "\<exists>sl. insert_all (SkipList_Insert nc cmp) ks (SkipList_init nc z A) = Some sl \<and>
    sl_inv cmp sl \<and> mset (sl_items sl) = mset ks \<and> sorted_wrt (\<lambda>a b. cmp a b < 0) (sl_items sl) \<and>
    (\<forall>k. Contains cmp sl k = Some (\<exists>y \<in> set ks. cmp k y = 0))"
proof -
  obtain sl where sl: "insert_all (SkipList_Insert nc cmp) ks (SkipList_init nc z A) = Some sl"
    "sl_inv cmp sl" "mset (sl_items sl) = mset ks" "sorted_wrt (\<lambda>a b. cmp a b < 0) (sl_items sl)"
    using three_way.build_list [OF assms] .
  moreover have "set (sl_items sl) = set ks" using sl(3) by (rule mset_eq_setD)
  ultimately show ?thesis using three_way.Contains_iff [OF assms(1) sl(2)] by auto
qed

theorem skiplist_build_witness:
  "\<exists>sl. insert_all (SkipList_Insert bump_new SkipTest_Comparator) [30, 10, 20]
      (SkipList_init bump_new 0 Arena_init) = Some sl \<and>
    sl_items sl = [10, 20, 30] \<and> Contains SkipTest_Comparator sl 20 = Some True \<and>
    Contains SkipTest_Comparator sl 25 = Some False"
proof -
  have "sorted_wrt (\<lambda>a b. SkipTest_Comparator b a \<noteq> 0) [30, 10, 20]"
    by (simp add: SkipTest_Comparator_def)
  from skiplist_build [OF u64_key.three_way_axioms this, of bump_new 0 Arena_init]
  obtain sl where sl: "insert_all (SkipList_Insert bump_new SkipTest_Comparator) [30, 10, 20]
      (SkipList_init bump_new 0 Arena_init) = Some sl" "mset (sl_items sl) = mset [30, 10, 20]"
    "sorted_wrt (\<lambda>a b. SkipTest_Comparator a b < 0) (sl_items sl)"
    "\<And>k. Contains SkipTest_Comparator sl k = Some (\<exists>y \<in> set [30, 10, 20]. SkipTest_Comparator k y = 0)"
    by blast
  have "sorted (sl_items sl)"
    using sl(3) by (rule sorted_wrt_mono_rel [rotated]) (simp add: SkipTest_Comparator_def split: if_splits)
  then have "sl_items sl = sort [30, 10, 20]"
    using sl(2) by (intro properties_for_sort [symmetric]) auto
  with sl(1,4) show ?thesis by (auto simp: SkipTest_Comparator_def)
qed


text \<open>C3. One operation on a well-formed list, for a comparator that meets its contract.  \<open>Insert\<close> stops at its
  assertion exactly if an equal key is present; otherwise it returns a well-formed list with the key added at its
  place.  \<open>Seek\<close> terminates and positions the iterator at the first key not below the target.\<close>

theorem skiplist_insert_seek:
  assumes "three_way cmp" "sl_inv cmp sl"
  shows "(if \<exists>y \<in> set (sl_items sl). cmp k y = 0 then SkipList_Insert nc cmp k sl = None
      else \<exists>sl'. SkipList_Insert nc cmp k sl = Some sl' \<and> sl_inv cmp sl' \<and>
        sl_items sl' = insert_sorted cmp k (sl_items sl)) \<and>
    map_option (Iterator_key sl) (Iterator_Seek cmp sl t) = Some (find (\<lambda>x. \<not> cmp x t < 0) (sl_items sl))"
proof -
  have ord: "ordering cmp" using assms(1) by (rule three_way.axioms_ordering)
  note set = three_way.skiplist_ordered_set [OF assms(1)]
  have "SkipList_Insert nc cmp k sl = None" if "\<exists>y \<in> set (sl_items sl). cmp k y = 0"
    using that ordered_set.seek_member [OF set assms(2)] ordering.Insert_duplicate [OF ord assms(2)]
    by blast
  moreover have "\<exists>sl'. SkipList_Insert nc cmp k sl = Some sl' \<and> sl_inv cmp sl' \<and>
      sl_items sl' = insert_sorted cmp k (sl_items sl)" if "\<not> (\<exists>y \<in> set (sl_items sl). cmp k y = 0)"
    using that by (intro ordering.Insert_items [OF ord assms(2)]) auto
  ultimately show ?thesis
    using ordering.seek_items [OF ord assms(2)] by (simp add: sl_seek_def)
qed

theorem skiplist_insert_seek_witness:
  "SkipList_Insert bump_new SkipTest_Comparator 7 (SkipList_init bump_new 0 Arena_init) \<noteq> None \<and>
   map_option (Iterator_key (SkipList_init bump_new (0 :: u64) Arena_init))
     (Iterator_Seek SkipTest_Comparator (SkipList_init bump_new 0 Arena_init) 5) = Some None"
  using skiplist_insert_seek [OF u64_key.three_way_axioms sl_inv_init, of bump_new 0 Arena_init 7 bump_new 5]
  by (auto simp: sl_items_init)

text \<open>The iterator walks the keys in order, in both directions: \<open>SeekToFirst\<close> and \<open>Next\<close> visit the nodes of the
  chain from the front, \<open>SeekToLast\<close> and \<open>Prev\<close> from the back, and both end with an invalid iterator.\<close>

theorem skiplist_iterator:
  assumes "three_way cmp" "sl_inv cmp sl" "sorted_wrt (\<lambda>a b. cmp a b < 0) (sl_items sl)"
    "i < length (sl_nodes sl)"
  shows "Iterator_SeekToFirst sl = Some (sl_nodes sl ! 0) \<and>
    Iterator_SeekToLast sl = Some (Some (sl_nodes sl ! (length (sl_nodes sl) - 1))) \<and>
    Iterator_key sl (Some (sl_nodes sl ! i)) = Some (sl_items sl ! i) \<and>
    Iterator_Next sl (Some (sl_nodes sl ! i)) =
      Some (if i + 1 < length (sl_nodes sl) then Some (sl_nodes sl ! (i + 1)) else None) \<and>
    Iterator_Prev cmp sl (Some (sl_nodes sl ! i)) =
      Some (if i = 0 then None else Some (sl_nodes sl ! (i - 1)))"
proof -
  have "sl_nodes sl \<noteq> []" using assms(4) by auto
  then show ?thesis
    using SeekToFirst_hd [OF assms(2)] SeekToLast_last [OF assms(2)] Next_nth [OF assms(2,4)]
      ordering.Prev_nth [OF three_way.axioms_ordering [OF assms(1)] assms(2-4)] assms(4)
    by (simp add: sl_items_def Iterator_key_def opt_hd_def hd_conv_nth last_conv_nth split: list.splits)
qed


theorem skiplist_iterator_witness:
  "\<exists>sl. insert_all (SkipList_Insert bump_new SkipTest_Comparator) [30, 10]
      (SkipList_init bump_new 0 Arena_init) = Some sl \<and>
    (\<exists>x y. Iterator_SeekToFirst sl = Some x \<and> Iterator_key sl (Some x) = Some 10 \<and>
      Iterator_Next sl (Some x) = Some (Some y) \<and> Iterator_Prev SkipTest_Comparator sl (Some x) = Some None)"
proof -
  have "sorted_wrt (\<lambda>a b. SkipTest_Comparator b a \<noteq> 0) [30, 10]"
    by (simp add: SkipTest_Comparator_def)
  then obtain sl where sl: "insert_all (SkipList_Insert bump_new SkipTest_Comparator) [30, 10]
      (SkipList_init bump_new 0 Arena_init) = Some sl" "sl_inv SkipTest_Comparator sl"
    "mset (sl_items sl) = mset [30, 10]" "sorted_wrt (\<lambda>a b. SkipTest_Comparator a b < 0) (sl_items sl)"
    by (rule u64_key.build_list)
  have "sorted (sl_items sl)"
    using sl(4) by (rule sorted_wrt_mono_rel [rotated]) (simp add: SkipTest_Comparator_def split: if_splits)
  then have items: "sl_items sl = [10, 30]"
    using sl(3) properties_for_sort [of "sl_items sl" "[30, 10]"] by simp
  have "length (sl_nodes sl) = length (sl_items sl)" by (simp add: sl_items_def)
  then have "length (sl_nodes sl) = 2" by (simp add: items)
  with skiplist_iterator [OF u64_key.three_way_axioms sl(2,4), of 0] sl(1) items show ?thesis
    by simp
qed

end
