(* ===== verification/Coding.thy ===== *)
theory Coding
  imports Prelude
begin

text \<open>
  \<^verbatim>\<open>util/coding.h\<close> and \<^verbatim>\<open>util/coding.cc\<close>: fixed-width little-endian integers, base-128 varints and
  length-prefixed slices.

  An encoder that writes through a \<^verbatim>\<open>char*\<close> and returns the advanced pointer is modelled by the list
  of bytes it writes; a decoder that walks from \<^verbatim>\<open>p\<close> to \<^verbatim>\<open>limit\<close> is a function of the bytes in
  between and returns the value together with the number of bytes consumed, or \<open>None\<close> where the code
  returns \<^verbatim>\<open>nullptr\<close> (or \<^verbatim>\<open>false\<close>).  \<open>DecodeFixed32\<close> and \<open>DecodeFixed64\<close> read through the pointer
  without a bound, as the code does: with fewer than four (eight) bytes their value is unspecified.
\<close>

section \<open>Fixed-width integers\<close>

definition EncodeFixed32 :: "u32 \<Rightarrow> bytes" where
  "EncodeFixed32 value =
     [ucast value, ucast (drop_bit 8 value), ucast (drop_bit 16 value), ucast (drop_bit 24 value)]"

definition EncodeFixed64 :: "u64 \<Rightarrow> bytes" where
  "EncodeFixed64 value =
     [ucast value, ucast (drop_bit 8 value), ucast (drop_bit 16 value), ucast (drop_bit 24 value),
      ucast (drop_bit 32 value), ucast (drop_bit 40 value), ucast (drop_bit 48 value),
      ucast (drop_bit 56 value)]"

definition DecodeFixed32 :: "bytes \<Rightarrow> u32" where
  "DecodeFixed32 buffer =
     ucast (buffer ! 0) OR push_bit 8 (ucast (buffer ! 1))
       OR push_bit 16 (ucast (buffer ! 2)) OR push_bit 24 (ucast (buffer ! 3))"

definition DecodeFixed64 :: "bytes \<Rightarrow> u64" where
  "DecodeFixed64 buffer =
     ucast (buffer ! 0) OR push_bit 8 (ucast (buffer ! 1))
       OR push_bit 16 (ucast (buffer ! 2)) OR push_bit 24 (ucast (buffer ! 3))
       OR push_bit 32 (ucast (buffer ! 4)) OR push_bit 40 (ucast (buffer ! 5))
       OR push_bit 48 (ucast (buffer ! 6)) OR push_bit 56 (ucast (buffer ! 7))"

definition PutFixed32 :: "bytes \<Rightarrow> u32 \<Rightarrow> bytes" where
  "PutFixed32 dst value = dst @ EncodeFixed32 value"

definition PutFixed64 :: "bytes \<Rightarrow> u64 \<Rightarrow> bytes" where
  "PutFixed64 dst value = dst @ EncodeFixed64 value"

lemma length_EncodeFixed32 [simp]: "length (EncodeFixed32 v) = 4"
  by (simp add: EncodeFixed32_def)

lemma length_EncodeFixed64 [simp]: "length (EncodeFixed64 v) = 8"
  by (simp add: EncodeFixed64_def)

lemma DecodeFixed32_EncodeFixed32 [simp]: "DecodeFixed32 (EncodeFixed32 v @ rest) = v"
proof (rule bit_word_eqI)
  fix n assume "n < LENGTH(32)"
  then consider "n < 8" | "8 \<le> n" "n < 16" | "16 \<le> n" "n < 24" | "24 \<le> n" "n < 32"
    by fastforce
  then show "bit (DecodeFixed32 (EncodeFixed32 v @ rest)) n = bit v n"
    by cases (simp_all add: DecodeFixed32_def EncodeFixed32_def bit_simps less_diff_conv2)
qed

lemma DecodeFixed64_EncodeFixed64 [simp]: "DecodeFixed64 (EncodeFixed64 v @ rest) = v"
proof (rule bit_word_eqI)
  fix n assume "n < LENGTH(64)"
  then consider "n < 8" | "8 \<le> n" "n < 16" | "16 \<le> n" "n < 24" | "24 \<le> n" "n < 32"
    | "32 \<le> n" "n < 40" | "40 \<le> n" "n < 48" | "48 \<le> n" "n < 56" | "56 \<le> n" "n < 64"
    by fastforce
  then show "bit (DecodeFixed64 (EncodeFixed64 v @ rest)) n = bit v n"
    by cases (simp_all add: DecodeFixed64_def EncodeFixed64_def bit_simps less_diff_conv2)
qed

lemmas DecodeFixed_Encode_nil [simp] =
  DecodeFixed32_EncodeFixed32 [where rest = "[]", simplified]
  DecodeFixed64_EncodeFixed64 [where rest = "[]", simplified]

section \<open>Varints\<close>

subsection \<open>Encoders\<close>

definition EncodeVarint32 :: "u32 \<Rightarrow> bytes" where
  "EncodeVarint32 v =
     (if v < 2 ^ 7 then [ucast v]
      else if v < 2 ^ 14 then [ucast (v OR 128), ucast (drop_bit 7 v)]
      else if v < 2 ^ 21 then [ucast (v OR 128), ucast (drop_bit 7 v OR 128), ucast (drop_bit 14 v)]
      else if v < 2 ^ 28 then
        [ucast (v OR 128), ucast (drop_bit 7 v OR 128), ucast (drop_bit 14 v OR 128),
         ucast (drop_bit 21 v)]
      else
        [ucast (v OR 128), ucast (drop_bit 7 v OR 128), ucast (drop_bit 14 v OR 128),
         ucast (drop_bit 21 v OR 128), ucast (drop_bit 28 v)])"

definition PutVarint32 :: "bytes \<Rightarrow> u32 \<Rightarrow> bytes" where
  "PutVarint32 dst v = dst @ EncodeVarint32 v"

function EncodeVarint64 :: "u64 \<Rightarrow> bytes" where
  "EncodeVarint64 v =
     (if 128 \<le> v then ucast (v OR 128) # EncodeVarint64 (drop_bit 7 v) else [ucast v])"
  by pat_completeness auto
termination
proof (relation "measure unat")
  fix v :: u64
  assume "128 \<le> v"
  then have "0 < unat v" by (simp add: word_le_nat_alt)
  then show "(drop_bit 7 v, v) \<in> measure unat"
    by (simp only: in_measure unat_drop_bit_div) simp
qed simp

definition PutVarint64 :: "bytes \<Rightarrow> u64 \<Rightarrow> bytes" where
  "PutVarint64 dst v = dst @ EncodeVarint64 v"

definition PutLengthPrefixedSlice :: "bytes \<Rightarrow> bytes \<Rightarrow> bytes" where
  "PutLengthPrefixedSlice dst value = PutVarint32 dst (of_nat (length value)) @ value"

function VarintLength_loop :: "u64 \<Rightarrow> nat \<Rightarrow> nat" where
  "VarintLength_loop v len = (if 128 \<le> v then VarintLength_loop (drop_bit 7 v) (len + 1) else len)"
  by pat_completeness auto
termination
proof (relation "measure (unat \<circ> fst)")
  fix v :: u64 and len :: nat
  assume "128 \<le> v"
  then have "0 < unat v" by (simp add: word_le_nat_alt)
  then show "((drop_bit 7 v, len + 1), (v, len)) \<in> measure (unat \<circ> fst)"
    by (simp only: in_measure comp_apply fst_conv unat_drop_bit_div) simp
qed simp

definition VarintLength :: "u64 \<Rightarrow> nat" where
  "VarintLength v = VarintLength_loop v 1"

declare EncodeVarint64.simps [simp del] VarintLength_loop.simps [simp del]

subsection \<open>Decoders\<close>

text \<open>
  The loops of \<^verbatim>\<open>GetVarint32PtrFallback\<close> and \<^verbatim>\<open>GetVarint64Ptr\<close> differ in the width of the result
  and in the last shift they accept (28 and 63); \<open>GetVarint_loop\<close> is both.  Its list argument is
  what is left between \<^verbatim>\<open>p\<close> and \<^verbatim>\<open>limit\<close>, \<open>n\<close> counts the bytes already passed.
\<close>

fun GetVarint_loop :: "nat \<Rightarrow> nat \<Rightarrow> 'a::len word \<Rightarrow> nat \<Rightarrow> bytes \<Rightarrow> ('a word \<times> nat) option" where
  "GetVarint_loop max_shift shift result n [] = None"
| "GetVarint_loop max_shift shift result n (c # p) =
     (if shift \<le> max_shift then
        let byte = (ucast c :: 'a word) in
        if byte AND 128 \<noteq> 0
        then GetVarint_loop max_shift (shift + 7) (result OR push_bit shift (byte AND 127)) (n + 1) p
        else Some (result OR push_bit shift byte, n + 1)
      else None)"

definition GetVarint32PtrFallback :: "bytes \<Rightarrow> (u32 \<times> nat) option" where
  "GetVarint32PtrFallback p = GetVarint_loop 28 0 0 0 p"

definition GetVarint32Ptr :: "bytes \<Rightarrow> (u32 \<times> nat) option" where
  "GetVarint32Ptr p =
     (case p of
        c # _ \<Rightarrow>
          let result = (ucast c :: u32) in
          if result AND 128 = 0 then Some (result, 1) else GetVarint32PtrFallback p
      | [] \<Rightarrow> GetVarint32PtrFallback p)"

definition GetVarint64Ptr :: "bytes \<Rightarrow> (u64 \<times> nat) option" where
  "GetVarint64Ptr p = GetVarint_loop 63 0 0 0 p"

text \<open>\<open>GetVarint32\<close> and its kin return the value and the input that is left.\<close>

definition GetVarint32 :: "bytes \<Rightarrow> (u32 \<times> bytes) option" where
  "GetVarint32 input =
     (case GetVarint32Ptr input of None \<Rightarrow> None | Some (value, n) \<Rightarrow> Some (value, drop n input))"

definition GetVarint64 :: "bytes \<Rightarrow> (u64 \<times> bytes) option" where
  "GetVarint64 input =
     (case GetVarint64Ptr input of None \<Rightarrow> None | Some (value, n) \<Rightarrow> Some (value, drop n input))"

definition GetLengthPrefixedSlice :: "bytes \<Rightarrow> (bytes \<times> bytes) option" where
  "GetLengthPrefixedSlice input =
     (case GetVarint32 input of
        Some (len, input') \<Rightarrow>
          if unat len \<le> length input' then Some (take (unat len) input', drop (unat len) input')
          else None
      | None \<Rightarrow> None)"

section \<open>The encoders write base-128 digits\<close>

text \<open>
  Reference: the digits of \<open>v\<close> in base 128, least significant first, every byte but the last one
  with its top bit set.  Both encoders, the unrolled one for 32 bits and the loop for 64 bits,
  produce it.
\<close>

function base128 :: "'a::len word \<Rightarrow> bytes" where
  "base128 v = (if 128 \<le> unat v then ucast (v OR 128) # base128 (drop_bit 7 v) else [ucast v])"
  by pat_completeness auto
termination
  by (relation "measure unat") (auto simp only: in_measure unat_drop_bit_div, simp)

declare base128.simps [simp del]

lemma EncodeVarint64_base128: "EncodeVarint64 v = base128 v"
proof (induction v rule: EncodeVarint64.induct)
  case (1 v)
  then show ?case
    by (simp add: EncodeVarint64.simps [of v] base128.simps [of v] word_le_nat_alt)
qed

lemma EncodeVarint32_base128: "EncodeVarint32 v = base128 v"
proof -
  have d: "drop_bit 7 (drop_bit k w) = drop_bit (k + 7) w" for k and w :: u32
    by (simp add: drop_bit_drop_bit add.commute)
  have le: "128 \<le> unat (drop_bit k v) \<longleftrightarrow> 2 ^ (k + 7) \<le> unat v" for k
    by (simp only: unat_drop_bit_div power_add) (simp add: less_eq_div_iff_mult_less_eq mult.commute)
  have top: "\<not> 2 ^ (28 + 7) \<le> unat v"
    using unsigned_less [of v, where 'a = nat] by simp
  show ?thesis
    unfolding EncodeVarint32_def
    using le [of 0] le [of 7] le [of 14] le [of 21] le [of 28] top
    by (simp add: base128.simps [of v] base128.simps [of "drop_bit 7 v"]
        base128.simps [of "drop_bit 14 v"] base128.simps [of "drop_bit 21 v"]
        base128.simps [of "drop_bit 28 v"] d word_less_nat_alt not_less)
qed

lemma base128_length_loop: "VarintLength_loop v len + 1 = len + length (EncodeVarint64 v)"
proof (induction v len rule: VarintLength_loop.induct)
  case (1 v len)
  then show ?case
    by (simp add: VarintLength_loop.simps [of v] EncodeVarint64.simps [of v])
qed

lemma base128_length_cong:
  fixes v :: "'a::len word" and w :: "'b::len word"
  shows "unat v = unat w \<Longrightarrow> length (base128 v) = length (base128 w)"
proof (induction v arbitrary: w rule: base128.induct)
  case (1 v)
  have "unat (drop_bit 7 v) = unat (drop_bit 7 w)" using 1(2) by (simp only: unat_drop_bit_div)
  then show ?case
    using 1 by (simp add: base128.simps [of v] base128.simps [of w])
qed

lemma VarintLength_length: "VarintLength w = length (EncodeVarint64 w)"
  using base128_length_loop [of w 1] by (simp add: VarintLength_def)

lemma VarintLength_32:
  assumes "n < 2 ^ 32"
  shows "VarintLength (of_nat n) = length (EncodeVarint32 (of_nat n))"
  unfolding VarintLength_length EncodeVarint64_base128 EncodeVarint32_base128
  using assms by (intro base128_length_cong) (simp add: unat_of_nat)

section \<open>Decoding what was encoded\<close>

lemma varint_digit_more:
  assumes "8 \<le> LENGTH('a)"
  shows "ucast (ucast ((v::'a::len word) OR 128) :: u8) AND 127 = take_bit 7 v"
    and "(ucast (ucast (v OR 128) :: u8) AND (128::'a word)) \<noteq> 0"
  using assms by (auto simp: and_128_eq_0 bit_simps intro!: bit_word_eqI)

lemma varint_digit_last:
  assumes "8 \<le> LENGTH('a)" "\<not> 128 \<le> unat (v::'a::len word)"
  shows "(ucast (ucast v :: u8) :: 'a word) = v"
    and "v AND 128 = 0"
proof -
  have high: "\<not> bit v n" if "7 \<le> n" for n
    using assms(2) that by (intro bit_less_exp [of v 7]) auto
  show "(ucast (ucast v :: u8) :: 'a word) = v"
    using assms(1) high by (intro bit_word_eqI) (auto simp: bit_simps, meson le_trans nat_le_linear not_le numeral_le_iff semiring_norm(71,69,72) order.strict_trans1)
  show "v AND 128 = 0"
    using high by (simp add: and_128_eq_0)
qed

text \<open>
  The loop recovers \<open>v\<close> from its digits as long as the last accepted shift covers every digit a
  word of that width can have.
\<close>

lemma GetVarint_loop_base128:
  assumes w: "8 \<le> LENGTH('a)" and cover: "\<And>s. s < LENGTH('a) \<Longrightarrow> 7 dvd s \<Longrightarrow> s \<le> max_shift"
    and "7 dvd shift" "shift < LENGTH('a)" "unat v < 2 ^ (LENGTH('a) - shift)"
  shows "GetVarint_loop max_shift shift result n (base128 (v::'a::len word) @ rest) =
     Some (result OR push_bit shift v, n + length (base128 v))"
  using assms(3-)
proof (induction v arbitrary: shift result n rule: base128.induct)
  case (1 v)
  have le: "shift \<le> max_shift" using cover 1(2,3) by blast
  show ?case
  proof (cases "128 \<le> unat v")
    case True
    have lt: "shift + 7 < LENGTH('a)"
    proof (rule ccontr)
      assume "\<not> shift + 7 < LENGTH('a)"
      then have "(2::nat) ^ (LENGTH('a) - shift) \<le> 2 ^ 7"
        by (intro power_increasing) auto
      with True 1(4) show False by simp
    qed
    have "(2::nat) ^ (LENGTH('a) - shift) = 2 ^ (LENGTH('a) - (shift + 7)) * 2 ^ 7"
      using lt by (simp only: flip: power_add) simp
    then have "unat (drop_bit 7 v) < 2 ^ (LENGTH('a) - (shift + 7))"
      using 1(4) by (simp only: unat_drop_bit_div) (simp add: less_mult_imp_div_less)
    with 1(1)[OF True, of "shift + 7"] 1(2) lt le True show ?thesis
      by (simp add: base128.simps [of v] varint_digit_more [OF w] or.assoc push_bit_split)
  next
    case False
    then show ?thesis using le
      by (simp add: base128.simps [of v] varint_digit_last [OF w])
  qed
qed

lemma GetVarint64Ptr_Encode: "GetVarint64Ptr (EncodeVarint64 v @ rest) = Some (v, length (EncodeVarint64 v))"
proof -
  have "s \<le> 63" if "s < LENGTH(64)" "7 dvd s" for s using that by simp
  then show ?thesis
    using GetVarint_loop_base128 [of 63 0 v 0 0 rest] unsigned_less [of v, where 'a = nat]
    by (simp add: GetVarint64Ptr_def EncodeVarint64_base128)
qed

lemma GetVarint32PtrFallback_Encode:
  "GetVarint32PtrFallback (EncodeVarint32 v @ rest) = Some (v, length (EncodeVarint32 v))"
proof -
  have "s \<le> 28" if "s < LENGTH(32)" "7 dvd s" for s
    using that by (auto elim: dvdE)
  then show ?thesis
    using GetVarint_loop_base128 [of 28 0 v 0 0 rest] unsigned_less [of v, where 'a = nat]
    by (simp add: GetVarint32PtrFallback_def EncodeVarint32_base128)
qed

text \<open>The one-byte fast path of \<^verbatim>\<open>GetVarint32Ptr\<close> agrees with the general loop.\<close>

lemma GetVarint32Ptr_eq_Fallback: "GetVarint32Ptr p = GetVarint32PtrFallback p"
  by (cases p) (simp_all add: GetVarint32Ptr_def GetVarint32PtrFallback_def Let_def)

lemma GetVarint32Ptr_Encode [simp]:
  "GetVarint32Ptr (EncodeVarint32 v @ rest) = Some (v, length (EncodeVarint32 v))"
  by (simp add: GetVarint32Ptr_eq_Fallback GetVarint32PtrFallback_Encode)

lemma GetVarint_loop_consumes:
  "GetVarint_loop max_shift shift result n p = Some (v, m) \<Longrightarrow>
     n < m \<and> m \<le> n + length p \<and> shift + 7 * (m - n - 1) \<le> max_shift"
proof (induction max_shift shift result n p rule: GetVarint_loop.induct)
  case (2 max_shift shift result n c p)
  then show ?case by (fastforce simp: Let_def split: if_splits)
qed simp

lemma GetVarint_loop_prefix:
  "GetVarint_loop max_shift shift result n p = Some (v, m) \<Longrightarrow> k < m - n \<Longrightarrow>
     GetVarint_loop max_shift shift result n (take k p) = None"
proof (induction max_shift shift result n p arbitrary: k rule: GetVarint_loop.induct)
  case (2 max_shift shift result n c p)
  then show ?case by (cases k) (auto simp: Let_def split: if_splits)
qed simp

section \<open>The interface: self-delimiting encodings\<close>

text \<open>
  What the clients of the coding functions rely on: an encoded value can be read back from the
  front of any longer input, and reading stops exactly where the encoding ends.  \<open>get_all\<close> is the
  loop of such a client, reading \<open>k\<close> values in a row.
\<close>

fun get_all :: "(bytes \<Rightarrow> ('a \<times> bytes) option) \<Rightarrow> nat \<Rightarrow> bytes \<Rightarrow> ('a list \<times> bytes) option" where
  "get_all get 0 input = Some ([], input)"
| "get_all get (Suc k) input =
     (case get input of
        None \<Rightarrow> None
      | Some (v, input') \<Rightarrow>
          (case get_all get k input' of None \<Rightarrow> None | Some (vs, rest) \<Rightarrow> Some (v # vs, rest)))"

locale self_delimiting =
  fixes valid :: "'a \<Rightarrow> bool"
    and put :: "bytes \<Rightarrow> 'a \<Rightarrow> bytes"
    and get :: "bytes \<Rightarrow> ('a \<times> bytes) option"
  assumes put_append: "put (xs @ ys) v = xs @ put ys v"
    and get_put: "valid v \<Longrightarrow> get (put [] v @ rest) = Some (v, rest)"
begin

lemma put_eq: "put dst v = dst @ put [] v"
  using put_append [of dst "[]"] by simp

lemma put_inj:
  assumes "valid v" "valid w" "put [] v @ r = put [] w @ r'"
  shows "v = w \<and> r = r'"
proof -
  from get_put [OF assms(1), of r] have "get (put [] w @ r') = Some (v, r)"
    by (simp only: assms(3))
  with get_put [OF assms(2), of r'] show ?thesis by simp
qed

lemma foldl_put: "foldl put dst vs = dst @ concat (map (put []) vs)"
proof (induction vs arbitrary: dst)
  case (Cons v vs)
  then show ?case by (simp add: put_eq [of dst])
qed simp

lemma get_all_put: "list_all valid vs \<Longrightarrow> get_all get (length vs) (foldl put [] vs @ rest) = Some (vs, rest)"
  unfolding foldl_put by (induction vs) (simp_all add: get_put)

end

lemma GetVarint32_Encode: "GetVarint32 (EncodeVarint32 v @ rest) = Some (v, rest)"
  by (simp add: GetVarint32_def)

lemma GetVarint64_Encode: "GetVarint64 (EncodeVarint64 v @ rest) = Some (v, rest)"
  by (simp add: GetVarint64_def GetVarint64Ptr_Encode)

interpretation varint32: self_delimiting "\<lambda>_. True" PutVarint32 GetVarint32
  by unfold_locales (simp_all add: PutVarint32_def GetVarint32_Encode)

interpretation varint64: self_delimiting "\<lambda>_. True" PutVarint64 GetVarint64
  by unfold_locales (simp_all add: PutVarint64_def GetVarint64_Encode)

lemma unat_of_nat_length: "length s < 2 ^ 32 \<Longrightarrow> unat (of_nat (length s) :: u32) = length s"
  by (simp add: unat_of_nat take_bit_nat_eq_self_iff)

lemma GetLengthPrefixedSlice_Put:
  "length s < 2 ^ 32 \<Longrightarrow> GetLengthPrefixedSlice (PutLengthPrefixedSlice [] s @ rest) = Some (s, rest)"
  using unat_of_nat_length [of s]
  by (simp add: GetLengthPrefixedSlice_def PutLengthPrefixedSlice_def PutVarint32_def
      GetVarint32_Encode)

interpretation prefixed: self_delimiting "\<lambda>s. length s < 2 ^ 32" PutLengthPrefixedSlice GetLengthPrefixedSlice
proof
  show "PutLengthPrefixedSlice (xs @ ys) v = xs @ PutLengthPrefixedSlice ys v" for xs ys v
    by (simp add: PutLengthPrefixedSlice_def PutVarint32_def)
qed (rule GetLengthPrefixedSlice_Put)

section \<open>Properties\<close>

text \<open>Fixed-width integers round-trip: after \<^verbatim>\<open>PutFixed32\<close> or \<^verbatim>\<open>PutFixed64\<close> appends a value to
  a string, decoding at the position where it was appended gives the value back, whatever follows.\<close>

theorem fixed_roundtrip:
  "DecodeFixed32 (drop (length dst) (PutFixed32 dst v @ rest)) = v \<and>
   DecodeFixed64 (drop (length dst) (PutFixed64 dst w @ rest)) = w"
  by (simp add: PutFixed32_def PutFixed64_def)

text \<open>Any sequence of 32-bit values, of 64-bit values and of slices shorter than 4 GiB that is
  appended to a string by \<^verbatim>\<open>PutVarint32\<close>, \<^verbatim>\<open>PutVarint64\<close> and \<^verbatim>\<open>PutLengthPrefixedSlice\<close> is read back
  by the matching getters, in order, and the reader is left exactly at what follows.\<close>

theorem varint_sequence_roundtrip:
  assumes "\<And>s. s \<in> set ss \<Longrightarrow> length s < 2 ^ 32"
  shows "get_all GetVarint32 (length vs) (foldl PutVarint32 [] vs @ rest) = Some (vs, rest) \<and>
     get_all GetVarint64 (length ws) (foldl PutVarint64 [] ws @ rest) = Some (ws, rest) \<and>
     get_all GetLengthPrefixedSlice (length ss) (foldl PutLengthPrefixedSlice [] ss @ rest)
       = Some (ss, rest)"
  using assms
  by (simp add: varint32.get_all_put varint64.get_all_put prefixed.get_all_put list_all_iff)

theorem varint_sequence_roundtrip_witness:
  "get_all GetVarint32 2 (foldl PutVarint32 [] [300, 7] @ [9]) = Some ([300, 7], [9]) \<and>
   get_all GetVarint64 1 (foldl PutVarint64 [] [2 ^ 40] @ [9]) = Some ([2 ^ 40], [9]) \<and>
   get_all GetLengthPrefixedSlice 2 (foldl PutLengthPrefixedSlice [] [[1, 2], []] @ [9])
     = Some ([[1, 2], []], [9])"
proof -
  have "length s < 2 ^ 32" if "s \<in> set [[1, 2], []]" for s :: bytes
    using that by auto
  from varint_sequence_roundtrip [of "[[1, 2], []]" "[300, 7]" "[9]" "[2 ^ 40]", OF this]
  show ?thesis by (simp add: numeral_2_eq_2)
qed

text \<open>The unrolled 32-bit encoder writes the same bytes as the 64-bit loop, \<^verbatim>\<open>VarintLength\<close> is
  the number of bytes either of them writes, and a 32-bit varint has between one and five bytes.\<close>

theorem varint_encoders_agree:
  "EncodeVarint32 v = base128 v \<and> EncodeVarint64 w = base128 w \<and>
   VarintLength w = length (EncodeVarint64 w) \<and>
   length (EncodeVarint32 v) \<in> {1..5}"
proof -
  have "length (EncodeVarint32 v) \<in> {1..5}" by (simp add: EncodeVarint32_def)
  then show ?thesis by (simp add: VarintLength_length EncodeVarint32_base128 EncodeVarint64_base128)
qed

text \<open>Decoding stays inside its input and rejects truncation: a successful 32-bit decode consumes
  between one and five of the available bytes, the decoded value does not depend on what follows
  them, and every shorter prefix of the same input is refused.\<close>

theorem varint32_bounded:
  assumes "GetVarint32Ptr p = Some (v, n)"
  shows "1 \<le> n \<and> n \<le> 5 \<and> n \<le> length p \<and> (\<forall>k < n. GetVarint32Ptr (take k p) = None)"
proof -
  from assms have loop: "GetVarint_loop 28 0 0 0 p = Some (v, n)"
    by (simp add: GetVarint32Ptr_eq_Fallback GetVarint32PtrFallback_def)
  from GetVarint_loop_consumes [OF this] GetVarint_loop_prefix [OF loop]
  show ?thesis
    by (auto simp: GetVarint32Ptr_eq_Fallback GetVarint32PtrFallback_def)
qed

theorem varint32_bounded_witness:
  "GetVarint32Ptr [172, 2, 9] = Some (300, 2) \<and> GetVarint32Ptr (take 1 [172, 2, 9]) = None"
proof -
  have "GetVarint32Ptr [172, 2, 9] = Some (300, 2)" by code_simp
  moreover from varint32_bounded [OF this] have "GetVarint32Ptr (take 1 [172, 2, 9]) = None"
    by (elim conjE allE [of _ 1]) simp
  ultimately show ?thesis by blast
qed

end
