(* ===== verification/Hash.thy ===== *)
theory Hash
  imports Coding
begin

text \<open>
  \<^verbatim>\<open>util/hash.cc\<close>: the hash function of the Bloom filter and of the cache, similar to Murmur hash.  The
  product of the length and the multiplier is taken in 64 bits before it is cut to 32.
\<close>

definition hash_m :: u32 where
  "hash_m = 0xc6a4a793"

fun Hash_loop :: "u32 \<Rightarrow> bytes \<Rightarrow> u32 \<times> bytes" where
  "Hash_loop h (a # b # c # d # rest) =
     (let w = DecodeFixed32 [a, b, c, d];
          h1 = (h + w) * hash_m
      in Hash_loop (h1 XOR drop_bit 16 h1) rest)"
| "Hash_loop h rest = (h, rest)"

definition Hash_tail :: "u32 \<Rightarrow> bytes \<Rightarrow> u32" where
  "Hash_tail h rest =
     (let h3 = (if length rest = 3 then h + push_bit 16 (ucast (rest ! 2)) else h);
          h2 = (if 2 \<le> length rest \<and> length rest \<le> 3 then h3 + push_bit 8 (ucast (rest ! 1)) else h3)
      in if 1 \<le> length rest \<and> length rest \<le> 3
         then let h1 = (h2 + ucast (rest ! 0)) * hash_m in h1 XOR drop_bit 24 h1
         else h2)"

definition Hash :: "bytes \<Rightarrow> u32 \<Rightarrow> u32" where
  "Hash data seed =
     (let h = ucast (ucast seed XOR (of_nat (length data) * ucast hash_m :: u64));
          (h', rest) = Hash_loop h data
      in Hash_tail h' rest)"

text \<open>Reference: a fold over the four-byte groups of the input.\<close>

definition hash_step :: "u32 \<Rightarrow> bytes \<Rightarrow> u32" where
  "hash_step h g = (let h1 = (h + DecodeFixed32 g) * hash_m in h1 XOR drop_bit 16 h1)"

fun groups4 :: "bytes \<Rightarrow> bytes list \<times> bytes" where
  "groups4 (a # b # c # d # rest) = (let (gs, r) = groups4 rest in ([a, b, c, d] # gs, r))"
| "groups4 rest = ([], rest)"

lemma groups4_concat: "concat (fst (groups4 xs)) @ snd (groups4 xs) = xs \<and> length (snd (groups4 xs)) < 4"
  by (induction xs rule: groups4.induct) (auto split: prod.splits)

lemma Hash_loop_fold: "Hash_loop h xs = (foldl hash_step h (fst (groups4 xs)), snd (groups4 xs))"
  by (induction h xs rule: Hash_loop.induct) (auto simp: Let_def hash_step_def split: prod.splits)


text \<open>Cutting a 64-bit value to 32 bits commutes with the operations used.\<close>

lemma ucast_low_xor: "(ucast (ucast (x :: u32) XOR (y :: u64)) :: u32) = x XOR ucast y"
  by (rule bit_word_eqI) (auto simp: bits)

lemma ucast_low_mult: "(ucast (of_nat n * ucast (m :: u32) :: u64) :: u32) = of_nat n * m"
proof -
  have cancel: "x mod A * y mod A mod B = x mod B * y mod B" if "B dvd A" for x y A B :: nat
    using that mod_mult_left_eq [of "x mod A" B y] by (simp add: mod_mod_cancel mod_mult_left_eq)
  have "(4294967296 :: nat) dvd 18446744073709551616" by simp
  from cancel [OF this, of n "unat m"]
  have "(n mod 18446744073709551616 * unat m) mod 18446744073709551616 mod 4294967296 =
      (n mod 4294967296 * unat m) mod 4294967296" .
  moreover have "unat m mod 18446744073709551616 = unat m"
    using unsigned_less [of m, where 'a = nat] by simp
  ultimately show ?thesis
    by (simp add: word_unat_eq_iff unat_ucast unat_word_ariths unat_of_nat unat_ucast_up)
qed

text \<open>\<open>Hash\<close> folds the four-byte groups of its input, starting from the seed mixed with the length, and adds the
  remaining bytes, fewer than four, at the end.  It gives the published values, for inputs of every remainder and with
  bytes above 127.\<close>

theorem hash_fold_and_vectors:
  "Hash data seed =
     Hash_tail (foldl hash_step (seed XOR of_nat (length data) * hash_m) (fst (groups4 data))) (snd (groups4 data)) \<and>
   concat (fst (groups4 data)) @ snd (groups4 data) = data \<and> length (snd (groups4 data)) < 4 \<and>
   Hash [] 0xbc9f1d34 = 0xbc9f1d34 \<and> Hash [0x62] 0xbc9f1d34 = 0xef1345c4 \<and>
   Hash [0xc3, 0x97] 0xbc9f1d34 = 0x5b663814 \<and> Hash [0xe2, 0x99, 0xa5] 0xbc9f1d34 = 0x323c078f \<and>
   Hash [0xe1, 0x80, 0xb9, 0x32] 0xbc9f1d34 = 0xed21633a"
proof -
  have "ucast (ucast seed XOR (of_nat n * ucast hash_m :: u64)) = seed XOR of_nat n * hash_m" for n
    by (simp add: ucast_low_xor ucast_low_mult)
  then have "Hash data seed =
     Hash_tail (foldl hash_step (seed XOR of_nat (length data) * hash_m) (fst (groups4 data))) (snd (groups4 data))"
    by (simp add: Hash_def Hash_loop_fold)
  moreover have "Hash [] 0xbc9f1d34 = 0xbc9f1d34" "Hash [0x62] 0xbc9f1d34 = 0xef1345c4"
    "Hash [0xc3, 0x97] 0xbc9f1d34 = 0x5b663814" "Hash [0xe2, 0x99, 0xa5] 0xbc9f1d34 = 0x323c078f"
    "Hash [0xe1, 0x80, 0xb9, 0x32] 0xbc9f1d34 = 0xed21633a"
    by code_simp+
  ultimately show ?thesis using groups4_concat [of data] by blast
qed

end
