(* ===== verification/Filter_policy.thy ===== *)
theory Filter_policy
  imports Prelude
begin

text \<open>
  \<^verbatim>\<open>include/filter_policy.h\<close>: the abstract class as a record of its virtual methods, and its contract as a
  locale.  \<open>CreateFilter\<close> appends a filter to \<^verbatim>\<open>dst\<close>; a filter must accept every key it was created from.
\<close>

record FilterPolicy =
  CreateFilter :: "bytes list \<Rightarrow> bytes \<Rightarrow> bytes"
  KeyMayMatch :: "bytes \<Rightarrow> bytes \<Rightarrow> bool"

locale filter_policy =
  fixes policy :: FilterPolicy and valid :: "bytes list \<Rightarrow> bool"
  assumes create_appends: "\<exists>f. \<forall>dst. CreateFilter policy keys dst = dst @ f"
    and no_false_negative: "valid keys \<Longrightarrow> key \<in> set keys \<Longrightarrow>
      KeyMayMatch policy key (CreateFilter policy keys [])"
begin

text \<open>Filters written one after the other into the same string are found again by their offsets.\<close>

lemma filter_at_offset:
  assumes "valid keys" "key \<in> set keys"
  shows "KeyMayMatch policy key (drop (length dst) (CreateFilter policy keys dst))"
proof -
  obtain f where "\<And>dst. CreateFilter policy keys dst = dst @ f" using create_appends by blast
  then show ?thesis using no_false_negative [OF assms] by simp
qed

end

end
