(* ===== verification/Bloom.thy ===== *)
theory Bloom
  imports Hash Filter_policy
begin

text \<open>
  \<^verbatim>\<open>util/bloom.cc\<close>: the Bloom filter.  A policy keeps the number of bits per key and the number \<^verbatim>\<open>k_\<close> of probes.
  The constructor multiplies by 0.69 in floating point and cuts the product; the model uses 69/100, which
  gives the same integer for every value below the clamp at 30.  Filters are byte strings whose last byte is
  \<^verbatim>\<open>k_\<close>; \<^verbatim>\<open>array\<close> points at the part of \<^verbatim>\<open>dst\<close> that is being appended, so the loops work on that part.
\<close>

record BloomFilterPolicy =
  bits_per_key :: u64
  bloom_k :: nat

definition BloomHash :: "bytes \<Rightarrow> u32" where
  "BloomHash key = Hash key 0xbc9f1d34"

definition BloomFilterPolicy_new :: "nat \<Rightarrow> BloomFilterPolicy" where
  "BloomFilterPolicy_new bits =
     (let k = 69 * bits div 100;
          k1 = (if k < 1 then 1 else k);
          k2 = (if 30 < k1 then 30 else k1)
      in \<lparr>bits_per_key = of_nat bits, bloom_k = k2\<rparr>)"

definition bloom_delta :: "u32 \<Rightarrow> u32" where
  "bloom_delta h = drop_bit 17 h OR push_bit 15 h"

fun bloom_set :: "nat \<Rightarrow> u32 \<Rightarrow> u32 \<Rightarrow> nat \<Rightarrow> bytes \<Rightarrow> bytes" where
  "bloom_set 0 h delta bits array = array"
| "bloom_set (Suc j) h delta bits array =
     (let bitpos = unat h mod bits in
      bloom_set j (h + delta) delta bits
        (array[bitpos div 8 := array ! (bitpos div 8) OR push_bit (bitpos mod 8) 1]))"

definition bloom_add :: "nat \<Rightarrow> nat \<Rightarrow> bytes \<Rightarrow> bytes \<Rightarrow> bytes" where
  "bloom_add k bits key array = (let h = BloomHash key in bloom_set k h (bloom_delta h) bits array)"

definition Bloom_CreateFilter :: "BloomFilterPolicy \<Rightarrow> bytes list \<Rightarrow> bytes \<Rightarrow> bytes" where
  "Bloom_CreateFilter policy keys dst =
     (let bits0 = of_nat (length keys) * bits_per_key policy;
          bits1 = (if bits0 < 64 then 64 else bits0);
          bytes = (bits1 + 7) div 8;
          bits = bytes * 8;
          array = replicate (unat bytes) 0 @ [of_nat (bloom_k policy)]
      in dst @ fold (bloom_add (bloom_k policy) (unat bits)) keys array)"

fun bloom_probe :: "nat \<Rightarrow> u32 \<Rightarrow> u32 \<Rightarrow> nat \<Rightarrow> bytes \<Rightarrow> bool" where
  "bloom_probe 0 h delta bits array = True"
| "bloom_probe (Suc j) h delta bits array =
     (let bitpos = unat h mod bits in
      if (array ! (bitpos div 8)) AND push_bit (bitpos mod 8) 1 = 0 then False
      else bloom_probe j (h + delta) delta bits array)"

text \<open>The stored number of probes is a signed character, extended to \<^verbatim>\<open>size_t\<close>.\<close>

definition Bloom_KeyMayMatch :: "bytes \<Rightarrow> bytes \<Rightarrow> bool" where
  "Bloom_KeyMayMatch key bloom_filter =
     (let len = length bloom_filter in
      if len < 2 then False
      else
        let bits = (len - 1) * 8;
            k = (scast (bloom_filter ! (len - 1)) :: u64)
        in if 30 < k then True
           else let h = BloomHash key in bloom_probe (unat k) h (bloom_delta h) bits bloom_filter)"

definition NewBloomFilterPolicy :: "nat \<Rightarrow> FilterPolicy" where
  "NewBloomFilterPolicy bits =
     \<lparr>CreateFilter = Bloom_CreateFilter (BloomFilterPolicy_new bits), KeyMayMatch = Bloom_KeyMayMatch\<rparr>"

section \<open>Bits that are set stay set\<close>

definition bit_at :: "bytes \<Rightarrow> nat \<Rightarrow> bool" where
  "bit_at array p \<longleftrightarrow> bit (array ! (p div 8)) (p mod 8)"

definition probes :: "nat \<Rightarrow> u32 \<Rightarrow> u32 \<Rightarrow> nat \<Rightarrow> nat set" where
  "probes k h delta bits = {unat (h + of_nat j * delta) mod bits | j. j < k}"

lemma probes_Suc: "probes (Suc j) h delta bits = insert (unat h mod bits) (probes j (h + delta) delta bits)"
proof -
  have "{..<Suc j} = insert 0 (Suc ` {..<j})" by (rule lessThan_Suc_eq_insert_0)
  then have "(\<lambda>j. unat (h + of_nat j * delta) mod bits) ` {..<Suc j} =
      insert (unat h mod bits) ((\<lambda>j. unat (h + delta + of_nat j * delta) mod bits) ` {..<j})"
    by (simp add: image_image algebra_simps)
  then show ?thesis by (simp add: probes_def image_def lessThan_def setcompr_eq_image)
qed

lemma bit_single: "n < 8 \<Longrightarrow> bit (2 ^ n :: u8) m \<longleftrightarrow> m = n"
  by (auto simp: bit_exp_iff)

lemma and_single_bit: "(x :: u8) AND 2 ^ n = 0 \<longleftrightarrow> \<not> bit x n" if "n < 8"
proof
  assume "x AND 2 ^ n = 0"
  then have "\<not> bit (x AND 2 ^ n) n" by simp
  then show "\<not> bit x n" using that by (simp add: bit_and_iff bit_single)
next
  assume "\<not> bit x n"
  then show "x AND 2 ^ n = 0" using that by (intro bit_word_eqI) (auto simp: bit_and_iff bit_single)
qed

lemma bloom_probe_iff: "bloom_probe k h delta bits array \<longleftrightarrow> (\<forall>p \<in> probes k h delta bits. bit_at array p)"
proof (induction k h delta bits array rule: bloom_probe.induct)
  case (2 j h delta bits array)
  then show ?case by (auto simp: probes_Suc Let_def and_single_bit bit_at_def)
qed (simp add: probes_def)

lemma bit_at_update:
  assumes "q div 8 < length array" "p div 8 < length array"
  shows "bit_at (array[q div 8 := array ! (q div 8) OR 2 ^ (q mod 8)]) p \<longleftrightarrow> bit_at array p \<or> p = q"
proof (cases "p div 8 = q div 8")
  case True
  have "p = q \<longleftrightarrow> p mod 8 = q mod 8" using True by (metis div_mult_mod_eq)
  then show ?thesis using True assms by (auto simp: bit_at_def bit_or_iff bit_single)
next
  case False
  then show ?thesis by (auto simp: bit_at_def)
qed

lemma bloom_set_spec:
  assumes "0 < bits" "bits \<le> 8 * length array" "p < bits"
  shows "length (bloom_set k h delta bits array) = length array \<and>
    (bit_at (bloom_set k h delta bits array) p \<longleftrightarrow> bit_at array p \<or> p \<in> probes k h delta bits)"
  using assms
proof (induction k h delta bits array rule: bloom_set.induct)
  case (1 h delta bits array)
  then show ?case by (simp add: probes_def)
next
  case (2 j h delta bits array)
  let ?q = "unat h mod bits"
  have "?q < bits" using 2 by simp
  then have "?q div 8 < length array" "p div 8 < length array" using 2 by linarith+
  then have "bit_at (array[?q div 8 := array ! (?q div 8) OR 2 ^ (?q mod 8)]) p \<longleftrightarrow> bit_at array p \<or> p = ?q"
    by (rule bit_at_update)
  then show ?case using 2 by (auto simp: probes_Suc Let_def)
qed

lemma bloom_set_other:
  assumes "0 < bits" "bits \<le> 8 * i" "i < length array"
  shows "bloom_set k h delta bits array ! i = array ! i"
  using assms
proof (induction k h delta bits array rule: bloom_set.induct)
  case (2 j h delta bits array)
  have "unat h mod bits < bits" using 2 by simp
  then have "unat h mod bits div 8 < i" using 2 by linarith
  with 2 show ?case by (simp add: Let_def)
qed simp

definition key_probes :: "nat \<Rightarrow> nat \<Rightarrow> bytes \<Rightarrow> nat set" where
  "key_probes k bits key = probes k (BloomHash key) (bloom_delta (BloomHash key)) bits"

lemma fold_bloom_add:
  assumes "0 < bits" "bits \<le> 8 * i" "i < length array"
  shows "length (fold (bloom_add k bits) keys array) = length array \<and>
    fold (bloom_add k bits) keys array ! i = array ! i \<and>
    (\<forall>p < bits. bit_at (fold (bloom_add k bits) keys array) p \<longleftrightarrow>
      bit_at array p \<or> (\<exists>key \<in> set keys. p \<in> key_probes k bits key))"
  using assms
proof (induction keys arbitrary: array)
  case (Cons key keys)
  let ?a = "bloom_add k bits key array"
  have "length ?a = length array" "?a ! i = array ! i"
    and "\<forall>p < bits. bit_at ?a p \<longleftrightarrow> bit_at array p \<or> p \<in> key_probes k bits key"
    using Cons.prems bloom_set_spec [of bits array] bloom_set_other [of bits i array]
    by (auto simp: bloom_add_def Let_def key_probes_def)
  with Cons.IH [of ?a] Cons.prems show ?case by auto
qed auto


section \<open>The policy meets its contract\<close>

lemma bloom_k_bounds: "1 \<le> bloom_k (BloomFilterPolicy_new b) \<and> bloom_k (BloomFilterPolicy_new b) \<le> 30"
  by (simp add: BloomFilterPolicy_new_def Let_def)

lemma stored_k:
  assumes "k \<le> 30"
  shows "(scast (of_nat k :: u8) :: u64) = of_nat k"
proof -
  have "unat (of_nat k :: u8) = k" using assms by (simp add: unat_of_nat)
  then have "sint (of_nat k :: u8) = int k"
    using assms by (simp add: sint_u8 word_less_nat_alt uint_nat)
  then show ?thesis by (simp add: scast_eq)
qed

lemma bloom_size:
  assumes "n < 2 ^ 31" "b < 2 ^ 31"
  defines "bits1 \<equiv> (if of_nat n * of_nat b < (64 :: u64) then 64 else of_nat n * of_nat b :: u64)"
  shows "unat ((bits1 + 7) div 8 * 8) = unat ((bits1 + 7) div 8) * 8" and "8 \<le> unat ((bits1 + 7) div 8)"
proof -
  have "n * b \<le> 2 ^ 31 * 2 ^ 31" using assms(1,2) by (intro mult_le_mono) auto
  then have nb: "n * b < 2 ^ 63" by simp
  have prod: "unat (of_nat n * of_nat b :: u64) = n * b"
    using nb by (simp add: unat_of_nat flip: of_nat_mult)
  have b1: "64 \<le> unat bits1" "unat bits1 < 2 ^ 63"
    using nb by (auto simp: bits1_def word_less_nat_alt prod)
  then have "unat (bits1 + 7) = unat bits1 + 7" by (simp add: unat_word_ariths)
  then have div: "unat ((bits1 + 7) div 8) = (unat bits1 + 7) div 8" by (simp add: unat_div)
  then show "8 \<le> unat ((bits1 + 7) div 8)" using b1 by linarith
  have "(unat bits1 + 7) div 8 * 8 \<le> unat bits1 + 7" by simp
  then have "(unat bits1 + 7) div 8 * 8 < 2 ^ 64" using b1(2) by simp
  then show "unat ((bits1 + 7) div 8 * 8) = unat ((bits1 + 7) div 8) * 8"
    by (simp add: unat_word_ariths div)
qed

lemma Bloom_CreateFilter_Nil: "Bloom_CreateFilter policy keys dst = dst @ Bloom_CreateFilter policy keys []"
  by (simp add: Bloom_CreateFilter_def Let_def)

lemma Bloom_filter_spec:
  fixes keys :: "bytes list"
  assumes "length keys < 2 ^ 31" "b < 2 ^ 31"
  defines "K \<equiv> bloom_k (BloomFilterPolicy_new b)" and "F \<equiv> Bloom_CreateFilter (BloomFilterPolicy_new b) keys []"
  shows "9 \<le> length F" and "Bloom_KeyMayMatch key F \<longleftrightarrow>
    key_probes K (8 * (length F - 1)) key \<subseteq> (\<Union>k \<in> set keys. key_probes K (8 * (length F - 1)) k)"
proof -
  define bits0 :: u64 where "bits0 = of_nat (length keys) * of_nat b"
  define bits1 where "bits1 = (if bits0 < 64 then 64 else bits0)"
  define B where "B = unat ((bits1 + 7) div 8)"
  have size: "unat ((bits1 + 7) div 8 * 8) = B * 8" "8 \<le> B"
    using bloom_size [OF assms(1,2)] unfolding B_def bits1_def bits0_def by blast+
  let ?a = "replicate B 0 @ [of_nat K]"
  have bpk: "bits_per_key (BloomFilterPolicy_new b) = of_nat b" by (simp add: BloomFilterPolicy_new_def Let_def)
  have "F = fold (bloom_add K (unat ((bits1 + 7) div 8 * 8))) keys ?a"
    unfolding F_def K_def Bloom_CreateFilter_def Let_def bpk B_def bits1_def bits0_def by simp
  then have F: "F = fold (bloom_add K (B * 8)) keys ?a" unfolding size .
  have len: "length F = B + 1" and k: "F ! B = of_nat K"
    and bits: "\<And>p. p < B * 8 \<Longrightarrow> bit_at F p \<longleftrightarrow> bit_at ?a p \<or> (\<exists>key \<in> set keys. p \<in> key_probes K (B * 8) key)"
    using fold_bloom_add [of "B * 8" B ?a K keys] size(2) by (simp_all add: F nth_append)
  show "9 \<le> length F" using len size(2) by simp
  have n: "8 * (length F - 1) = B * 8" using len by simp
  have zero: "\<not> bit_at ?a p" if "p < B * 8" for p
    using that by (simp add: bit_at_def nth_append less_mult_imp_div_less)
  have below: "p < B * 8" if "p \<in> key_probes K (B * 8) key" for p
    using that size(2) by (auto simp: key_probes_def probes_def)
  have K: "K \<le> 30" using bloom_k_bounds by (simp add: K_def)
  then have "unat (of_nat K :: u64) = K" by (simp add: unat_of_nat)
  then have "Bloom_KeyMayMatch key F \<longleftrightarrow> (\<forall>p \<in> key_probes K (B * 8) key. bit_at F p)"
    using size(2) K by (simp add: Bloom_KeyMayMatch_def Let_def len k stored_k bloom_probe_iff key_probes_def
        word_less_nat_alt)
  then show "Bloom_KeyMayMatch key F \<longleftrightarrow>
    key_probes K (8 * (length F - 1)) key \<subseteq> (\<Union>k \<in> set keys. key_probes K (8 * (length F - 1)) k)"
    unfolding n using bits zero below by (auto 0 3)
qed

lemma bloom_contract: "b < 2 ^ 31 \<Longrightarrow> filter_policy (NewBloomFilterPolicy b) (\<lambda>keys. length keys < 2 ^ 31)"
proof
  show "\<exists>f. \<forall>dst. CreateFilter (NewBloomFilterPolicy b) keys dst = dst @ f" for keys
  proof (intro exI allI)
    show "CreateFilter (NewBloomFilterPolicy b) keys dst =
        dst @ Bloom_CreateFilter (BloomFilterPolicy_new b) keys []" for dst
      unfolding NewBloomFilterPolicy_def FilterPolicy.simps by (rule Bloom_CreateFilter_Nil)
  qed
  show "KeyMayMatch (NewBloomFilterPolicy b) key (CreateFilter (NewBloomFilterPolicy b) keys [])"
    if "b < 2 ^ 31" "length keys < 2 ^ 31" "key \<in> set keys" for keys key
  proof -
    have "key_probes k n key \<subseteq> (\<Union>k' \<in> set keys. key_probes k n k')" for k n
      using that(3) by blast
    then show ?thesis
      unfolding NewBloomFilterPolicy_def by (simp only: FilterPolicy.simps Bloom_filter_spec(2) [OF that(2,1)])
  qed
qed

interpretation bloom10: filter_policy "NewBloomFilterPolicy 10" "\<lambda>keys. length keys < 2 ^ 31"
  by (rule bloom_contract) simp

section \<open>Properties\<close>

text \<open>C37. The Bloom filter has no false negatives, wherever in the string it is written, and is exact on its bits: a key
  matches if and only if each of its probe positions is a probe position of some key of the set.  The filter has at least
  64 bits and stores between 1 and 30 probes.\<close>

theorem bloom_filter_exact:
  assumes "length keys < 2 ^ 31" "b < 2 ^ 31"
  shows "let K = bloom_k (BloomFilterPolicy_new b);
      F = drop (length dst) (CreateFilter (NewBloomFilterPolicy b) keys dst);
      n = 8 * (length F - 1)
    in (key \<in> set keys \<longrightarrow> KeyMayMatch (NewBloomFilterPolicy b) key F) \<and>
      (KeyMayMatch (NewBloomFilterPolicy b) key F \<longleftrightarrow>
        key_probes K n key \<subseteq> (\<Union>k \<in> set keys. key_probes K n k)) \<and>
      64 \<le> n \<and> 1 \<le> K \<and> K \<le> 30"
proof -
  define F where "F = Bloom_CreateFilter (BloomFilterPolicy_new b) keys []"
  have F: "drop (length dst) (CreateFilter (NewBloomFilterPolicy b) keys dst) = F"
    unfolding F_def NewBloomFilterPolicy_def by (simp add: Bloom_CreateFilter_Nil [of _ keys dst])
  have "64 \<le> 8 * (length F - 1)" using Bloom_filter_spec(1) [OF assms, folded F_def] by linarith
  moreover have "key_probes k n key \<subseteq> (\<Union>k' \<in> set keys. key_probes k n k')" if "key \<in> set keys" for k n
    using that by blast
  moreover have "KeyMayMatch (NewBloomFilterPolicy b) = Bloom_KeyMayMatch" by (simp add: NewBloomFilterPolicy_def)
  ultimately show ?thesis
    unfolding F Let_def using Bloom_filter_spec(2) [OF assms, of key, folded F_def] bloom_k_bounds [of b] by simp
qed

theorem bloom_filter_exact_witness:
  "KeyMayMatch (NewBloomFilterPolicy 10) [104, 105]
     (drop (length [1, 2 :: u8]) (CreateFilter (NewBloomFilterPolicy 10) [[104], [104, 105]] [1, 2]))"
  using bloom_filter_exact [of "[[104], [104, 105]]" 10 "[1, 2]" "[104, 105]"] by (simp add: Let_def)

end
