(* ===== verification/Logging.thy ===== *)
theory Logging
  imports Prelude
begin

text \<open>
  \<^verbatim>\<open>util/logging.h\<close> and \<^verbatim>\<open>util/logging.cc\<close>: printing and parsing of decimal numbers, and escaping of
  byte strings for messages.  \<open>decimal\<close> is what \<^verbatim>\<open>snprintf\<close> writes for \<^verbatim>\<open>%llu\<close>, \<open>hex_digit\<close> a digit of
  \<^verbatim>\<open>%02x\<close>; the buffers of 30 and 10 characters are long enough for both.
\<close>

function decimal :: "nat \<Rightarrow> bytes" where
  "decimal n = (if n < 10 then [of_nat (48 + n)] else decimal (n div 10) @ [of_nat (48 + n mod 10)])"
  by pat_completeness auto
termination
  by (relation "measure id") auto

declare decimal.simps [simp del]

definition hex_digit :: "nat \<Rightarrow> u8" where
  "hex_digit d = of_nat (if d < 10 then 48 + d else 87 + d)"

definition AppendNumberTo :: "bytes \<Rightarrow> u64 \<Rightarrow> bytes" where
  "AppendNumberTo str num = str @ decimal (unat num)"

text \<open>The characters are signed, so bytes from 128 on are below the space.\<close>

fun AppendEscapedStringTo :: "bytes \<Rightarrow> bytes \<Rightarrow> bytes" where
  "AppendEscapedStringTo str [] = str"
| "AppendEscapedStringTo str (c # value) =
     (if 32 \<le> sint c \<and> sint c \<le> 126 then AppendEscapedStringTo (str @ [c]) value
      else AppendEscapedStringTo
             (str @ [92, 120, hex_digit (unat c div 16), hex_digit (unat c mod 16)]) value)"

definition NumberToString :: "u64 \<Rightarrow> bytes" where
  "NumberToString num = AppendNumberTo [] num"

definition EscapeString :: "bytes \<Rightarrow> bytes" where
  "EscapeString value = AppendEscapedStringTo [] value"

definition kMaxUint64 :: u64 where
  "kMaxUint64 = 18446744073709551615"

definition kLastDigitOfMaxUint64 :: u8 where
  "kLastDigitOfMaxUint64 = 48 + ucast (kMaxUint64 mod 10)"

text \<open>The loop over the digits: \<open>None\<close> on overflow, otherwise the value and the number of digits.\<close>

fun ConsumeDecimalNumber_loop :: "u64 \<Rightarrow> nat \<Rightarrow> bytes \<Rightarrow> (u64 \<times> nat) option" where
  "ConsumeDecimalNumber_loop value n [] = Some (value, n)"
| "ConsumeDecimalNumber_loop value n (ch # current) =
     (if ch < 48 \<or> 57 < ch then Some (value, n)
      else if kMaxUint64 div 10 < value \<or> value = kMaxUint64 div 10 \<and> kLastDigitOfMaxUint64 < ch
        then None
      else ConsumeDecimalNumber_loop (value * 10 + ucast (ch - 48)) (n + 1) current)"

text \<open>\<^verbatim>\<open>*in\<close> and \<^verbatim>\<open>*val\<close> are passed in and returned after the boolean result.\<close>

definition ConsumeDecimalNumber :: "bytes \<Rightarrow> u64 \<Rightarrow> bool \<times> u64 \<times> bytes" where
  "ConsumeDecimalNumber inp val =
     (case ConsumeDecimalNumber_loop 0 0 inp of
        None \<Rightarrow> (False, val, inp)
      | Some (value, digits_consumed) \<Rightarrow>
          (digits_consumed \<noteq> 0, value, drop digits_consumed inp))"

section \<open>Reference\<close>

abbreviation is_digit :: "u8 \<Rightarrow> bool" where
  "is_digit ch \<equiv> 48 \<le> ch \<and> ch \<le> 57"

definition digits_value :: "nat \<Rightarrow> bytes \<Rightarrow> nat" where
  "digits_value v ds = foldl (\<lambda>v d. v * 10 + (unat d - 48)) v ds"

lemma digits_value_simps [simp]:
  "digits_value v [] = v"
  "digits_value v (d # ds) = digits_value (v * 10 + (unat d - 48)) ds"
  "digits_value v (ds @ es) = digits_value (digits_value v ds) es"
  by (simp_all add: digits_value_def)

lemma digits_value_ge: "v \<le> digits_value v ds"
proof (induction ds arbitrary: v)
  case (Cons d ds)
  show ?case using Cons [of "v * 10 + (unat d - 48)"] by simp
qed simp

lemma digit_unat: "is_digit ch \<Longrightarrow> unat (ch - 48) = unat ch - 48"
  by (simp add: word_le_nat_alt unat_sub)

text \<open>The overflow check is exact.\<close>

lemma overflow_check:
  assumes "is_digit ch"
  shows "(kMaxUint64 div 10 < v \<or> v = kMaxUint64 div 10 \<and> kLastDigitOfMaxUint64 < ch) \<longleftrightarrow>
    2 ^ 64 \<le> unat v * 10 + (unat ch - 48)"
proof -
  have c: "unat (kMaxUint64 div 10) = 1844674407370955161" "unat kLastDigitOfMaxUint64 = 53"
    by (simp_all add: kMaxUint64_def kLastDigitOfMaxUint64_def)
  have ch: "48 \<le> unat ch" "unat ch \<le> 57" using assms by (simp_all add: word_le_nat_alt)
  have "v = kMaxUint64 div 10 \<longleftrightarrow> unat v = unat (kMaxUint64 div 10)" by (simp add: word_unat_eq_iff)
  then show ?thesis
    unfolding word_less_nat_alt c using ch by auto
qed

lemma next_value:
  assumes "is_digit ch" "unat (v :: u64) * 10 + (unat ch - 48) < 2 ^ 64"
  shows "unat (v * 10 + ucast (ch - 48)) = unat v * 10 + (unat ch - 48)"
proof -
  have "unat (ucast (ch - 48) :: u64) = unat ch - 48"
    using digit_unat [OF assms(1)] by (simp add: unat_ucast_up)
  then show ?thesis using assms(2) by (simp add: unat_word_ariths)
qed


lemma ConsumeDecimalNumber_loop_spec:
  "ConsumeDecimalNumber_loop v n inp =
     (if digits_value (unat v) (takeWhile is_digit inp) < 2 ^ 64
      then Some (of_nat (digits_value (unat v) (takeWhile is_digit inp)), n + length (takeWhile is_digit inp))
      else None)"
proof (induction v n inp rule: ConsumeDecimalNumber_loop.induct)
  case (1 v n)
  have "unat v < 2 ^ 64" using unsigned_less [of v, where 'a = nat] by simp
  then show ?case by simp
next
  case (2 v n ch current)
  show ?case
  proof (cases "is_digit ch")
    case False
    have "unat v < 2 ^ 64" using unsigned_less [of v, where 'a = nat] by simp
    with False show ?thesis by (auto simp: not_le)
  next
    case digit: True
    let ?w = "unat v * 10 + (unat ch - 48)"
    show ?thesis
    proof (cases "2 ^ 64 \<le> ?w")
      case True
      then have "\<not> digits_value ?w (takeWhile is_digit current) < 2 ^ 64"
        using digits_value_ge [of ?w "takeWhile is_digit current"] by linarith
      then show ?thesis using digit True overflow_check [OF digit, of v] by (auto simp: not_less)
    next
      case False
      then have chk: "\<not> (kMaxUint64 div 10 < v \<or> v = kMaxUint64 div 10 \<and> kLastDigitOfMaxUint64 < ch)"
        using overflow_check [OF digit, of v] by blast
      have nd: "\<not> (ch < 48 \<or> 57 < ch)" using digit by (auto simp: not_less)
      have "unat (v * 10 + ucast (ch - 48)) = ?w" using next_value [OF digit] False by simp
      moreover have "ConsumeDecimalNumber_loop v n (ch # current) =
          ConsumeDecimalNumber_loop (v * 10 + ucast (ch - 48)) (n + 1) current"
        using nd chk by (simp only: ConsumeDecimalNumber_loop.simps if_False)
      ultimately show ?thesis using 2 [OF nd chk] digit by simp
    qed
  qed
qed

lemma digit_char: "k < 10 \<Longrightarrow> unat (of_nat (48 + k) :: u8) = 48 + k"
  by (simp add: unat_of_nat del: of_nat_add)

lemma decimal_not_Nil: "decimal n \<noteq> []"
  by (simp add: decimal.simps [of n])

lemma decimal_digits: "\<forall>d \<in> set (decimal n). is_digit d"
proof (induction n rule: decimal.induct)
  case (1 n)
  have d: "is_digit (of_nat (48 + k))" if "k < 10" for k
    using digit_char [OF that] that by (simp add: word_le_nat_alt del: of_nat_add)
  show ?case
    using 1 d [of n] d [of "n mod 10"] by (simp add: decimal.simps [of n] del: of_nat_add)
qed

lemma decimal_value: "digits_value 0 (decimal n) = n"
proof (induction n rule: decimal.induct)
  case (1 n)
  show ?case
    using 1 digit_char [of n] digit_char [of "n mod 10"] by (simp add: decimal.simps [of n] del: of_nat_add)
qed

lemma printable_signed: "32 \<le> sint c \<and> sint c \<le> 126 \<longleftrightarrow> 32 \<le> c \<and> c \<le> (126 :: u8)"
proof -
  have "uint c < 256" using unsigned_less [of c, where 'a = int] by simp
  then show ?thesis by (auto simp: sint_u8 word_less_def word_le_def)
qed

definition escape_byte :: "u8 \<Rightarrow> bytes" where
  "escape_byte c = (if 32 \<le> c \<and> c \<le> 126 then [c]
     else [92, 120, hex_digit (unat c div 16), hex_digit (unat c mod 16)])"

lemma AppendEscapedStringTo_concat: "AppendEscapedStringTo str v = str @ concat (map escape_byte v)"
  by (induction str v rule: AppendEscapedStringTo.induct)
    (simp_all add: printable_signed escape_byte_def)

lemma hex_digit_printable: "d < 16 \<Longrightarrow> 32 \<le> hex_digit d \<and> hex_digit d \<le> 126"
  by (auto simp: hex_digit_def word_le_nat_alt unat_of_nat simp del: of_nat_add)

section \<open>Properties\<close>

text \<open>\<open>ConsumeDecimalNumber\<close> is exact: with \<open>ds\<close> the digits at the start of the input, it fails without
  changing anything if their value does not fit in 64 bits, and otherwise stores the value, removes the digits
  and reports whether there were any.  It reads back every number \<open>NumberToString\<close> prints.\<close>

theorem consume_decimal_exact:
  "ConsumeDecimalNumber inp val =
     (let ds = takeWhile is_digit inp; v = digits_value 0 ds
      in if v < 2 ^ 64 then (ds \<noteq> [], of_nat v, drop (length ds) inp) else (False, val, inp)) \<and>
   ConsumeDecimalNumber (NumberToString num) val = (True, num, []) \<and>
   (is_digit c \<or> ConsumeDecimalNumber (NumberToString num @ c # rest) val = (True, num, c # rest))"
proof -
  have spec: "ConsumeDecimalNumber inp val =
     (let ds = takeWhile is_digit inp; v = digits_value 0 ds
      in if v < 2 ^ 64 then (ds \<noteq> [], of_nat v, drop (length ds) inp) else (False, val, inp))" for inp
    by (simp add: ConsumeDecimalNumber_def ConsumeDecimalNumber_loop_spec Let_def)
  have n: "NumberToString num = decimal (unat num)"
    by (simp add: NumberToString_def AppendNumberTo_def)
  have v: "unat num < 2 ^ 64" using unsigned_less [of num, where 'a = nat] by simp
  have t: "takeWhile is_digit (decimal (unat num) @ r) = decimal (unat num) @ takeWhile is_digit r" for r
    using decimal_digits by (intro takeWhile_append2) auto
  show ?thesis
    using v unfolding spec n Let_def t t [of "[]", unfolded append_Nil2 takeWhile.simps(1)]
    by (auto simp: decimal_value decimal_not_Nil)
qed

text \<open>\<open>EscapeString\<close> yields printable characters only; it copies printable characters and writes every other
  byte as a backslash, an x and its two hexadecimal digits.\<close>

theorem escape_string_printable:
  "list_all (\<lambda>c. 32 \<le> c \<and> c \<le> 126) (EscapeString msg) \<and>
   EscapeString msg = concat (map escape_byte msg)"
proof -
  have "list_all (\<lambda>c. 32 \<le> c \<and> c \<le> 126) (escape_byte c)" for c
  proof -
    have "unat c < 256" using unsigned_less [of c, where 'a = nat] by simp
    then have "unat c div 16 < 16" "unat c mod 16 < 16" by auto
    then show ?thesis by (simp add: escape_byte_def hex_digit_printable)
  qed
  then have "list_all (\<lambda>c. 32 \<le> c \<and> c \<le> 126) (concat (map escape_byte msg))"
    by (induction msg) auto
  then show ?thesis by (simp add: EscapeString_def AppendEscapedStringTo_concat)
qed

end
