(* ===== verification/Dbformat.thy ===== *)
theory Dbformat
  imports Coding Comparator Bloom Logging
begin

text \<open>
  \<^verbatim>\<open>db/dbformat.h\<close> and \<^verbatim>\<open>db/dbformat.cc\<close>: internal keys, that is user keys followed by eight bytes with a
  sequence number and a value type, their comparator, the key a lookup starts from, and the filter policy on
  internal keys.

  A \<^verbatim>\<open>ValueType\<close> is the byte it is cast from.  \<open>PackSequenceAndType\<close> is \<open>None\<close> where its assertions fail, and
  so are its callers.  \<open>ExtractUserKey\<close> asserts that a key has eight bytes; its model is total and the
  statements about it ask for such a key.
\<close>

type_synonym ValueType = u8
type_synonym SequenceNumber = u64

definition kTypeDeletion :: ValueType where "kTypeDeletion = 0"
definition kTypeValue :: ValueType where "kTypeValue = 1"
definition kValueTypeForSeek :: ValueType where "kValueTypeForSeek = kTypeValue"
definition kMaxSequenceNumber :: SequenceNumber where "kMaxSequenceNumber = push_bit 56 1 - 1"

lemmas type_defs = kTypeDeletion_def kTypeValue_def kValueTypeForSeek_def

record ParsedInternalKey =
  pk_user_key :: bytes
  pk_sequence :: SequenceNumber
  pk_type :: ValueType

definition InternalKeyEncodingLength :: "ParsedInternalKey \<Rightarrow> nat" where
  "InternalKeyEncodingLength key = length (pk_user_key key) + 8"

definition PackSequenceAndType :: "u64 \<Rightarrow> ValueType \<Rightarrow> u64 option" where
  "PackSequenceAndType seq t =
     (if seq \<le> kMaxSequenceNumber \<and> t \<le> kValueTypeForSeek then Some (push_bit 8 seq OR ucast t) else None)"

definition AppendInternalKey :: "bytes \<Rightarrow> ParsedInternalKey \<Rightarrow> bytes option" where
  "AppendInternalKey result key =
     map_option (\<lambda>tag. PutFixed64 (result @ pk_user_key key) tag)
       (PackSequenceAndType (pk_sequence key) (pk_type key))"

text \<open>\<open>ParseInternalKey\<close> returns its boolean result and the record it has filled in.\<close>

definition ParseInternalKey :: "bytes \<Rightarrow> ParsedInternalKey \<Rightarrow> bool \<times> ParsedInternalKey" where
  "ParseInternalKey internal_key result =
     (let n = length internal_key in
      if n < 8 then (False, result)
      else
        let num = DecodeFixed64 (drop (n - 8) internal_key);
            c = (ucast (num AND 255) :: u8)
        in (c \<le> kTypeValue,
            \<lparr>pk_user_key = take (n - 8) internal_key, pk_sequence = drop_bit 8 num, pk_type = c\<rparr>))"

definition ExtractUserKey :: "bytes \<Rightarrow> bytes" where
  "ExtractUserKey internal_key = take (length internal_key - 8) internal_key"

definition ParsedInternalKey_DebugString :: "ParsedInternalKey \<Rightarrow> bytes" where
  "ParsedInternalKey_DebugString k =
     ascii [CHR 0x27] @ EscapeString (pk_user_key k) @ ascii (CHR 0x27 # '' @ '') @
     decimal (unat (pk_sequence k)) @ ascii '' : '' @ decimal (unat (pk_type k))"

section \<open>Internal keys as strings\<close>

text \<open>An \<^verbatim>\<open>InternalKey\<close> is its field \<^verbatim>\<open>rep_\<close>.\<close>

definition InternalKey_new :: "bytes \<Rightarrow> SequenceNumber \<Rightarrow> ValueType \<Rightarrow> bytes option" where
  "InternalKey_new user_key s t =
     AppendInternalKey [] \<lparr>pk_user_key = user_key, pk_sequence = s, pk_type = t\<rparr>"

definition InternalKey_DecodeFrom :: "bytes \<Rightarrow> bool \<times> bytes" where
  "InternalKey_DecodeFrom s = (s \<noteq> [], s)"

definition InternalKey_Encode :: "bytes \<Rightarrow> bytes option" where
  "InternalKey_Encode rep = (if rep = [] then None else Some rep)"

definition InternalKey_user_key :: "bytes \<Rightarrow> bytes" where
  "InternalKey_user_key rep = ExtractUserKey rep"

definition InternalKey_SetFrom :: "ParsedInternalKey \<Rightarrow> bytes option" where
  "InternalKey_SetFrom p = AppendInternalKey [] p"

definition InternalKey_DebugString :: "bytes \<Rightarrow> bytes" where
  "InternalKey_DebugString rep =
     (let (ok, parsed) = ParseInternalKey rep \<lparr>pk_user_key = [], pk_sequence = 0, pk_type = 0\<rparr>
      in if ok then ParsedInternalKey_DebugString parsed
         else ascii ''(bad)'' @ EscapeString rep)"

section \<open>The comparator on internal keys\<close>

definition IKC_Compare :: "Comparator \<Rightarrow> bytes \<Rightarrow> bytes \<Rightarrow> int" where
  "IKC_Compare user_comparator akey bkey =
     (let r = Compare user_comparator (ExtractUserKey akey) (ExtractUserKey bkey) in
      if r = 0 then
        let anum = DecodeFixed64 (drop (length akey - 8) akey);
            bnum = DecodeFixed64 (drop (length bkey - 8) bkey)
        in if anum > bnum then -1 else if anum < bnum then 1 else r
      else r)"

definition IKC_FindShortestSeparator :: "Comparator \<Rightarrow> bytes \<Rightarrow> bytes \<Rightarrow> bytes option" where
  "IKC_FindShortestSeparator user_comparator start limit =
     (let user_start = ExtractUserKey start;
          user_limit = ExtractUserKey limit;
          tmp = FindShortestSeparator user_comparator user_start user_limit
      in if length tmp < length user_start \<and> Compare user_comparator user_start tmp < 0 then
           (case PackSequenceAndType kMaxSequenceNumber kValueTypeForSeek of
              None \<Rightarrow> None
            | Some tag \<Rightarrow>
                let tmp' = PutFixed64 tmp tag in
                if IKC_Compare user_comparator start tmp' < 0 \<and> IKC_Compare user_comparator tmp' limit < 0
                then Some tmp' else None)
         else Some start)"

definition IKC_FindShortSuccessor :: "Comparator \<Rightarrow> bytes \<Rightarrow> bytes option" where
  "IKC_FindShortSuccessor user_comparator key =
     (let user_key = ExtractUserKey key;
          tmp = FindShortSuccessor user_comparator user_key
      in if length tmp < length user_key \<and> Compare user_comparator user_key tmp < 0 then
           (case PackSequenceAndType kMaxSequenceNumber kValueTypeForSeek of
              None \<Rightarrow> None
            | Some tag \<Rightarrow>
                let tmp' = PutFixed64 tmp tag in
                if IKC_Compare user_comparator key tmp' < 0 then Some tmp' else None)
         else Some key)"

text \<open>The overload on \<^verbatim>\<open>InternalKey\<close> asserts that neither key is empty.\<close>

definition IKC_Compare_InternalKey :: "Comparator \<Rightarrow> bytes \<Rightarrow> bytes \<Rightarrow> int option" where
  "IKC_Compare_InternalKey user_comparator a b =
     (case (InternalKey_Encode a, InternalKey_Encode b) of
        (Some x, Some y) \<Rightarrow> Some (IKC_Compare user_comparator x y)
      | _ \<Rightarrow> None)"

section \<open>The filter policy on internal keys\<close>

definition InternalFilterPolicy_CreateFilter :: "FilterPolicy \<Rightarrow> bytes list \<Rightarrow> bytes \<Rightarrow> bytes" where
  "InternalFilterPolicy_CreateFilter user_policy keys dst =
     CreateFilter user_policy (map ExtractUserKey keys) dst"

definition InternalFilterPolicy_KeyMayMatch :: "FilterPolicy \<Rightarrow> bytes \<Rightarrow> bytes \<Rightarrow> bool" where
  "InternalFilterPolicy_KeyMayMatch user_policy key f = KeyMayMatch user_policy (ExtractUserKey key) f"

definition InternalFilterPolicy :: "FilterPolicy \<Rightarrow> FilterPolicy" where
  "InternalFilterPolicy user_policy =
     \<lparr>CreateFilter = InternalFilterPolicy_CreateFilter user_policy,
      KeyMayMatch = InternalFilterPolicy_KeyMayMatch user_policy\<rparr>"

section \<open>Lookup keys\<close>

text \<open>The array from \<^verbatim>\<open>start_\<close> to \<^verbatim>\<open>end_\<close>, and the offset of \<^verbatim>\<open>kstart_\<close> in it.\<close>

record LookupKey =
  lk_array :: bytes
  lk_kstart :: nat

definition LookupKey_new :: "bytes \<Rightarrow> SequenceNumber \<Rightarrow> LookupKey option" where
  "LookupKey_new user_key s =
     (let usize = length user_key;
          prefix = EncodeVarint32 (of_nat (usize + 8))
      in map_option (\<lambda>tag. \<lparr>lk_array = prefix @ user_key @ EncodeFixed64 tag, lk_kstart = length prefix\<rparr>)
           (PackSequenceAndType s kValueTypeForSeek))"

definition LookupKey_memtable_key :: "LookupKey \<Rightarrow> bytes" where
  "LookupKey_memtable_key k = lk_array k"

definition LookupKey_internal_key :: "LookupKey \<Rightarrow> bytes" where
  "LookupKey_internal_key k = drop (lk_kstart k) (lk_array k)"

definition LookupKey_user_key :: "LookupKey \<Rightarrow> bytes" where
  "LookupKey_user_key k = take (length (lk_array k) - lk_kstart k - 8) (drop (lk_kstart k) (lk_array k))"


section \<open>Lemmas\<close>

text \<open>The tag of an internal key: what \<open>PackSequenceAndType\<close> packs, and how its parts are read back.\<close>

definition pack :: "u64 \<Rightarrow> ValueType \<Rightarrow> u64" where
  "pack seq t = push_bit 8 seq OR ucast t"

definition valid_tag :: "u64 \<Rightarrow> ValueType \<Rightarrow> bool" where
  "valid_tag seq t \<longleftrightarrow> seq \<le> kMaxSequenceNumber \<and> t \<le> kTypeValue"

lemma PackSequenceAndType_pack: "PackSequenceAndType seq t = (if valid_tag seq t then Some (pack seq t) else None)"
  by (simp add: PackSequenceAndType_def valid_tag_def pack_def kValueTypeForSeek_def)

lemma valid_tag_seek: "valid_tag kMaxSequenceNumber kValueTypeForSeek"
  by (simp add: valid_tag_def kValueTypeForSeek_def)

lemma max_sequence: "seq \<le> kMaxSequenceNumber \<longleftrightarrow> unat seq < 2 ^ 56"
  by (auto simp: kMaxSequenceNumber_def push_bit_eq_mult word_le_nat_alt)

lemma pack_type: "ucast (pack seq t AND 255) = t"
  by (rule bit_word_eqI) (auto simp: pack_def bits)

lemma pack_sequence:
  assumes "seq \<le> kMaxSequenceNumber"
  shows "drop_bit 8 (pack seq t) = seq"
proof (rule bit_word_eqI)
  fix n assume "n < LENGTH(64)"
  have "\<not> bit seq n" if "56 \<le> n"
    using assms that bit_less_exp [of seq 56 n] by (simp add: max_sequence)
  then show "bit (drop_bit 8 (pack seq t)) n = bit seq n"
    by (cases "n < 56") (auto simp: pack_def bits dest: bit_imp_le_length)
qed

lemma unat_pack:
  assumes "seq \<le> kMaxSequenceNumber"
  shows "unat (pack seq t) = unat seq * 256 + unat t"
proof -
  have "pack seq t = push_bit 8 seq + ucast t"
    unfolding pack_def
    by (rule disjunctive_add_eq_or [symmetric]) (auto intro!: bit_word_eqI simp: bits bit_beyond_length)
  moreover have "unat (push_bit 8 seq) = unat seq * 256"
    using assms by (simp add: max_sequence push_bit_eq_mult unat_word_ariths)
  moreover have "unat t < 256" using unsigned_less [of t, where 'a = nat] by simp
  ultimately show ?thesis
    using assms by (simp add: max_sequence unat_word_ariths unat_ucast_up)
qed

lemma pack_less_iff:
  assumes "a \<le> kMaxSequenceNumber" "b \<le> kMaxSequenceNumber"
  shows "pack a s < pack b t \<longleftrightarrow> a < b \<or> a = b \<and> s < t"
proof -
  have "unat s < 256" "unat t < 256"
    using unsigned_less [of s, where 'a = nat] unsigned_less [of t, where 'a = nat] by simp_all
  then have "unat a * 256 + unat s < unat b * 256 + unat t \<longleftrightarrow> unat a < unat b \<or> unat a = unat b \<and> unat s < unat t"
    by linarith
  then show ?thesis
    using assms by (simp add: word_less_nat_alt unat_pack word_unat_eq_iff)
qed

lemma ExtractUserKey_append [simp]: "ExtractUserKey (u @ EncodeFixed64 tag) = u"
  by (simp add: ExtractUserKey_def)

lemma drop_tag [simp]: "drop (length (u @ EncodeFixed64 tag) - 8) (u @ EncodeFixed64 tag) = EncodeFixed64 tag"
  by simp

lemma IKC_Compare_encoded:
  "IKC_Compare uc (u @ EncodeFixed64 s) (v @ EncodeFixed64 t) =
     (if Compare uc u v = 0 then if s > t then -1 else if s < t then 1 else 0 else Compare uc u v)"
  by (simp add: IKC_Compare_def Let_def)

lemma IKC_three_way: "three_way (Compare uc) \<Longrightarrow> three_way (IKC_Compare uc)"
  using three_way.lexicographic [of "Compare uc" ExtractUserKey "\<lambda>k. DecodeFixed64 (drop (length k - 8) k)"]
  by (simp add: IKC_Compare_def [abs_def] Let_def cong: if_cong)

lemma InternalFilterPolicy_contract:
  assumes "filter_policy user_policy valid"
  shows "filter_policy (InternalFilterPolicy user_policy) (\<lambda>keys. valid (map ExtractUserKey keys))"
proof
  show "\<exists>f. \<forall>dst. CreateFilter (InternalFilterPolicy user_policy) keys dst = dst @ f" for keys
    using filter_policy.create_appends [OF assms]
    by (simp add: InternalFilterPolicy_def InternalFilterPolicy_CreateFilter_def)
  show "KeyMayMatch (InternalFilterPolicy user_policy) key (CreateFilter (InternalFilterPolicy user_policy) keys [])"
    if "valid (map ExtractUserKey keys)" "key \<in> set keys" for keys key
    using filter_policy.no_false_negative [OF assms, of "map ExtractUserKey keys" "ExtractUserKey key"] that
    by (simp add: InternalFilterPolicy_def InternalFilterPolicy_CreateFilter_def
        InternalFilterPolicy_KeyMayMatch_def)
qed


section \<open>Properties\<close>

text \<open>Internal keys are read back as they were written: parsing what \<open>AppendInternalKey\<close> appended to an empty
  string yields the same user key, sequence number and type.  \<open>AppendInternalKey\<close> stops at an assertion exactly if the
  sequence number does not fit in 56 bits or the type is unknown.\<close>

theorem internal_key_roundtrip:
  "(case AppendInternalKey [] key of
      None \<Rightarrow> kMaxSequenceNumber < pk_sequence key \<or> kTypeValue < pk_type key
    | Some rep \<Rightarrow> pk_sequence key \<le> kMaxSequenceNumber \<and> pk_type key \<le> kTypeValue \<and>
        length rep = InternalKeyEncodingLength key \<and>
        ParseInternalKey rep old = (True, key) \<and> ExtractUserKey rep = pk_user_key key)"
proof (cases "valid_tag (pk_sequence key) (pk_type key)")
  case True
  then show ?thesis
    by (auto simp: AppendInternalKey_def PackSequenceAndType_pack PutFixed64_def ParseInternalKey_def Let_def
        pack_type pack_sequence InternalKeyEncodingLength_def valid_tag_def)
next
  case False
  then show ?thesis
    by (auto simp: AppendInternalKey_def PackSequenceAndType_pack valid_tag_def not_le)
qed

text \<open>C36. Internal keys are ordered by ascending user key and then by descending sequence number and type, for a user
  comparator that meets its contract; the internal comparator then meets the contract too, and two internal keys
  compare equal only if their user keys do and sequence number and type are the same.\<close>

theorem internal_key_order:
  assumes "three_way (Compare uc)"
    and "AppendInternalKey [] a = Some x" "AppendInternalKey [] b = Some y"
  shows "three_way (IKC_Compare uc) \<and>
    (IKC_Compare uc x y < 0 \<longleftrightarrow>
      Compare uc (pk_user_key a) (pk_user_key b) < 0 \<or>
      Compare uc (pk_user_key a) (pk_user_key b) = 0 \<and>
        (pk_sequence b < pk_sequence a \<or> pk_sequence a = pk_sequence b \<and> pk_type b < pk_type a)) \<and>
    (IKC_Compare uc x y = 0 \<longleftrightarrow>
      Compare uc (pk_user_key a) (pk_user_key b) = 0 \<and> pk_sequence a = pk_sequence b \<and> pk_type a = pk_type b)"
proof -
  have va: "pk_sequence a \<le> kMaxSequenceNumber" "x = pk_user_key a @ EncodeFixed64 (pack (pk_sequence a) (pk_type a))"
    and vb: "pk_sequence b \<le> kMaxSequenceNumber" "y = pk_user_key b @ EncodeFixed64 (pack (pk_sequence b) (pk_type b))"
    using assms(2,3)
    by (auto simp: AppendInternalKey_def PackSequenceAndType_pack PutFixed64_def valid_tag_def split: if_splits)
  show ?thesis
    using IKC_three_way [OF assms(1)] pack_less_iff [OF va(1) vb(1)] pack_less_iff [OF vb(1) va(1)]
    unfolding va(2) vb(2) IKC_Compare_encoded by auto
qed

theorem internal_key_order_witness:
  "\<exists>x y. InternalKey_new [97] 5 kTypeValue = Some x \<and> InternalKey_new [97] 3 kTypeValue = Some y \<and>
    IKC_Compare reference_comparator x y < 0"
proof -
  let ?k = "\<lambda>s. \<lparr>pk_user_key = [97], pk_sequence = s, pk_type = kTypeValue\<rparr>"
  have "AppendInternalKey [] (?k 5) = Some ([97] @ EncodeFixed64 (pack 5 kTypeValue))"
    "AppendInternalKey [] (?k 3) = Some ([97] @ EncodeFixed64 (pack 3 kTypeValue))"
    by (simp_all add: AppendInternalKey_def PackSequenceAndType_pack valid_tag_def kMaxSequenceNumber_def PutFixed64_def
        push_bit_eq_mult)
  from internal_key_order [OF reference.three_way_axioms this] this show ?thesis
    by (auto simp: InternalKey_new_def reference_comparator_def)
qed


text \<open>Shortening internal keys.  For a user comparator that orders keys and shortens them as documented, applied to
  internal keys whose user keys are in order: no assertion fails, the separator is not below \<open>start\<close> and below \<open>limit\<close>,
  the successor is not below the key, and neither is longer than the original.\<close>

theorem internal_key_shortening:
  assumes "key_shortening (Compare uc) (FindShortestSeparator uc) (FindShortSuccessor uc)"
    and "8 \<le> length start" "8 \<le> length limit"
    and "Compare uc (ExtractUserKey start) (ExtractUserKey limit) < 0"
  shows "\<exists>sep succ. IKC_FindShortestSeparator uc start limit = Some sep \<and>
    IKC_FindShortSuccessor uc start = Some succ \<and>
    (sep = start \<or> IKC_Compare uc start sep < 0) \<and> IKC_Compare uc sep limit < 0 \<and> length sep \<le> length start \<and>
    (succ = start \<or> IKC_Compare uc start succ < 0) \<and> length succ \<le> length start"
proof -
  let ?u = "ExtractUserKey start" and ?l = "ExtractUserKey limit"
  let ?t = "FindShortestSeparator uc ?u ?l" and ?s = "FindShortSuccessor uc ?u"
  let ?tag = "EncodeFixed64 (pack kMaxSequenceNumber kValueTypeForSeek)"
  have len: "length ?u + 8 = length start" using assms(2) by (simp add: ExtractUserKey_def)
  have t: "Compare uc ?t ?l < 0" using key_shortening.sep_between [OF assms(1,4)] by simp
  have user: "Compare uc (ExtractUserKey a) (ExtractUserKey b) < 0 \<Longrightarrow> IKC_Compare uc a b < 0" for a b
    by (simp add: IKC_Compare_def)
  have sep: "\<exists>sep. IKC_FindShortestSeparator uc start limit = Some sep \<and>
    (sep = start \<or> IKC_Compare uc start sep < 0) \<and> IKC_Compare uc sep limit < 0 \<and> length sep \<le> length start"
  proof (cases "length ?t < length ?u \<and> Compare uc ?u ?t < 0")
    case True
    then have "IKC_Compare uc start (?t @ ?tag) < 0" "IKC_Compare uc (?t @ ?tag) limit < 0"
      using t by (auto intro: user)
    then show ?thesis using True len
      by (simp add: IKC_FindShortestSeparator_def Let_def PackSequenceAndType_pack valid_tag_seek PutFixed64_def)
  next
    case False
    then show ?thesis using user [OF assms(4)] by (auto simp: IKC_FindShortestSeparator_def Let_def)
  qed
  have succ: "\<exists>succ. IKC_FindShortSuccessor uc start = Some succ \<and>
    (succ = start \<or> IKC_Compare uc start succ < 0) \<and> length succ \<le> length start"
  proof (cases "length ?s < length ?u \<and> Compare uc ?u ?s < 0")
    case True
    then have "IKC_Compare uc start (?s @ ?tag) < 0" by (auto intro: user)
    then show ?thesis using True len
      by (simp add: IKC_FindShortSuccessor_def Let_def PackSequenceAndType_pack valid_tag_seek PutFixed64_def)
  next
    case False
    then show ?thesis by (auto simp: IKC_FindShortSuccessor_def Let_def)
  qed
  from sep succ show ?thesis by blast
qed

theorem internal_key_shortening_witness:
  "\<exists>sep. IKC_FindShortestSeparator BytewiseComparator ([97, 98, 99] @ EncodeFixed64 7) ([97, 102] @ EncodeFixed64 9)
      = Some sep \<and> length sep \<le> 11"
proof -
  have "key_shortening (Compare BytewiseComparator) (FindShortestSeparator BytewiseComparator)
      (FindShortSuccessor BytewiseComparator)"
    using bytewise_keys.key_shortening_axioms by (simp add: BytewiseComparator_def)
  moreover have "Compare BytewiseComparator (ExtractUserKey ([97, 98, 99] @ EncodeFixed64 7))
      (ExtractUserKey ([97, 102] @ EncodeFixed64 9)) < 0"
    unfolding ExtractUserKey_append by (simp add: BytewiseComparator_def Bytewise_Compare_def Slice_compare_less_iff)
  ultimately show ?thesis
    using internal_key_shortening [of BytewiseComparator "[97, 98, 99] @ EncodeFixed64 7" "[97, 102] @ EncodeFixed64 9"]
    by auto
qed

text \<open>A lookup key holds the length-prefixed internal key of the user key with the given sequence number, and its
  three views are consistent.  The array never needs more than the \<open>usize + 13\<close> bytes that are reserved for it, of which
  the first 200 fit in the object.\<close>

theorem lookup_key_layout:
  assumes "length u + 8 < 2 ^ 32" "s \<le> kMaxSequenceNumber"
  shows "\<exists>k. LookupKey_new u s = Some k \<and>
    LookupKey_memtable_key k = PutLengthPrefixedSlice [] (LookupKey_internal_key k) \<and>
    InternalKey_new u s kValueTypeForSeek = Some (LookupKey_internal_key k) \<and>
    LookupKey_user_key k = u \<and> length (LookupKey_memtable_key k) \<le> length u + 13"
proof -
  have "length (EncodeVarint32 v) \<le> 5" for v by (simp add: EncodeVarint32_def)
  then show ?thesis
    using assms by (simp add: LookupKey_new_def Let_def PackSequenceAndType_pack valid_tag_def kValueTypeForSeek_def
        LookupKey_memtable_key_def LookupKey_internal_key_def LookupKey_user_key_def InternalKey_new_def
        AppendInternalKey_def PutLengthPrefixedSlice_def PutVarint32_def PutFixed64_def)
qed

theorem lookup_key_layout_witness:
  "\<exists>k. LookupKey_new [97, 98] 9 = Some k \<and> LookupKey_user_key k = [97, 98]"
  using lookup_key_layout [of "[97, 98]" 9] by (auto simp: kMaxSequenceNumber_def push_bit_eq_mult)

text \<open>With the built-in comparator the internal comparator ignores sequence numbers: two keys with the same user key
  compare as +1 in both directions, whatever their sequence numbers and types are.\<close>

theorem internal_key_order_bytewise:
  "IKC_Compare BytewiseComparator (u @ EncodeFixed64 s) (u @ EncodeFixed64 t) = 1"
  by (simp add: IKC_Compare_encoded BytewiseComparator_def Bytewise_Compare_def Slice_compare_same)

text \<open>A filter built from internal keys accepts every one of them, if the user's policy accepts the keys it was built
  from.\<close>

theorem internal_filter_no_false_negative:
  assumes "filter_policy user_policy valid" "valid (map ExtractUserKey keys)" "key \<in> set keys"
  shows "KeyMayMatch (InternalFilterPolicy user_policy) key
    (drop (length dst) (CreateFilter (InternalFilterPolicy user_policy) keys dst))"
  using filter_policy.filter_at_offset [OF InternalFilterPolicy_contract [OF assms(1)] assms(2,3)] .


theorem internal_filter_no_false_negative_witness:
  "KeyMayMatch (InternalFilterPolicy (NewBloomFilterPolicy 10)) ([97] @ EncodeFixed64 257)
     (drop (length [7 :: u8]) (CreateFilter (InternalFilterPolicy (NewBloomFilterPolicy 10))
        [[97] @ EncodeFixed64 257, [98] @ EncodeFixed64 513] [7]))"
  by (rule internal_filter_no_false_negative [OF bloom10.filter_policy_axioms]) auto

end
