(* ===== verification/Status.thy ===== *)
theory Status
  imports Coding Logging
begin

text \<open>
  \<^verbatim>\<open>include/status.h\<close> and \<^verbatim>\<open>util/status.cc\<close>.  A \<^verbatim>\<open>Status\<close> is its field \<^verbatim>\<open>state_\<close>: \<open>None\<close> (a null pointer)
  for success, otherwise the array with the length of the message, the code and the message.  The length is
  copied with \<^verbatim>\<open>memcpy\<close>; the model fixes the byte order to little endian.  Lengths are \<^verbatim>\<open>uint32_t\<close> and wrap.
\<close>

type_synonym Status = "bytes option"

definition kOk :: u8 where "kOk = 0"
definition kNotFound :: u8 where "kNotFound = 1"
definition kCorruption :: u8 where "kCorruption = 2"
definition kNotSupported :: u8 where "kNotSupported = 3"
definition kInvalidArgument :: u8 where "kInvalidArgument = 4"
definition kIOError :: u8 where "kIOError = 5"

lemmas code_defs = kOk_def kNotFound_def kCorruption_def kNotSupported_def kInvalidArgument_def kIOError_def

definition Status_new :: "u8 \<Rightarrow> bytes \<Rightarrow> bytes \<Rightarrow> Status" where
  "Status_new c msg msg2 =
     (let len1 = (of_nat (length msg) :: u32);
          len2 = (of_nat (length msg2) :: u32);
          sz = len1 + (if len2 \<noteq> 0 then 2 + len2 else 0)
      in Some (EncodeFixed32 sz @ [c] @ take (unat len1) msg @
           (if len2 \<noteq> 0 then ascii '': '' @ take (unat len2) msg2 else [])))"

definition OK :: Status where "OK = None"

definition NotFound :: "bytes \<Rightarrow> bytes \<Rightarrow> Status" where
  "NotFound msg msg2 = Status_new kNotFound msg msg2"

definition Corruption :: "bytes \<Rightarrow> bytes \<Rightarrow> Status" where
  "Corruption msg msg2 = Status_new kCorruption msg msg2"

definition NotSupported :: "bytes \<Rightarrow> bytes \<Rightarrow> Status" where
  "NotSupported msg msg2 = Status_new kNotSupported msg msg2"

definition InvalidArgument :: "bytes \<Rightarrow> bytes \<Rightarrow> Status" where
  "InvalidArgument msg msg2 = Status_new kInvalidArgument msg msg2"

definition IOError :: "bytes \<Rightarrow> bytes \<Rightarrow> Status" where
  "IOError msg msg2 = Status_new kIOError msg msg2"

definition status_code :: "Status \<Rightarrow> u8" where
  "status_code st = (case st of None \<Rightarrow> kOk | Some state \<Rightarrow> state ! 4)"

definition status_ok :: "Status \<Rightarrow> bool" where
  "status_ok st \<longleftrightarrow> st = None"

definition IsNotFound :: "Status \<Rightarrow> bool" where
  "IsNotFound st \<longleftrightarrow> status_code st = kNotFound"

definition IsCorruption :: "Status \<Rightarrow> bool" where
  "IsCorruption st \<longleftrightarrow> status_code st = kCorruption"

definition IsIOError :: "Status \<Rightarrow> bool" where
  "IsIOError st \<longleftrightarrow> status_code st = kIOError"

definition IsNotSupportedError :: "Status \<Rightarrow> bool" where
  "IsNotSupportedError st \<longleftrightarrow> status_code st = kNotSupported"

definition IsInvalidArgument :: "Status \<Rightarrow> bool" where
  "IsInvalidArgument st \<longleftrightarrow> status_code st = kInvalidArgument"

text \<open>Copy construction and assignment copy \<^verbatim>\<open>size + 5\<close> bytes.\<close>

definition CopyState :: "bytes \<Rightarrow> bytes" where
  "CopyState state = take (unat (DecodeFixed32 state + 5)) state"

definition Status_copy :: "Status \<Rightarrow> Status" where
  "Status_copy rhs = map_option CopyState rhs"

definition Status_assign :: "Status \<Rightarrow> Status \<Rightarrow> Status" where
  "Status_assign lhs rhs = (if lhs \<noteq> rhs then map_option CopyState rhs else lhs)"

text \<open>Move assignment swaps the two states: the result is the target and what the source is left with.\<close>

definition Status_move_assign :: "Status \<Rightarrow> Status \<Rightarrow> Status \<times> Status" where
  "Status_move_assign lhs rhs = (rhs, lhs)"

definition code_text :: "u8 \<Rightarrow> bytes" where
  "code_text c =
     (if c = kOk then ascii ''OK''
      else if c = kNotFound then ascii ''NotFound: ''
      else if c = kCorruption then ascii ''Corruption: ''
      else if c = kNotSupported then ascii ''Not implemented: ''
      else if c = kInvalidArgument then ascii ''Invalid argument: ''
      else if c = kIOError then ascii ''IO error: ''
      else ascii ''Unknown code('' @
        (if sint c < 0 then 45 # decimal (nat (- sint c)) else decimal (nat (sint c))) @ ascii ''): '')"

definition Status_ToString :: "Status \<Rightarrow> bytes" where
  "Status_ToString st =
     (case st of
        None \<Rightarrow> ascii ''OK''
      | Some state \<Rightarrow>
          code_text (status_code st) @ take (unat (DecodeFixed32 state)) (drop 5 state))"

section \<open>Properties\<close>

text \<open>The message of a status: \<open>msg\<close>, and \<open>msg2\<close> after a colon if it is not empty.\<close>

definition joined :: "bytes \<Rightarrow> bytes \<Rightarrow> bytes" where
  "joined msg msg2 = msg @ (if msg2 = [] then [] else ascii '': '' @ msg2)"

lemma Status_new_layout:
  assumes "length msg + length msg2 + 7 < 2 ^ 32"
  shows "Status_new c msg msg2 =
    Some (EncodeFixed32 (of_nat (length (joined msg msg2))) @ c # joined msg msg2)"
proof -
  have u: "unat (of_nat (length msg) :: u32) = length msg" "unat (of_nat (length msg2) :: u32) = length msg2"
    using assms by (simp_all add: unat_of_nat)
  have z: "(of_nat (length msg2) :: u32) = 0 \<longleftrightarrow> msg2 = []"
    unfolding word_unat_eq_iff u by simp
  have "length (ascii '': '') = 2" by (simp add: ascii_def)
  then show ?thesis
    by (simp add: Status_new_def Let_def u z joined_def algebra_simps)
qed

lemma length_joined: "length (joined msg msg2) \<le> length msg + length msg2 + 2"
  by (simp add: joined_def ascii_def)

text \<open>A status keeps its code and its message: the predicate for its code holds, it is not \<^verbatim>\<open>ok\<close>, its text is
  the code's prefix followed by \<open>msg\<close> and, if there is one, \<open>msg2\<close> after a colon; and copying it changes nothing.\<close>

theorem status_roundtrip:
  assumes "length msg + length msg2 + 7 < 2 ^ 32"
  shows "status_code (Status_new c msg msg2) = c \<and> \<not> status_ok (Status_new c msg msg2) \<and>
    Status_ToString (Status_new c msg msg2) = code_text c @ joined msg msg2 \<and>
    Status_copy (Status_new c msg msg2) = Status_new c msg msg2 \<and>
    Status_assign old (Status_new c msg msg2) = Status_new c msg msg2"
proof -
  let ?n = "length (joined msg msg2)"
  have n: "?n + 5 < 2 ^ 32" using assms length_joined [of msg msg2] by linarith
  then have u: "unat (of_nat ?n :: u32) = ?n" "unat ((of_nat ?n :: u32) + 5) = ?n + 5"
    by (simp_all add: unat_of_nat unat_word_ariths)
  have "CopyState (EncodeFixed32 (of_nat ?n) @ c # joined msg msg2) =
      EncodeFixed32 (of_nat ?n) @ c # joined msg msg2"
    by (simp add: CopyState_def u)
  then show ?thesis
    unfolding Status_new_layout [OF assms]
    by (simp add: status_code_def status_ok_def Status_ToString_def Status_copy_def Status_assign_def u
        nth_append)
qed

theorem status_roundtrip_witness:
  "Status_ToString (Status_new kNotFound (ascii ''db'') (ascii ''gone'')) = ascii ''NotFound: db: gone''"
  using status_roundtrip [of "ascii ''db''" "ascii ''gone''" kNotFound]
  by (simp add: joined_def code_text_def code_defs ascii_def)

end
