(* ===== verification/Memtable.thy ===== *)
theory Memtable
  imports Skiplist Dbformat Status
begin

text \<open>
  \<^verbatim>\<open>db/memtable.h\<close> and \<^verbatim>\<open>db/memtable.cc\<close>: the sorted buffer of recent writes.  The skip list of a memtable has
  \<^verbatim>\<open>const char*\<close> keys; such a pointer is modelled by the bytes of the entry it points to.  The arena is
  the one of the skip list: entries and nodes are allocated from it in turn.  \<open>uc\<close> is the user comparator inside the
  memtable's \<^verbatim>\<open>InternalKeyComparator\<close>.

  The code trusts the length prefix of an entry ("we assume p is not corrupted").  Where it would read through a null
  pointer the model takes the empty string; every entry a memtable holds is shown to be well formed.
\<close>

record memtable =
  mt_refs :: int
  mt_table :: "bytes skiplist"

section \<open>Entries\<close>

text \<open>The slice a pointer's length prefix announces, and the bytes that follow it.\<close>

definition split_prefixed :: "bytes \<Rightarrow> bytes \<times> bytes" where
  "split_prefixed data =
     (case GetVarint32Ptr (take 5 data) of
        Some (len, n) \<Rightarrow> (take (unat len) (drop n data), drop (n + unat len) data)
      | None \<Rightarrow> ([], []))"

definition Mem_GetLengthPrefixedSlice :: "bytes \<Rightarrow> bytes" where
  "Mem_GetLengthPrefixedSlice data = fst (split_prefixed data)"

definition KeyComparator :: "Comparator \<Rightarrow> bytes \<Rightarrow> bytes \<Rightarrow> int" where
  "KeyComparator uc aptr bptr =
     (let a = Mem_GetLengthPrefixedSlice aptr;
          b = Mem_GetLengthPrefixedSlice bptr
      in IKC_Compare uc a b)"

definition EncodeKey :: "bytes \<Rightarrow> bytes" where
  "EncodeKey target = PutVarint32 [] (of_nat (length target)) @ target"

section \<open>The table\<close>

definition MemTable_new :: "(region list \<Rightarrow> nat \<Rightarrow> nat) \<Rightarrow> memtable" where
  "MemTable_new new_char = \<lparr>mt_refs = 0, mt_table = SkipList_init new_char [] Arena_init\<rparr>"

definition MemTable_Ref :: "memtable \<Rightarrow> memtable" where
  "MemTable_Ref mt = mt\<lparr>mt_refs := mt_refs mt + 1\<rparr>"

text \<open>\<^verbatim>\<open>Unref\<close> fails its assertion (\<open>None\<close>), deletes the table (\<open>Some None\<close>) or returns it.\<close>

definition MemTable_Unref :: "memtable \<Rightarrow> memtable option option" where
  "MemTable_Unref mt =
     (let refs = mt_refs mt - 1 in
      if refs \<ge> 0 then Some (if refs \<le> 0 then None else Some (mt\<lparr>mt_refs := refs\<rparr>)) else None)"

definition ApproximateMemoryUsage :: "memtable \<Rightarrow> nat" where
  "ApproximateMemoryUsage mt = MemoryUsage (sl_arena (mt_table mt))"

definition MemTable_Add ::
    "(region list \<Rightarrow> nat \<Rightarrow> nat) \<Rightarrow> Comparator \<Rightarrow> SequenceNumber \<Rightarrow> ValueType \<Rightarrow> bytes \<Rightarrow> bytes
     \<Rightarrow> memtable \<Rightarrow> memtable option" where
  "MemTable_Add new_char uc s type key val mt =
     (let key_size = length key;
          val_size = length val;
          internal_key_size = key_size + 8;
          encoded_len = VarintLength (of_nat internal_key_size) + internal_key_size +
                        VarintLength (of_nat val_size) + val_size;
          (buf, A) = Allocate new_char encoded_len (sl_arena (mt_table mt));
          entry = EncodeVarint32 (of_nat internal_key_size) @ key @
                  EncodeFixed64 (push_bit 8 s OR ucast type) @
                  EncodeVarint32 (of_nat val_size) @ val
      in if length entry = encoded_len
         then map_option (\<lambda>table. mt\<lparr>mt_table := table\<rparr>)
                (SkipList_Insert new_char (KeyComparator uc) entry ((mt_table mt)\<lparr>sl_arena := A\<rparr>))
         else None)"

text \<open>The result of \<open>Get\<close>: the boolean, and the value and the status the caller passed in as they are left.\<close>

definition MemTable_Get ::
    "Comparator \<Rightarrow> memtable \<Rightarrow> LookupKey \<Rightarrow> bytes \<Rightarrow> Status \<Rightarrow> (bool \<times> bytes \<times> Status) option" where
  "MemTable_Get uc mt key val s =
     (let memkey = LookupKey_memtable_key key in
      case Iterator_Seek (KeyComparator uc) (mt_table mt) memkey of
        None \<Rightarrow> None
      | Some iter \<Rightarrow>
          (case Iterator_key (mt_table mt) iter of
             None \<Rightarrow> Some (False, val, s)
           | Some entry \<Rightarrow>
               (case GetVarint32Ptr (take 5 entry) of
                  None \<Rightarrow> None
                | Some (key_length, n) \<Rightarrow>
                    let key_ptr = drop n entry in
                    if Compare uc (take (unat (key_length - 8)) key_ptr) (LookupKey_user_key key) = 0 then
                      let tag = DecodeFixed64 (drop (unat (key_length - 8)) key_ptr);
                          t = (ucast (tag AND 255) :: u8)
                      in if t = kTypeValue
                         then Some (True, Mem_GetLengthPrefixedSlice (drop (unat key_length) key_ptr), s)
                         else if t = kTypeDeletion then Some (True, val, NotFound [] [])
                         else Some (False, val, s)
                    else Some (False, val, s))))"

section \<open>The iterator\<close>

definition MemTableIterator_Seek :: "Comparator \<Rightarrow> memtable \<Rightarrow> bytes \<Rightarrow> nat option option" where
  "MemTableIterator_Seek uc mt k = Iterator_Seek (KeyComparator uc) (mt_table mt) (EncodeKey k)"

definition MemTableIterator_SeekToFirst :: "memtable \<Rightarrow> nat option" where
  "MemTableIterator_SeekToFirst mt = Iterator_SeekToFirst (mt_table mt)"

definition MemTableIterator_SeekToLast :: "memtable \<Rightarrow> nat option option" where
  "MemTableIterator_SeekToLast mt = Iterator_SeekToLast (mt_table mt)"

definition MemTableIterator_Next :: "memtable \<Rightarrow> nat option \<Rightarrow> nat option option" where
  "MemTableIterator_Next mt node = Iterator_Next (mt_table mt) node"

definition MemTableIterator_Prev :: "Comparator \<Rightarrow> memtable \<Rightarrow> nat option \<Rightarrow> nat option option" where
  "MemTableIterator_Prev uc mt node = Iterator_Prev (KeyComparator uc) (mt_table mt) node"

definition MemTableIterator_key :: "memtable \<Rightarrow> nat option \<Rightarrow> bytes option" where
  "MemTableIterator_key mt node = map_option Mem_GetLengthPrefixedSlice (Iterator_key (mt_table mt) node)"

definition MemTableIterator_value :: "memtable \<Rightarrow> nat option \<Rightarrow> bytes option" where
  "MemTableIterator_value mt node =
     map_option (\<lambda>entry. Mem_GetLengthPrefixedSlice (snd (split_prefixed entry))) (Iterator_key (mt_table mt) node)"

section \<open>Entries are read back\<close>

text \<open>A version is a user key, a sequence number, a type and a value; \<open>entry_of\<close> is its encoding.\<close>

record version =
  v_key :: bytes
  v_seq :: SequenceNumber
  v_type :: ValueType
  v_value :: bytes

definition ikey_of :: "version \<Rightarrow> bytes" where
  "ikey_of v = v_key v @ EncodeFixed64 (pack (v_seq v) (v_type v))"

definition entry_of :: "version \<Rightarrow> bytes" where
  "entry_of v = PutLengthPrefixedSlice (PutLengthPrefixedSlice [] (ikey_of v)) (v_value v)"

definition version_ok :: "version \<Rightarrow> bool" where
  "version_ok v \<longleftrightarrow> length (v_key v) + 8 < 2 ^ 32 \<and> length (v_value v) < 2 ^ 32 \<and>
     v_seq v \<le> kMaxSequenceNumber \<and> v_type v \<le> kTypeValue"

lemma length_EncodeVarint32: "1 \<le> length (EncodeVarint32 v) \<and> length (EncodeVarint32 v) \<le> 5"
  by (simp add: EncodeVarint32_def)

lemma GetVarint32Ptr_take5: "GetVarint32Ptr (take 5 (EncodeVarint32 v @ rest)) = Some (v, length (EncodeVarint32 v))"
proof -
  have "take 5 (EncodeVarint32 v @ rest) = EncodeVarint32 v @ take (5 - length (EncodeVarint32 v)) rest"
    using length_EncodeVarint32 [of v] by simp
  then show ?thesis by simp
qed

lemma split_prefixed_Put:
  assumes "length s < 2 ^ 32"
  shows "split_prefixed (EncodeVarint32 (of_nat (length s)) @ s @ rest) = (s, rest)"
  unfolding split_prefixed_def GetVarint32Ptr_take5 by (simp add: unat_of_nat_length [OF assms])

lemma split_entry:
  assumes "version_ok v"
  shows "split_prefixed (entry_of v @ rest) = (ikey_of v, EncodeVarint32 (of_nat (length (v_value v))) @ v_value v @ rest)"
    and "Mem_GetLengthPrefixedSlice (entry_of v) = ikey_of v"
    and "Mem_GetLengthPrefixedSlice (snd (split_prefixed (entry_of v))) = v_value v"
proof -
  have l: "length (ikey_of v) < 2 ^ 32" "length (v_value v) < 2 ^ 32"
    using assms by (simp_all add: version_ok_def ikey_of_def)
  have e: "entry_of v @ r = EncodeVarint32 (of_nat (length (ikey_of v))) @ ikey_of v @
      EncodeVarint32 (of_nat (length (v_value v))) @ v_value v @ r" for r
    by (simp add: entry_of_def PutLengthPrefixedSlice_def PutVarint32_def)
  show s: "split_prefixed (entry_of v @ rest) =
      (ikey_of v, EncodeVarint32 (of_nat (length (v_value v))) @ v_value v @ rest)" for rest
    unfolding e by (rule split_prefixed_Put [OF l(1)])
  show "Mem_GetLengthPrefixedSlice (entry_of v) = ikey_of v"
    using s [of "[]"] by (simp add: Mem_GetLengthPrefixedSlice_def)
  show "Mem_GetLengthPrefixedSlice (snd (split_prefixed (entry_of v))) = v_value v"
    using s [of "[]"] split_prefixed_Put [OF l(2), of "[]"] by (simp add: Mem_GetLengthPrefixedSlice_def)
qed

definition version_cmp :: "Comparator \<Rightarrow> version \<Rightarrow> version \<Rightarrow> int" where
  "version_cmp uc a b =
     (if Compare uc (v_key a) (v_key b) = 0
      then if pack (v_seq a) (v_type a) > pack (v_seq b) (v_type b) then -1
        else if pack (v_seq a) (v_type a) < pack (v_seq b) (v_type b) then 1 else 0
      else Compare uc (v_key a) (v_key b))"

lemma KeyComparator_entry:
  "version_ok a \<Longrightarrow> version_ok b \<Longrightarrow> KeyComparator uc (entry_of a) (entry_of b) = version_cmp uc a b"
  by (simp add: KeyComparator_def split_entry(2) ikey_of_def IKC_Compare_encoded version_cmp_def)

lemma KeyComparator_three_way: "three_way (Compare uc) \<Longrightarrow> three_way (KeyComparator uc)"
  unfolding KeyComparator_def [abs_def] Let_def
  by (rule three_way.projected) (rule IKC_three_way)

abbreviation Add_version :: "(region list \<Rightarrow> nat \<Rightarrow> nat) \<Rightarrow> Comparator \<Rightarrow> version \<Rightarrow> memtable \<Rightarrow> memtable option" where
  "Add_version nc uc v mt \<equiv> MemTable_Add nc uc (v_seq v) (v_type v) (v_key v) (v_value v) mt"

lemma MemTable_Add_entry:
  assumes "version_ok v"
  obtains A where "Add_version nc uc v mt = map_option (\<lambda>t. mt\<lparr>mt_table := t\<rparr>)
    (SkipList_Insert nc (KeyComparator uc) (entry_of v) ((mt_table mt)\<lparr>sl_arena := A\<rparr>))"
proof -
  let ?n = "VarintLength (of_nat (length (v_key v) + 8)) + (length (v_key v) + 8) +
    VarintLength (of_nat (length (v_value v))) + length (v_value v)"
  have e: "EncodeVarint32 (of_nat (length (v_key v) + 8)) @ v_key v @
      EncodeFixed64 (push_bit 8 (v_seq v) OR ucast (v_type v)) @
      EncodeVarint32 (of_nat (length (v_value v))) @ v_value v = entry_of v"
    by (simp add: entry_of_def ikey_of_def pack_def PutLengthPrefixedSlice_def PutVarint32_def)
  have "length (entry_of v) = ?n"
    using assms by (simp add: version_ok_def VarintLength_32 entry_of_def ikey_of_def PutLengthPrefixedSlice_def
        PutVarint32_def del: of_nat_add)
  then have "Add_version nc uc v mt = map_option (\<lambda>t. mt\<lparr>mt_table := t\<rparr>)
    (SkipList_Insert nc (KeyComparator uc) (entry_of v)
       ((mt_table mt)\<lparr>sl_arena := snd (Allocate nc ?n (sl_arena (mt_table mt)))\<rparr>))"
    unfolding MemTable_Add_def Let_def e by (simp split: prod.splits)
  then show ?thesis by (rule that)
qed

text \<open>Adding versions one after the other, with pairwise unequal keys.\<close>

lemma add_run:
  assumes ord: "ordering (KeyComparator uc)"
    and "sl_inv (KeyComparator uc) (mt_table mt)" "list_all version_ok vs"
    and "\<And>v y. v \<in> set vs \<Longrightarrow> y \<in> set (sl_items (mt_table mt)) \<Longrightarrow> KeyComparator uc (entry_of v) y \<noteq> 0"
    and "sorted_wrt (\<lambda>a b. KeyComparator uc (entry_of b) (entry_of a) \<noteq> 0) vs"
  shows "\<exists>mt'. insert_all (Add_version nc uc) vs mt = Some mt' \<and> sl_inv (KeyComparator uc) (mt_table mt') \<and>
    mset (sl_items (mt_table mt')) = mset (sl_items (mt_table mt)) + mset (map entry_of vs)"
  using assms(2-)
proof (induction vs arbitrary: mt)
  case (Cons v vs)
  note idx = ordering.skiplist_ordered_index [OF ord, of nc]
  obtain A where A: "Add_version nc uc v mt = map_option (\<lambda>t. mt\<lparr>mt_table := t\<rparr>)
    (SkipList_Insert nc (KeyComparator uc) (entry_of v) ((mt_table mt)\<lparr>sl_arena := A\<rparr>))"
    using Cons.prems by (auto intro: MemTable_Add_entry)
  obtain t where t: "SkipList_Insert nc (KeyComparator uc) (entry_of v) ((mt_table mt)\<lparr>sl_arena := A\<rparr>) = Some t"
    "sl_inv (KeyComparator uc) t" "sl_items t = insert_sorted (KeyComparator uc) (entry_of v) (sl_items (mt_table mt))"
    using ordered_index.index_insert [OF idx, of "(mt_table mt)\<lparr>sl_arena := A\<rparr>" "entry_of v"] Cons.prems by auto
  have fresh: "KeyComparator uc (entry_of w) y \<noteq> 0" if "w \<in> set vs" "y \<in> set (sl_items t)" for w y
    using that t(3) Cons.prems(3,4) by (auto simp: ordered_index.set_insert_sorted [OF idx])
  have "\<exists>mt'. insert_all (Add_version nc uc) vs (mt\<lparr>mt_table := t\<rparr>) = Some mt' \<and>
      sl_inv (KeyComparator uc) (mt_table mt') \<and>
      mset (sl_items (mt_table mt')) = mset (sl_items t) + mset (map entry_of vs)"
    using Cons.IH [of "mt\<lparr>mt_table := t\<rparr>"] Cons.prems(2,4) t(2) fresh by simp
  then show ?case
    using A t ordered_index.mset_insert_sorted [OF idx] by auto
qed auto


section \<open>Looking up\<close>

text \<open>Reference: the newest of a list of versions, by sequence number and type; and the result a lookup owes its caller.\<close>

fun newest :: "version list \<Rightarrow> version option" where
  "newest [] = None"
| "newest (v # vs) =
     (case newest vs of
        None \<Rightarrow> Some v
      | Some w \<Rightarrow> Some (if pack (v_seq w) (v_type w) < pack (v_seq v) (v_type v) then v else w))"

definition visible :: "Comparator \<Rightarrow> bytes \<Rightarrow> SequenceNumber \<Rightarrow> version \<Rightarrow> bool" where
  "visible uc u s v \<longleftrightarrow> Compare uc (v_key v) u = 0 \<and> v_seq v \<le> s"

definition lookup_result :: "version option \<Rightarrow> bytes \<Rightarrow> Status \<Rightarrow> bool \<times> bytes \<times> Status" where
  "lookup_result r val st =
     (case r of
        None \<Rightarrow> (False, val, st)
      | Some v \<Rightarrow> if v_type v = kTypeValue then (True, v_value v, st) else (True, val, NotFound [] []))"

lemma newest_None: "newest vs = None \<longleftrightarrow> vs = []"
  by (cases vs) (auto split: option.splits)

lemma newest_Some:
  assumes "v \<in> set vs" "\<And>w. w \<in> set vs \<Longrightarrow> w = v \<or> pack (v_seq w) (v_type w) < pack (v_seq v) (v_type v)"
  shows "newest vs = Some v"
  using assms
proof (induction vs)
  case (Cons w vs)
  show ?case
  proof (cases "v \<in> set vs")
    case True
    then have "newest vs = Some v" using Cons by simp
    then show ?thesis using Cons.prems(2) [of w] by auto
  next
    case False
    then have v: "w = v" using Cons.prems(1) by simp
    have "newest vs = Some x \<Longrightarrow> x \<in> set vs" for x
      by (induction vs arbitrary: x) (auto split: option.splits if_splits)
    then show ?thesis using Cons.prems(2) False v by (fastforce split: option.splits)
  qed
qed simp

definition target :: "bytes \<Rightarrow> SequenceNumber \<Rightarrow> version" where
  "target u s = \<lparr>v_key = u, v_seq = s, v_type = kTypeValue, v_value = []\<rparr>"

lemma lookup_slice:
  assumes "LookupKey_new u s = Some lk" "length u + 8 < 2 ^ 32"
  shows "Mem_GetLengthPrefixedSlice (LookupKey_memtable_key lk) = ikey_of (target u s)"
    and "LookupKey_user_key lk = u" and "s \<le> kMaxSequenceNumber"
proof -
  have v: "valid_tag s kValueTypeForSeek"
    and lk: "lk = \<lparr>lk_array = EncodeVarint32 (of_nat (length u + 8)) @ u @ EncodeFixed64 (pack s kValueTypeForSeek),
      lk_kstart = length (EncodeVarint32 (of_nat (length u + 8)))\<rparr>"
    using assms(1) by (auto simp: LookupKey_new_def PackSequenceAndType_pack Let_def split: if_splits)
  show "s \<le> kMaxSequenceNumber" using v by (simp add: valid_tag_def)
  show "LookupKey_user_key lk = u" by (simp add: lk LookupKey_user_key_def)
  have "Mem_GetLengthPrefixedSlice (EncodeVarint32 (of_nat (length (ikey_of (target u s)))) @ ikey_of (target u s) @ [])
      = ikey_of (target u s)"
    using assms(2) unfolding Mem_GetLengthPrefixedSlice_def
    by (subst split_prefixed_Put) (simp_all add: ikey_of_def target_def)
  then show "Mem_GetLengthPrefixedSlice (LookupKey_memtable_key lk) = ikey_of (target u s)"
    by (simp add: lk LookupKey_memtable_key_def ikey_of_def target_def kValueTypeForSeek_def)
qed

lemma KeyComparator_lookup:
  assumes "LookupKey_new u s = Some lk" "length u + 8 < 2 ^ 32" "version_ok v"
  shows "KeyComparator uc (entry_of v) (LookupKey_memtable_key lk) = version_cmp uc v (target u s)"
  using assms
  by (simp add: KeyComparator_def split_entry(2) lookup_slice(1) [OF assms(1,2)] ikey_of_def IKC_Compare_encoded
      version_cmp_def)

text \<open>What \<open>Get\<close> makes of the entry its iterator stops at.\<close>

lemma MemTable_Get_seek:
  assumes "LookupKey_new u s = Some lk" "length u + 8 < 2 ^ 32"
  shows "sl_seek (KeyComparator uc) (mt_table mt) (LookupKey_memtable_key lk) = Some None \<Longrightarrow>
      MemTable_Get uc mt lk val st = Some (False, val, st)"
    and "sl_seek (KeyComparator uc) (mt_table mt) (LookupKey_memtable_key lk) = Some (Some (entry_of v)) \<Longrightarrow>
      version_ok v \<Longrightarrow>
      MemTable_Get uc mt lk val st = Some (lookup_result (if Compare uc (v_key v) u = 0 then Some v else None) val st)"
proof -
  show "sl_seek (KeyComparator uc) (mt_table mt) (LookupKey_memtable_key lk) = Some None \<Longrightarrow>
      MemTable_Get uc mt lk val st = Some (False, val, st)"
    by (auto simp: sl_seek_def MemTable_Get_def)
next
  assume seek: "sl_seek (KeyComparator uc) (mt_table mt) (LookupKey_memtable_key lk) = Some (Some (entry_of v))"
    and ok: "version_ok v"
  obtain iter where iter: "Iterator_Seek (KeyComparator uc) (mt_table mt) (LookupKey_memtable_key lk) = Some iter"
    "Iterator_key (mt_table mt) iter = Some (entry_of v)"
    using seek by (auto simp: sl_seek_def)
  let ?n = "length (v_key v)" and ?val = "EncodeVarint32 (of_nat (length (v_value v))) @ v_value v"
  define kl :: u32 where "kl = of_nat (?n + 8)"
  have e: "entry_of v = EncodeVarint32 kl @ v_key v @ EncodeFixed64 (pack (v_seq v) (v_type v)) @ ?val"
    by (simp add: entry_of_def ikey_of_def PutLengthPrefixedSlice_def PutVarint32_def kl_def)
  have kl: "unat kl = ?n + 8" using ok by (simp add: kl_def version_ok_def unat_of_nat del: of_nat_add)
  have kl8: "unat (kl - 8) = ?n" using kl by (simp add: unat_sub word_le_nat_alt)
  have g: "GetVarint32Ptr (take 5 (entry_of v)) = Some (kl, length (EncodeVarint32 kl))"
    unfolding e by (rule GetVarint32Ptr_take5)
  have vv: "Mem_GetLengthPrefixedSlice ?val = v_value v"
    using split_prefixed_Put [of "v_value v" "[]"] ok by (simp add: version_ok_def Mem_GetLengthPrefixedSlice_def)
  have t: "v_type v = kTypeValue \<or> v_type v = kTypeDeletion"
    using ok by (auto simp: version_ok_def type_defs word_le_nat_alt word_unat_eq_iff)
  show "MemTable_Get uc mt lk val st = Some (lookup_result (if Compare uc (v_key v) u = 0 then Some v else None) val st)"
    unfolding MemTable_Get_def Let_def iter(1) option.case iter(2) g prod.case lookup_slice(2) [OF assms]
    using t vv by (auto simp: e kl kl8 pack_type lookup_result_def type_defs)
qed


lemma pairwise_members:
  "sorted_wrt (\<lambda>a b. R b a) vs \<Longrightarrow> a \<in> set vs \<Longrightarrow> b \<in> set vs \<Longrightarrow> a = b \<or> R a b \<or> R b a"
  by (induction vs) auto

lemma version_cmp_pair:
  assumes "three_way (Compare uc)" "version_ok a" "version_ok b"
  shows "version_cmp uc a b = 0 \<longleftrightarrow> version_cmp uc b a = 0"
  using three_way.cmp_0_sym [OF KeyComparator_three_way [OF assms(1)], of "entry_of a" "entry_of b"] assms(2,3)
  by (simp add: KeyComparator_entry)

text \<open>The first entry at or after the lookup key is the newest visible version, if it is one of the user key.\<close>

lemma first_is_newest:
  assumes tw: "three_way (Compare uc)" and ok: "list_all version_ok h" "s \<le> kMaxSequenceNumber"
    and pw: "sorted_wrt (\<lambda>a b. version_cmp uc b a \<noteq> 0) h"
    and v: "v \<in> set h" "\<not> version_cmp uc v (target u s) < 0"
    and least: "\<And>w. w \<in> set h \<Longrightarrow> \<not> version_cmp uc w (target u s) < 0 \<Longrightarrow>
      version_cmp uc w v = 0 \<or> \<not> version_cmp uc w v < 0"
  shows "newest (filter (visible uc u s) h) = (if Compare uc (v_key v) u = 0 then Some v else None)"
proof -
  have seqs: "v_seq w \<le> kMaxSequenceNumber \<and> v_type w \<le> kTypeValue" if "w \<in> set h" for w
    using ok(1) that by (auto simp: list_all_iff version_ok_def)
  have T: "v_key (target u s) = u" "v_seq (target u s) = s" "v_type (target u s) = kTypeValue"
    by (simp_all add: target_def)
  have vis: "visible uc u s w \<longleftrightarrow> Compare uc (v_key w) u = 0 \<and> \<not> version_cmp uc w (target u s) < 0"
    if "w \<in> set h" for w
    using seqs [OF that] pack_less_iff [OF ok(2), of "v_seq w" kTypeValue "v_type w"]
    by (auto simp: visible_def version_cmp_def T not_le not_less)
  have cong: "Compare uc (v_key w) (v_key v) = 0" if "Compare uc (v_key w) u = 0" "Compare uc (v_key v) u = 0" for w
    using that three_way.cmp_0_cong [OF tw] three_way.cmp_0_sym [OF tw] by blast
  have same: "w = v" if "w \<in> set h" "version_cmp uc w v = 0" for w
    using pairwise_members [OF pw, of w v] that v(1) version_cmp_pair [OF tw, of w v] ok(1)
    by (auto simp: list_all_iff)
  show ?thesis
  proof (cases "Compare uc (v_key v) u = 0")
    case True
    have "newest (filter (visible uc u s) h) = Some v"
    proof (rule newest_Some)
      show "v \<in> set (filter (visible uc u s) h)" using vis v True by simp
      show "w = v \<or> pack (v_seq w) (v_type w) < pack (v_seq v) (v_type v)"
        if "w \<in> set (filter (visible uc u s) h)" for w
      proof -
        from that have w: "w \<in> set h" "Compare uc (v_key w) u = 0" "\<not> version_cmp uc w (target u s) < 0"
          using vis by auto
        show ?thesis
          using least [OF w(1,3)] same [OF w(1)] cong [OF w(2) True]
          by (auto simp: version_cmp_def split: if_splits)
      qed
    qed
    with True show ?thesis by simp
  next
    case False
    have "\<not> visible uc u s w" if "w \<in> set h" for w
    proof
      assume "visible uc u s w"
      then have w: "Compare uc (v_key w) u = 0" "\<not> version_cmp uc w (target u s) < 0" using vis that by auto
      have "Compare uc u (v_key v) < 0"
        using v(2) False three_way.cmp_0_iff [OF tw, of "v_key v" u] by (auto simp: version_cmp_def T)
      then have "Compare uc (v_key w) (v_key v) < 0"
        using w(1) three_way.cmp_0_iff [OF tw] ordering.le_less_trans [OF three_way.axioms_ordering [OF tw]] by blast
      then have "version_cmp uc w v < 0" by (simp add: version_cmp_def)
      then show False using least [OF that w(2)] by simp
    qed
    then have "filter (visible uc u s) h = []" by (simp add: filter_empty_conv)
    with False show ?thesis by simp
  qed
qed

lemma MemTable_Get_newest:
  assumes tw: "three_way (Compare uc)" and ok: "list_all version_ok h"
    and pw: "sorted_wrt (\<lambda>a b. version_cmp uc b a \<noteq> 0) h"
    and inv: "sl_inv (KeyComparator uc) (mt_table mt)" "set (sl_items (mt_table mt)) = entry_of ` set h"
    and lk: "LookupKey_new u s = Some lk" "length u + 8 < 2 ^ 32"
  shows "MemTable_Get uc mt lk val st = Some (lookup_result (newest (filter (visible uc u s) h)) val st)"
proof -
  have s: "s \<le> kMaxSequenceNumber" using lookup_slice(3) [OF lk] .
  have okv: "version_ok v" if "v \<in> set h" for v using ok that by (auto simp: list_all_iff)
  note idx = ordering.skiplist_ordered_index [OF three_way.axioms_ordering [OF KeyComparator_three_way [OF tw]]]
  let ?key = "LookupKey_memtable_key lk" and ?cmp = "KeyComparator uc"
  have lookup: "?cmp (entry_of v) ?key = version_cmp uc v (target u s)" if "v \<in> set h" for v
    using KeyComparator_lookup [OF lk okv [OF that]] .
  from ordered_index.seek_first [OF idx inv(1), of ?key] show ?thesis
  proof (elim disjE)
    assume none: "sl_seek ?cmp (mt_table mt) ?key = Some None \<and> (\<forall>y \<in> set (sl_items (mt_table mt)). ?cmp y ?key < 0)"
    have "\<not> visible uc u s v" if "v \<in> set h" for v
    proof -
      have "version_cmp uc v (target u s) < 0" using none inv(2) lookup that by auto
      then show ?thesis
        using okv [OF that] pack_less_iff [OF s, of "v_seq v" kTypeValue "v_type v"]
        by (auto simp: visible_def version_cmp_def target_def version_ok_def not_le not_less split: if_splits)
    qed
    then have "filter (visible uc u s) h = []" by (simp add: filter_empty_conv)
    then show ?thesis using MemTable_Get_seek(1) [OF lk conjunct1 [OF none]] by (simp add: lookup_result_def)
  next
    assume "\<exists>x \<in> set (sl_items (mt_table mt)). sl_seek ?cmp (mt_table mt) ?key = Some (Some x) \<and> \<not> ?cmp x ?key < 0 \<and>
      (\<forall>y \<in> set (sl_items (mt_table mt)). \<not> ?cmp y ?key < 0 \<longrightarrow> y = x \<or> \<not> ?cmp y x < 0)"
    then obtain v where v: "v \<in> set h" "sl_seek ?cmp (mt_table mt) ?key = Some (Some (entry_of v))"
      "\<not> ?cmp (entry_of v) ?key < 0"
      "\<And>w. w \<in> set h \<Longrightarrow> \<not> ?cmp (entry_of w) ?key < 0 \<Longrightarrow>
         entry_of w = entry_of v \<or> \<not> ?cmp (entry_of w) (entry_of v) < 0"
      unfolding inv(2) by blast
    have "version_cmp uc w v = 0 \<or> \<not> version_cmp uc w v < 0"
      if "w \<in> set h" "\<not> version_cmp uc w (target u s) < 0" for w
      using v(4) [OF that(1)] that lookup [OF that(1)] three_way.cmp_refl [OF KeyComparator_three_way [OF tw]]
        KeyComparator_entry [OF okv [OF that(1)] okv [OF v(1)], of uc]
      by auto
    then show ?thesis
      using MemTable_Get_seek(2) [OF lk v(2) okv [OF v(1)]] first_is_newest [OF tw ok s pw v(1)]
        v(3) lookup [OF v(1)] by simp
  qed
qed


lemma memtable_build:
  assumes "ordering (KeyComparator uc)" "list_all version_ok h" "sorted_wrt (\<lambda>a b. version_cmp uc b a \<noteq> 0) h"
  obtains mt where "insert_all (Add_version nc uc) h (MemTable_new nc) = Some mt"
    "sl_inv (KeyComparator uc) (mt_table mt)" "mset (sl_items (mt_table mt)) = mset (map entry_of h)"
proof -
  have "sorted_wrt (\<lambda>a b. KeyComparator uc (entry_of b) (entry_of a) \<noteq> 0) h"
    using assms(2,3) by (induction h) (auto simp: KeyComparator_entry list_all_iff)
  from add_run [OF assms(1) _ assms(2) _ this, of "MemTable_new nc" nc] show ?thesis
    by (auto simp: MemTable_new_def sl_inv_init sl_items_init intro: that)
qed

lemma mset_map_reorder: "mset xs = mset (map f h) \<Longrightarrow> \<exists>vs. xs = map f vs \<and> mset vs = mset h"
proof (induction xs arbitrary: h)
  case (Cons x xs)
  then have "x \<in> set (map f h)" by (metis list.set_intros(1) mset_eq_setD)
  then obtain us v ws where h: "h = us @ v # ws" "x = f v" by (auto simp: in_set_conv_decomp)
  then have "mset xs = mset (map f (us @ ws))" using Cons.prems by simp
  then obtain vs where "xs = map f vs" "mset vs = mset (us @ ws)" using Cons.IH by blast
  then have "x # xs = map f (v # vs)" "mset (v # vs) = mset h" using h by simp_all
  then show ?case by (intro exI [of _ "v # vs"] conjI)
qed simp

section \<open>Properties\<close>

text \<open>C1. The memtable is a multi-version map.  After any sequence of additions of well-formed versions, no two with the
  same user key, sequence number and type, a lookup of a user key at a sequence number returns the newest version of that
  key that is not newer than the sequence number: its value, or a \<^verbatim>\<open>NotFound\<close> status if it is a deletion, or a miss if
  there is none.  No assertion fails, and all searches terminate.\<close>

theorem memtable_get_newest:
  assumes "three_way (Compare uc)" "list_all version_ok h" "sorted_wrt (\<lambda>a b. version_cmp uc b a \<noteq> 0) h"
    and "LookupKey_new u s = Some lk" "length u + 8 < 2 ^ 32"
  shows "\<exists>mt. insert_all (Add_version nc uc) h (MemTable_new nc) = Some mt \<and>
    MemTable_Get uc mt lk val st = Some (lookup_result (newest (filter (visible uc u s) h)) val st)"
proof -
  obtain mt where mt: "insert_all (Add_version nc uc) h (MemTable_new nc) = Some mt"
    "sl_inv (KeyComparator uc) (mt_table mt)" "mset (sl_items (mt_table mt)) = mset (map entry_of h)"
    using memtable_build [OF three_way.axioms_ordering [OF KeyComparator_three_way [OF assms(1)]] assms(2,3)] .
  have "set (sl_items (mt_table mt)) = entry_of ` set h" using mset_eq_setD [OF mt(3)] by simp
  with MemTable_Get_newest [OF assms(1-3) mt(2) _ assms(4,5)] mt(1) show ?thesis by blast
qed

theorem memtable_get_newest_witness:
  "let h = [\<lparr>v_key = [97], v_seq = 3, v_type = kTypeValue, v_value = [1]\<rparr>,
            \<lparr>v_key = [97], v_seq = 7, v_type = kTypeDeletion, v_value = []\<rparr>,
            \<lparr>v_key = [98], v_seq = 5, v_type = kTypeValue, v_value = [2]\<rparr>]
   in \<exists>lk mt. LookupKey_new [97] 6 = Some lk \<and>
     insert_all (Add_version bump_new reference_comparator) h (MemTable_new bump_new) = Some mt \<and>
     MemTable_Get reference_comparator mt lk [] OK = Some (True, [1], OK)"
proof -
  let ?h = "[\<lparr>v_key = [97], v_seq = 3, v_type = kTypeValue, v_value = [1]\<rparr>,
            \<lparr>v_key = [97], v_seq = 7, v_type = kTypeDeletion, v_value = []\<rparr>,
            \<lparr>v_key = [98], v_seq = 5, v_type = kTypeValue, v_value = [2]\<rparr>] :: version list"
  have max: "kMaxSequenceNumber = 72057594037927935" by (simp add: kMaxSequenceNumber_def push_bit_eq_mult)
  have "list_all version_ok ?h" by (simp add: version_ok_def max type_defs)
  moreover have pk: "pack 3 kTypeValue = 769" "pack 7 kTypeDeletion = 1792" "pack 5 kTypeValue = 1281"
    by (simp_all add: pack_def type_defs)
  then have "sorted_wrt (\<lambda>a b. version_cmp reference_comparator b a \<noteq> 0) ?h"
    by (simp add: version_cmp_def reference_comparator_def)
  moreover obtain lk where lk: "LookupKey_new [97] 6 = Some lk"
    by (auto simp: LookupKey_new_def Let_def PackSequenceAndType_pack valid_tag_def max type_defs)
  ultimately obtain mt where "insert_all (Add_version bump_new reference_comparator) ?h (MemTable_new bump_new) = Some mt"
    "MemTable_Get reference_comparator mt lk [] OK =
      Some (lookup_result (newest (filter (visible reference_comparator [97] 6) ?h)) [] OK)"
    using memtable_get_newest [OF reference.three_way_axioms _ _ lk, of ?h bump_new "[]" OK] by auto
  moreover have "lookup_result (newest (filter (visible reference_comparator [97] 6) ?h)) [] OK = (True, [1], OK)"
    by (simp add: visible_def reference_comparator_def lookup_result_def)
  ultimately show ?thesis using lk by (auto simp: Let_def)
qed

text \<open>C9. With the built-in \<^verbatim>\<open>BytewiseComparator\<close> the memtable never finds a key: whatever versions have been added, also
  several times, every lookup of every key misses.\<close>

theorem memtable_bytewise_always_misses:
  assumes "list_all version_ok h" "LookupKey_new u s = Some lk" "length u + 8 < 2 ^ 32"
  shows "\<exists>mt. insert_all (Add_version nc BytewiseComparator) h (MemTable_new nc) = Some mt \<and>
    MemTable_Get BytewiseComparator mt lk val st = Some (False, val, st)"
proof -
  have key: "KeyComparator BytewiseComparator = (\<lambda>a b. Bytewise_Compare
      (ExtractUserKey (Mem_GetLengthPrefixedSlice a)) (ExtractUserKey (Mem_GetLengthPrefixedSlice b)))"
    by (simp add: fun_eq_iff KeyComparator_def IKC_Compare_def BytewiseComparator_def Bytewise_Compare_def
        Slice_compare_not_0)
  have ord: "ordering (KeyComparator BytewiseComparator)"
    unfolding key by (rule bytewise.ordering_projected)
  have "version_cmp BytewiseComparator a b \<noteq> 0" for a b
    by (simp add: version_cmp_def BytewiseComparator_def Bytewise_Compare_def Slice_compare_not_0)
  then have "sorted_wrt (\<lambda>a b. version_cmp BytewiseComparator b a \<noteq> 0) h" by (induction h) auto
  then obtain mt where mt: "insert_all (Add_version nc BytewiseComparator) h (MemTable_new nc) = Some mt"
    "sl_inv (KeyComparator BytewiseComparator) (mt_table mt)" "mset (sl_items (mt_table mt)) = mset (map entry_of h)"
    using memtable_build [OF ord assms(1)] by blast
  have items: "set (sl_items (mt_table mt)) = entry_of ` set h" using mset_eq_setD [OF mt(3)] by simp
  have ne: "Compare BytewiseComparator a b \<noteq> 0" for a b
    by (simp add: BytewiseComparator_def Bytewise_Compare_def Slice_compare_not_0)
  from ordered_index.seek_first [OF ordering.skiplist_ordered_index [OF ord] mt(2), of "LookupKey_memtable_key lk"]
  consider "sl_seek (KeyComparator BytewiseComparator) (mt_table mt) (LookupKey_memtable_key lk) = Some None"
    | v where "v \<in> set h"
      "sl_seek (KeyComparator BytewiseComparator) (mt_table mt) (LookupKey_memtable_key lk) = Some (Some (entry_of v))"
    unfolding items by blast
  then have "MemTable_Get BytewiseComparator mt lk val st = Some (False, val, st)"
  proof cases
    case 1
    then show ?thesis by (rule MemTable_Get_seek(1) [OF assms(2,3)])
  next
    case (2 v)
    then show ?thesis
      using MemTable_Get_seek(2) [OF assms(2,3) 2(2)] assms(1) ne by (auto simp: list_all_iff lookup_result_def)
  qed
  with mt(1) show ?thesis by blast
qed

theorem memtable_bytewise_always_misses_witness:
  "\<exists>lk mt. LookupKey_new [97] 6 = Some lk \<and>
     insert_all (Add_version bump_new BytewiseComparator)
       [\<lparr>v_key = [97], v_seq = 3, v_type = kTypeValue, v_value = [1]\<rparr>] (MemTable_new bump_new) = Some mt \<and>
     MemTable_Get BytewiseComparator mt lk [] OK = Some (False, [], OK)"
proof -
  let ?h = "[\<lparr>v_key = [97], v_seq = 3, v_type = kTypeValue, v_value = [1]\<rparr>] :: version list"
  have max: "kMaxSequenceNumber = 72057594037927935" by (simp add: kMaxSequenceNumber_def push_bit_eq_mult)
  have ok: "list_all version_ok ?h" by (simp add: version_ok_def max type_defs)
  obtain lk where lk: "LookupKey_new [97] 6 = Some lk"
    by (auto simp: LookupKey_new_def Let_def PackSequenceAndType_pack valid_tag_def max type_defs)
  show ?thesis using memtable_bytewise_always_misses [OF ok lk, of bump_new "[]" OK] lk by auto
qed

end
