(* ===== verification/Iterator.thy ===== *)
theory Iterator
  imports Status "HOL-Library.Monad_Syntax"
begin

text \<open>
  \<^verbatim>\<open>include/iterator.h\<close> and \<^verbatim>\<open>table/iterator.cc\<close>: the iterator interface with the contract its comments state, the list of cleanup
  functions every iterator carries, and the empty iterators.  An iterator object is the record of its virtual methods over the state
  \<open>'s\<close> of the iterator; a method that fails an assertion is \<open>None\<close>.
\<close>

record 's Iterator =
  It_Valid :: "'s \<Rightarrow> bool"
  It_SeekToFirst :: "'s \<Rightarrow> 's option"
  It_SeekToLast :: "'s \<Rightarrow> 's option"
  It_Seek :: "bytes \<Rightarrow> 's \<Rightarrow> 's option"
  It_Next :: "'s \<Rightarrow> 's option"
  It_Prev :: "'s \<Rightarrow> 's option"
  It_key :: "'s \<Rightarrow> bytes option"
  It_value :: "'s \<Rightarrow> bytes option"
  It_status :: "'s \<Rightarrow> Status"

section \<open>Cleanup functions\<close>

text \<open>
  The nodes after the head live on the heap; a pointer is an address and a read of freed memory is \<open>None\<close>.  A call of a cleanup
  function is the triple of the function and its arguments.
\<close>

record ('f, 'a) CleanupNode =
  cn_function :: "'f option"
  cn_arg1 :: 'a
  cn_arg2 :: 'a
  cn_next :: "nat option"

type_synonym ('f, 'a) cleanup_heap = "nat \<Rightarrow> ('f, 'a) CleanupNode option"

definition CleanupNode_IsEmpty :: "('f, 'a) CleanupNode \<Rightarrow> bool" where
  "CleanupNode_IsEmpty n \<longleftrightarrow> cn_function n = None"

definition CleanupNode_Run :: "('f, 'a) CleanupNode \<Rightarrow> ('f \<times> 'a \<times> 'a) option" where
  "CleanupNode_Run n = map_option (\<lambda>f. (f, cn_arg1 n, cn_arg2 n)) (cn_function n)"

text \<open>The constructor leaves the arguments of the head uninitialised (\<open>u\<close>).\<close>

definition Iterator_new :: "'a \<Rightarrow> ('f, 'a) CleanupNode" where
  "Iterator_new u = \<lparr>cn_function = None, cn_arg1 = u, cn_arg2 = u, cn_next = None\<rparr>"

text \<open>\<open>new\<close> is the address \<^verbatim>\<open>new CleanupNode()\<close> returns if it is called.\<close>

definition RegisterCleanup ::
    "nat \<Rightarrow> 'f option \<Rightarrow> 'a \<Rightarrow> 'a \<Rightarrow> ('f, 'a) CleanupNode \<times> ('f, 'a) cleanup_heap \<Rightarrow> (('f, 'a) CleanupNode \<times> ('f, 'a) cleanup_heap) option" where
  "RegisterCleanup new func arg1 arg2 = (\<lambda>(cleanup_head, heap).
     if func = None then None
     else if CleanupNode_IsEmpty cleanup_head
     then Some (cleanup_head\<lparr>cn_function := func, cn_arg1 := arg1, cn_arg2 := arg2\<rparr>, heap)
     else Some (cleanup_head\<lparr>cn_next := Some new\<rparr>,
       heap(new \<mapsto> \<lparr>cn_function = func, cn_arg1 = arg1, cn_arg2 = arg2, cn_next = cn_next cleanup_head\<rparr>)))"

partial_function (option) cleanup_loop ::
    "nat option \<Rightarrow> ('f, 'a) cleanup_heap \<Rightarrow> (('f \<times> 'a \<times> 'a) list \<times> ('f, 'a) cleanup_heap) option" where
  "cleanup_loop node heap =
     (case node of
        None \<Rightarrow> Some ([], heap)
      | Some p \<Rightarrow>
          do {
            n \<leftarrow> heap p;
            call \<leftarrow> CleanupNode_Run n;
            (calls, heap) \<leftarrow> cleanup_loop (cn_next n) (heap(p := None));
            Some (call # calls, heap) })"

definition Iterator_destroy ::
    "('f, 'a) CleanupNode \<times> ('f, 'a) cleanup_heap \<Rightarrow> (('f \<times> 'a \<times> 'a) list \<times> ('f, 'a) cleanup_heap) option" where
  "Iterator_destroy = (\<lambda>(cleanup_head, heap).
     if CleanupNode_IsEmpty cleanup_head then Some ([], heap)
     else do {
       call \<leftarrow> CleanupNode_Run cleanup_head;
       (calls, heap) \<leftarrow> cleanup_loop (cn_next cleanup_head) heap;
       Some (call # calls, heap) })"

text \<open>\<open>chain p cs h h0\<close>: the heap \<open>h\<close> is \<open>h0\<close> and a list of nodes for the calls \<open>cs\<close> that starts at \<open>p\<close>.\<close>

fun chain :: "nat option \<Rightarrow> ('f \<times> 'a \<times> 'a) list \<Rightarrow> ('f, 'a) cleanup_heap \<Rightarrow> ('f, 'a) cleanup_heap \<Rightarrow> bool" where
  "chain p [] h h0 \<longleftrightarrow> p = None \<and> h = h0"
| "chain p ((f, a, b) # cs) h h0 \<longleftrightarrow>
     (\<exists>q r. p = Some q \<and> h q = Some \<lparr>cn_function = Some f, cn_arg1 = a, cn_arg2 = b, cn_next = r\<rparr> \<and> h0 q = None \<and> chain r cs (h(q := None)) h0)"

lemma cleanup_loop_chain: "chain p cs h h0 \<Longrightarrow> cleanup_loop p h = Some (cs, h0)"
proof (induction cs arbitrary: p h)
  case Nil
  then show ?case by (subst cleanup_loop.simps) simp
next
  case (Cons c cs)
  obtain f a b where c: "c = (f, a, b)" by (cases c)
  with Cons.prems obtain q r where "p = Some q" "h q = Some \<lparr>cn_function = Some f, cn_arg1 = a, cn_arg2 = b, cn_next = r\<rparr>"
    "chain r cs (h(q := None)) h0" by auto
  moreover from this(3) have "cleanup_loop r (h(q := None)) = Some (cs, h0)" by (rule Cons.IH)
  ultimately show ?case by (subst cleanup_loop.simps) (simp add: c CleanupNode_Run_def)
qed

fun iterator_chain :: "('f \<times> 'a \<times> 'a) list \<Rightarrow> ('f, 'a) CleanupNode \<Rightarrow> ('f, 'a) cleanup_heap \<Rightarrow> ('f, 'a) cleanup_heap \<Rightarrow> bool" where
  "iterator_chain [] n h h0 \<longleftrightarrow> cn_function n = None \<and> cn_next n = None \<and> h = h0"
| "iterator_chain ((f, a, b) # cs) n h h0 \<longleftrightarrow> cn_function n = Some f \<and> cn_arg1 n = a \<and> cn_arg2 n = b \<and> chain (cn_next n) (rev cs) h h0"

text \<open>Each registration with the address the allocator returns for it.\<close>

fun register_all ::
    "(nat \<times> 'f \<times> 'a \<times> 'a) list \<Rightarrow> ('f, 'a) CleanupNode \<times> ('f, 'a) cleanup_heap \<Rightarrow> (('f, 'a) CleanupNode \<times> ('f, 'a) cleanup_heap) option" where
  "register_all [] s = Some s"
| "register_all ((new, f, a, b) # rs) s = (if snd s new = None then Option.bind (RegisterCleanup new (Some f) a b s) (register_all rs) else None)"

lemma chain_fresh: "chain p cs h h0 \<Longrightarrow> h new = None \<Longrightarrow> h0 new = None"
proof (induction cs arbitrary: p h)
  case (Cons c cs)
  obtain f a b where c: "c = (f, a, b)" by (cases c)
  with Cons.prems(1) obtain q r where "h0 q = None" "chain r cs (h(q := None)) h0" by auto
  then show ?case using Cons.IH [OF \<open>chain r cs (h(q := None)) h0\<close>] Cons.prems(2) by simp
qed simp

lemma RegisterCleanup_chain:
  assumes "iterator_chain cs n h h0" "h new = None"
  shows "\<exists>n' h'. RegisterCleanup new (Some f) a b (n, h) = Some (n', h') \<and> iterator_chain (cs @ [(f, a, b)]) n' h' h0 \<and>
    (h' = h \<or> (\<exists>x. h' = h(new \<mapsto> x)))"
proof (cases cs)
  case Nil
  then show ?thesis using assms by (simp add: RegisterCleanup_def CleanupNode_IsEmpty_def)
next
  case (Cons c ds)
  obtain f' a' b' where c: "c = (f', a', b')" by (cases c)
  have "chain (cn_next n) (rev ds) h h0" using assms(1) Cons c by simp
  then have "h0 new = None" and "h(new := None) = h" using chain_fresh assms(2) by auto
  then show ?thesis using assms Cons c by (auto simp: RegisterCleanup_def CleanupNode_IsEmpty_def)
qed

lemma register_all_chain:
  assumes "iterator_chain cs n h h0" "\<forall>x\<in>set (map fst rs). h x = None" "distinct (map fst rs)"
  shows "\<exists>n' h'. register_all rs (n, h) = Some (n', h') \<and> iterator_chain (cs @ map snd rs) n' h' h0"
  using assms
proof (induction rs arbitrary: cs n h)
  case (Cons r rs)
  obtain new f a b where r: "r = (new, f, a, b)" by (cases r)
  obtain n1 h1 where 1: "RegisterCleanup new (Some f) a b (n, h) = Some (n1, h1)" "iterator_chain (cs @ [(f, a, b)]) n1 h1 h0"
    "h1 = h \<or> (\<exists>x. h1 = h(new \<mapsto> x))"
    using RegisterCleanup_chain [OF Cons.prems(1), of new f a b] Cons.prems(2) by (auto simp: r)
  have "h1 x = None" if "x \<in> set (map fst rs)" for x
    using 1(3) that Cons.prems(2,3) by (auto simp: r simp del: set_map)
  then have "\<forall>x\<in>set (map fst rs). h1 x = None" by blast
  from Cons.IH [OF 1(2) this] Cons.prems(2,3) 1(1) show ?case by (simp add: r)
qed simp

definition cleanup_order :: "'c list \<Rightarrow> 'c list" where
  "cleanup_order cs = (case cs of [] \<Rightarrow> [] | c # cs \<Rightarrow> c # rev cs)"

text \<open>C35. Whatever cleanup functions are registered with an iterator, its destructor calls each of them exactly once, the first one
  registered first and the others in the reverse order of their registration, and frees every node it allocated; nothing is read
  after it is freed.\<close>

theorem cleanup_runs_once:
  assumes "\<forall>x\<in>set (map fst rs). heap x = None" "distinct (map fst rs)"
  shows "\<exists>s. register_all rs (Iterator_new u, heap) = Some s \<and> Iterator_destroy s = Some (cleanup_order (map snd rs), heap)"
proof -
  have "iterator_chain [] (Iterator_new u) heap heap" by (simp add: Iterator_new_def)
  from register_all_chain [OF this assms] obtain n h where
    s: "register_all rs (Iterator_new u, heap) = Some (n, h)" "iterator_chain (map snd rs) n h heap" by auto
  have "Iterator_destroy (n, h) = Some (cleanup_order (map snd rs), heap)"
  proof (cases "map snd rs")
    case Nil
    then show ?thesis using s(2) by (simp add: Iterator_destroy_def CleanupNode_IsEmpty_def cleanup_order_def)
  next
    case (Cons c cs)
    obtain f a b where c: "c = (f, a, b)" by (cases c)
    have "iterator_chain (c # cs) n h heap" using s(2) unfolding Cons .
    then show ?thesis unfolding Cons
      by (auto simp: c Iterator_destroy_def CleanupNode_IsEmpty_def CleanupNode_Run_def cleanup_order_def
          dest!: cleanup_loop_chain)
  qed
  then show ?thesis using s(1) by blast
qed

theorem cleanup_runs_once_witness:
  "\<exists>s. register_all [(1, ''a'', 0, 0), (2, ''b'', 0, 1), (3, ''c'', 5, 6 :: int)] (Iterator_new 9, Map.empty) = Some s \<and>
    Iterator_destroy s = Some ([(''a'', 0, 0), (''c'', 5, 6), (''b'', 0, 1)], Map.empty)"
  using cleanup_runs_once [of "[(1, ''a'', 0, 0), (2, ''b'', 0, 1), (3, ''c'', 5, 6 :: int)]" Map.empty 9]
  by (simp add: cleanup_order_def)

section \<open>The contract of an iterator\<close>

text \<open>
  \<open>at s p\<close>: the iterator in state \<open>s\<close> is at position \<open>p\<close> of \<open>entries\<close>, \<open>None\<close> if it is not valid; \<open>before k t\<close> says that the key \<open>k\<close> comes
  before \<open>t\<close>, for targets that satisfy \<open>target_ok\<close>.
\<close>

definition first_from :: "('e \<Rightarrow> bool) \<Rightarrow> 'e list \<Rightarrow> nat option" where
  "first_from P xs = (if \<exists>x\<in>set xs. P x then Some (length (takeWhile (\<lambda>x. \<not> P x) xs)) else None)"

locale iterator_contract =
  fixes it :: "'s Iterator" and entries :: "(bytes \<times> bytes) list" and at :: "'s \<Rightarrow> nat option \<Rightarrow> bool"
    and before :: "bytes \<Rightarrow> bytes \<Rightarrow> bool" and target_ok :: "bytes \<Rightarrow> bool"
  assumes bounded: "at s (Some i) \<Longrightarrow> i < length entries"
    and valid: "at s p \<Longrightarrow> It_Valid it s \<longleftrightarrow> p \<noteq> None"
    and entry: "at s (Some i) \<Longrightarrow> It_key it s = Some (fst (entries ! i)) \<and> It_value it s = Some (snd (entries ! i))"
    and seek_first: "at s p \<Longrightarrow> \<exists>s'. It_SeekToFirst it s = Some s' \<and> at s' (if entries = [] then None else Some 0)"
    and seek_last: "at s p \<Longrightarrow> \<exists>s'. It_SeekToLast it s = Some s' \<and> at s' (if entries = [] then None else Some (length entries - 1))"
    and seek: "at s p \<Longrightarrow> target_ok t \<Longrightarrow> \<exists>s'. It_Seek it t s = Some s' \<and> at s' (first_from (\<lambda>e. \<not> before (fst e) t) entries)"
    and next_step: "at s (Some i) \<Longrightarrow> \<exists>s'. It_Next it s = Some s' \<and> at s' (if Suc i < length entries then Some (Suc i) else None)"
    and prev_step: "at s (Some i) \<Longrightarrow> \<exists>s'. It_Prev it s = Some s' \<and> at s' (if i = 0 then None else Some (i - 1))"

text \<open>Reading on to the end, and back to the beginning.\<close>

partial_function (option) scan :: "('s \<Rightarrow> 's option) \<Rightarrow> 's Iterator \<Rightarrow> 's \<Rightarrow> (bytes \<times> bytes) list option" where
  "scan move it s =
     (if It_Valid it s then
        Option.bind (It_key it s) (\<lambda>k. Option.bind (It_value it s) (\<lambda>v. Option.bind (move s) (\<lambda>s'.
          Option.bind (scan move it s') (\<lambda>es. Some ((k, v) # es)))))
      else Some [])"

context iterator_contract
begin

lemma scan_invalid: "at s None \<Longrightarrow> scan move it s = Some []"
  by (subst scan.simps) (simp add: valid)

lemma scan_step:
  assumes "at s (Some i)" "move s = Some s'" "scan move it s' = Some es"
  shows "scan move it s = Some (entries ! i # es)"
  using assms valid [OF assms(1)] entry [OF assms(1)] by (subst scan.simps) simp

lemma scan_next: "at s (Some i) \<Longrightarrow> scan (It_Next it) it s = Some (drop i entries)"
proof (induction "length entries - i" arbitrary: i s rule: less_induct)
  case less
  note i = bounded [OF less.prems]
  from next_step [OF less.prems] obtain s' where
    s': "It_Next it s = Some s'" "at s' (if Suc i < length entries then Some (Suc i) else None)" by blast
  have "scan (It_Next it) it s' = Some (drop (Suc i) entries)"
    using s'(2) i less.hyps [of "Suc i" s'] scan_invalid by (cases "Suc i < length entries") auto
  from scan_step [where move = "It_Next it", OF less.prems s'(1) this] show ?case using i by (simp add: Cons_nth_drop_Suc)
qed

lemma scan_prev: "at s (Some i) \<Longrightarrow> scan (It_Prev it) it s = Some (rev (take (Suc i) entries))"
proof (induction i arbitrary: s)
  case 0
  from prev_step [OF 0] obtain s' where s': "It_Prev it s = Some s'" "at s' None" by auto
  from scan_step [where move = "It_Prev it", OF 0 s'(1) scan_invalid [OF s'(2)]] bounded [OF 0] show ?case by (cases entries) auto
next
  case (Suc i)
  from prev_step [OF Suc.prems] obtain s' where s': "It_Prev it s = Some s'" "at s' (Some i)" by auto
  from scan_step [where move = "It_Prev it", OF Suc.prems s'(1) Suc.IH [OF s'(2)]] bounded [OF Suc.prems] show ?case
    by (simp add: take_Suc_conv_app_nth)
qed

lemma scan_all:
  assumes "at s p"
  shows "Option.bind (It_SeekToFirst it s) (scan (It_Next it) it) = Some entries"
    and "Option.bind (It_SeekToLast it s) (scan (It_Prev it) it) = Some (rev entries)"
proof -
  from seek_first [OF assms] obtain s' where "It_SeekToFirst it s = Some s'" "at s' (if entries = [] then None else Some 0)" by blast
  then show "Option.bind (It_SeekToFirst it s) (scan (It_Next it) it) = Some entries"
    using scan_invalid scan_next by (cases "entries = []") auto
  from seek_last [OF assms] obtain s' where
    "It_SeekToLast it s = Some s'" "at s' (if entries = [] then None else Some (length entries - 1))" by blast
  then show "Option.bind (It_SeekToLast it s) (scan (It_Prev it) it) = Some (rev entries)"
    using scan_invalid scan_prev by (cases "entries = []") auto
qed

lemma scan_from:
  assumes "at s p" "target_ok t"
  shows "Option.bind (It_Seek it t s) (scan (It_Next it) it) = Some (dropWhile (\<lambda>e. before (fst e) t) entries)"
proof -
  from seek [OF assms] obtain s' where s': "It_Seek it t s = Some s'" "at s' (first_from (\<lambda>e. \<not> before (fst e) t) entries)" by blast
  show ?thesis
  proof (cases "\<exists>e\<in>set entries. \<not> before (fst e) t")
    case True
    then show ?thesis using s' scan_next by (auto simp: first_from_def dropWhile_eq_drop)
  next
    case False
    then have "dropWhile (\<lambda>e. before (fst e) t) entries = []" by (simp add: dropWhile_eq_Nil_conv)
    then have none: "[] = dropWhile (\<lambda>e. before (fst e) t) entries" by (rule sym)
    have "at s' None" using s'(2) False by (simp add: first_from_def)
    then show ?thesis unfolding none [symmetric] using s'(1) scan_invalid by simp
  qed
qed

end

section \<open>Empty iterators\<close>

definition EmptyIterator :: "Status \<Rightarrow> unit Iterator" where
  "EmptyIterator s =
    \<lparr>It_Valid = \<lambda>_. False, It_SeekToFirst = Some, It_SeekToLast = Some, It_Seek = \<lambda>_. Some, It_Next = \<lambda>_. None, It_Prev = \<lambda>_. None,
     It_key = \<lambda>_. None, It_value = \<lambda>_. None, It_status = \<lambda>_. s\<rparr>"

definition NewEmptyIterator :: "unit Iterator" where
  "NewEmptyIterator = EmptyIterator OK"

definition NewErrorIterator :: "Status \<Rightarrow> unit Iterator" where
  "NewErrorIterator status = EmptyIterator status"

interpretation empty_iterator: iterator_contract "EmptyIterator st" "[]" "\<lambda>_ p. p = None" before "\<lambda>_. True"
  by unfold_locales (simp_all add: EmptyIterator_def first_from_def)

end
