(* ===== verification/Memtable_iterator.thy ===== *)
theory Memtable_iterator
  imports Memtable Iterator
begin

text \<open>
  \<^verbatim>\<open>db/memtable.cc\<close>: \<^verbatim>\<open>class MemTableIterator\<close> as an implementation of the iterator interface, and its refinement of the contract in
  \<^verbatim>\<open>include/iterator.h\<close>.  The state of the iterator is the node its skip list iterator points to.
\<close>

definition MemTableIterator :: "Comparator \<Rightarrow> memtable \<Rightarrow> nat option Iterator" where
  "MemTableIterator uc mt =
    \<lparr>It_Valid = Iterator_Valid, It_SeekToFirst = \<lambda>_. Some (MemTableIterator_SeekToFirst mt), It_SeekToLast = \<lambda>_. MemTableIterator_SeekToLast mt,
     It_Seek = \<lambda>k _. MemTableIterator_Seek uc mt k, It_Next = MemTableIterator_Next mt, It_Prev = MemTableIterator_Prev uc mt,
     It_key = MemTableIterator_key mt, It_value = MemTableIterator_value mt, It_status = \<lambda>_. OK\<rparr>"

definition mem_entries :: "memtable \<Rightarrow> (bytes \<times> bytes) list" where
  "mem_entries mt = map (\<lambda>e. (Mem_GetLengthPrefixedSlice e, Mem_GetLengthPrefixedSlice (snd (split_prefixed e)))) (sl_items (mt_table mt))"

definition mem_at :: "memtable \<Rightarrow> nat option \<Rightarrow> nat option \<Rightarrow> bool" where
  "mem_at mt node p \<longleftrightarrow> (case p of None \<Rightarrow> node = None
     | Some i \<Rightarrow> i < length (sl_nodes (mt_table mt)) \<and> node = Some (sl_nodes (mt_table mt) ! i))"

lemma mem_entries_nth:
  assumes "i < length (sl_nodes (mt_table mt))"
  shows "MemTableIterator_key mt (Some (sl_nodes (mt_table mt) ! i)) = Some (fst (mem_entries mt ! i))"
    and "MemTableIterator_value mt (Some (sl_nodes (mt_table mt) ! i)) = Some (snd (mem_entries mt ! i))"
  using assms by (simp_all add: MemTableIterator_key_def MemTableIterator_value_def Iterator_key_def mem_entries_def sl_items_def)

lemma length_mem_entries [simp]: "length (mem_entries mt) = length (sl_nodes (mt_table mt))"
  by (simp add: mem_entries_def sl_items_def)

lemma EncodeKey_slice: "length t < 2 ^ 32 \<Longrightarrow> Mem_GetLengthPrefixedSlice (EncodeKey t) = t"
  using split_prefixed_Put [of t "[]"] by (simp add: EncodeKey_def PutVarint32_def Mem_GetLengthPrefixedSlice_def)

text \<open>The search in terms of positions.\<close>

lemma Seek_position:
  assumes "ordering cmp" "sl_inv cmp sl"
  shows "Iterator_Seek cmp sl k = Some (map_option (\<lambda>i. sl_nodes sl ! i) (first_from (\<lambda>e. \<not> cmp e k < 0) (sl_items sl)))"
    and "first_from (\<lambda>e. \<not> cmp e k < 0) (sl_items sl) = Some i \<Longrightarrow> i < length (sl_nodes sl)"
proof -
  obtain A B where AB: "sl_nodes sl = A @ B" "linked sl (A @ B)" "\<forall>a \<in> set A. cmp (nkey sl a) k < 0"
    "\<forall>b \<in> set B. \<not> cmp (nkey sl b) k < 0" "map (nkey sl) A = takeWhile (\<lambda>x. cmp x k < 0) (sl_items sl)"
    "map (nkey sl) B = dropWhile (\<lambda>x. cmp x k < 0) (sl_items sl)"
    using ordering.sl_split [OF assms] .
  have "(\<exists>e\<in>set (sl_items sl). \<not> cmp e k < 0) \<longleftrightarrow> B \<noteq> []"
    using AB(1,3,4) by (cases B) (auto simp: sl_items_def)
  then have f: "first_from (\<lambda>e. \<not> cmp e k < 0) (sl_items sl) = (if B = [] then None else Some (length A))"
    using arg_cong [OF AB(5), of length] by (simp add: first_from_def)
  show "Iterator_Seek cmp sl k = Some (map_option (\<lambda>i. sl_nodes sl ! i) (first_from (\<lambda>e. \<not> cmp e k < 0) (sl_items sl)))"
    unfolding f Iterator_Seek_def FindGreaterOrEqual_spec(1) [where cmp = cmp, OF AB(2-4)] using AB(1) by (cases B) simp_all
  show "i < length (sl_nodes sl)" if "first_from (\<lambda>e. \<not> cmp e k < 0) (sl_items sl) = Some i"
    using that unfolding f using AB(1) by (cases B) auto
qed

lemma first_from_map: "first_from P (map f xs) = first_from (\<lambda>x. P (f x)) xs"
  by (simp add: first_from_def takeWhile_map comp_def)

lemma memtable_iterator_contract:
  assumes tw: "three_way (Compare uc)" and inv: "sl_inv (KeyComparator uc) (mt_table mt)"
    and strict: "sorted_wrt (\<lambda>a b. KeyComparator uc a b < 0) (sl_items (mt_table mt))"
  shows "iterator_contract (MemTableIterator uc mt) (mem_entries mt) (mem_at mt) (\<lambda>k t. IKC_Compare uc k t < 0) (\<lambda>t. length t < 2 ^ 32)"
proof
  let ?ns = "sl_nodes (mt_table mt)"
  note ord = three_way.axioms_ordering [OF KeyComparator_three_way [OF tw]]
  note unf = MemTableIterator_def MemTableIterator_SeekToFirst_def MemTableIterator_SeekToLast_def MemTableIterator_Next_def
    MemTableIterator_Prev_def mem_at_def
  fix s p i and t :: bytes
  show "mem_at mt s (Some i) \<Longrightarrow> i < length (mem_entries mt)" by (simp add: mem_at_def)
  show "mem_at mt s p \<Longrightarrow> It_Valid (MemTableIterator uc mt) s = (p \<noteq> None)"
    by (auto simp: MemTableIterator_def Iterator_Valid_def mem_at_def split: option.splits)
  show "mem_at mt s (Some i) \<Longrightarrow> It_key (MemTableIterator uc mt) s = Some (fst (mem_entries mt ! i)) \<and>
      It_value (MemTableIterator uc mt) s = Some (snd (mem_entries mt ! i))"
    by (auto simp: MemTableIterator_def mem_at_def mem_entries_nth)
  have empty: "mem_entries mt = [] \<longleftrightarrow> ?ns = []" by (metis length_0_conv length_mem_entries)
  show "\<exists>s'. It_SeekToFirst (MemTableIterator uc mt) s = Some s' \<and> mem_at mt s' (if mem_entries mt = [] then None else Some 0)"
    using SeekToFirst_hd [OF inv] unfolding empty by (cases ?ns) (auto simp: unf)
  show "\<exists>s'. It_SeekToLast (MemTableIterator uc mt) s = Some s' \<and>
      mem_at mt s' (if mem_entries mt = [] then None else Some (length (mem_entries mt) - 1))"
    using SeekToLast_last [OF inv] unfolding empty by (cases "?ns = []") (auto simp: unf last_conv_nth)
  show "\<exists>s'. It_Next (MemTableIterator uc mt) s = Some s' \<and> mem_at mt s' (if Suc i < length (mem_entries mt) then Some (Suc i) else None)"
    if "mem_at mt s (Some i)"
    using that Next_nth [OF inv, of i] by (auto simp: unf)
  show "\<exists>s'. It_Prev (MemTableIterator uc mt) s = Some s' \<and> mem_at mt s' (if i = 0 then None else Some (i - 1))" if "mem_at mt s (Some i)"
    using that ordering.Prev_nth [OF ord inv strict, of i] by (auto simp: unf)
  assume "length t < 2 ^ 32"
  then have "first_from (\<lambda>e. \<not> IKC_Compare uc (fst e) t < 0) (mem_entries mt) =
      first_from (\<lambda>e. \<not> KeyComparator uc e (EncodeKey t) < 0) (sl_items (mt_table mt))"
    by (simp add: mem_entries_def first_from_map KeyComparator_def EncodeKey_slice)
  then show "\<exists>s'. It_Seek (MemTableIterator uc mt) t s = Some s' \<and>
      mem_at mt s' (first_from (\<lambda>e. \<not> IKC_Compare uc (fst e) t < 0) (mem_entries mt))"
    using Seek_position [OF ord inv, of "EncodeKey t"]
    by (auto simp: MemTableIterator_def MemTableIterator_Seek_def mem_at_def split: option.splits)
qed

lemma sorted_wrt_symmetric:
  assumes "\<And>a b. R a b \<Longrightarrow> R b a" "sorted_wrt R xs" "mset ys = mset xs"
  shows "sorted_wrt R ys"
  using assms(2,3)
proof (induction ys arbitrary: xs)
  case (Cons y ys)
  then have "y \<in> set xs" by (metis list.set_intros(1) mset_eq_setD)
  then obtain us ws where xs: "xs = us @ y # ws" by (auto simp: in_set_conv_decomp)
  then have m: "mset ys = mset (us @ ws)" using Cons.prems(2) by simp
  have "\<forall>z\<in>set (us @ ws). R y z" "sorted_wrt R (us @ ws)" using Cons.prems(1) assms(1) by (auto simp: xs sorted_wrt_append)
  then show ?case using Cons.IH [OF _ m] mset_eq_setD [OF m] by simp
qed simp

text \<open>The entries of a memtable filled with versions are those versions, strictly ordered by their internal keys.\<close>

lemma memtable_entries:
  assumes "three_way (Compare uc)" "list_all version_ok h" "sorted_wrt (\<lambda>a b. version_cmp uc b a \<noteq> 0) h"
  shows "\<exists>mt vs. insert_all (Add_version nc uc) h (MemTable_new nc) = Some mt \<and> mset vs = mset h \<and>
    sorted_wrt (\<lambda>a b. version_cmp uc a b < 0) vs \<and> mem_entries mt = map (\<lambda>v. (ikey_of v, v_value v)) vs \<and>
    sl_inv (KeyComparator uc) (mt_table mt) \<and> sorted_wrt (\<lambda>a b. KeyComparator uc a b < 0) (sl_items (mt_table mt))"
proof -
  note tw = KeyComparator_three_way [OF assms(1)]
  obtain mt where mt: "insert_all (Add_version nc uc) h (MemTable_new nc) = Some mt"
    "sl_inv (KeyComparator uc) (mt_table mt)" "mset (sl_items (mt_table mt)) = mset (map entry_of h)"
    using memtable_build [OF three_way.axioms_ordering [OF tw] assms(2,3)] .
  obtain vs where vs: "sl_items (mt_table mt) = map entry_of vs" "mset vs = mset h"
    using mset_map_reorder [OF mt(3)] by blast
  have ok: "version_ok v" if "v \<in> set vs" for v
    using that assms(2) mset_eq_setD [OF vs(2)] by (auto simp: list_all_iff)
  have e: "mem_entries mt = map (\<lambda>v. (ikey_of v, v_value v)) vs" using ok by (simp add: mem_entries_def vs(1) split_entry(2,3))
  have cmp: "KeyComparator uc (entry_of a) (entry_of b) = version_cmp uc a b" if "a \<in> set vs" "b \<in> set vs" for a b
    using that ok by (simp add: KeyComparator_entry)
  have kc: "sorted_wrt (\<lambda>a b. KeyComparator uc a b \<noteq> 0) (sl_items (mt_table mt))"
  proof (rule sorted_wrt_symmetric [OF _ _ mt(3)])
    show "KeyComparator uc b a \<noteq> 0" if "KeyComparator uc a b \<noteq> 0" for a b using that three_way.cmp_0_sym [OF tw] by blast
    show "sorted_wrt (\<lambda>a b. KeyComparator uc a b \<noteq> 0) (map entry_of h)"
      using assms(2,3) three_way.cmp_0_sym [OF tw]
      by (induction h) (auto simp: list_all_iff KeyComparator_entry [symmetric])
  qed
  have "sorted_wrt (\<lambda>a b. \<not> KeyComparator uc b a < 0) (sl_items (mt_table mt))" using mt(2) by (simp add: sl_inv_def)
  then have strict: "sorted_wrt (\<lambda>a b. KeyComparator uc a b < 0) (sl_items (mt_table mt))"
    using kc by (auto simp: sorted_wrt_iff_nth_less three_way.cmp_0_iff [OF tw])
  then have "sorted_wrt (\<lambda>a b. KeyComparator uc (entry_of a) (entry_of b) < 0) vs" by (simp add: vs(1) sorted_wrt_map)
  then have "sorted_wrt (\<lambda>a b. version_cmp uc a b < 0) vs" by (rule sorted_wrt_mono_rel [rotated]) (simp add: cmp)
  then show ?thesis using mt(1,2) vs(2) e strict by blast
qed

text \<open>C27. The memtable's iterator keeps the contract of the iterator interface: after any sequence of additions of versions, no two with
  equal internal keys, reading forward from \<open>SeekToFirst\<close> delivers exactly the versions added, each with its internal key and its
  value, in strictly ascending order; reading back from \<open>SeekToLast\<close> delivers them in descending order; and reading on from
  \<open>Seek\<close> delivers those at or past the target.\<close>

theorem memtable_scan:
  assumes "three_way (Compare uc)" "list_all version_ok h" "sorted_wrt (\<lambda>a b. version_cmp uc b a \<noteq> 0) h" "length t < 2 ^ 32"
  shows "\<exists>mt vs. insert_all (Add_version nc uc) h (MemTable_new nc) = Some mt \<and> mset vs = mset h \<and>
    sorted_wrt (\<lambda>a b. version_cmp uc a b < 0) vs \<and>
    (let it = MemTableIterator uc mt; es = map (\<lambda>v. (ikey_of v, v_value v)) vs in
      Option.bind (It_SeekToFirst it None) (scan (It_Next it) it) = Some es \<and>
      Option.bind (It_SeekToLast it None) (scan (It_Prev it) it) = Some (rev es) \<and>
      Option.bind (It_Seek it t None) (scan (It_Next it) it) = Some (dropWhile (\<lambda>e. IKC_Compare uc (fst e) t < 0) es))"
proof -
  obtain mt vs where m: "insert_all (Add_version nc uc) h (MemTable_new nc) = Some mt" "mset vs = mset h"
    "sorted_wrt (\<lambda>a b. version_cmp uc a b < 0) vs" "mem_entries mt = map (\<lambda>v. (ikey_of v, v_value v)) vs"
    "sl_inv (KeyComparator uc) (mt_table mt)" "sorted_wrt (\<lambda>a b. KeyComparator uc a b < 0) (sl_items (mt_table mt))"
    using memtable_entries [OF assms(1-3), of nc] by blast
  note c = memtable_iterator_contract [OF assms(1) m(5,6)]
  have start: "mem_at mt None None" by (simp add: mem_at_def)
  show ?thesis
    using m(1-3) iterator_contract.scan_all [OF c start] iterator_contract.scan_from [OF c start assms(4)]
    unfolding m(4) Let_def by blast
qed

theorem memtable_scan_witness:
  "\<exists>mt. insert_all (Add_version bump_new reference_comparator)
       [\<lparr>v_key = [97], v_seq = 3, v_type = kTypeValue, v_value = [1]\<rparr>] (MemTable_new bump_new) = Some mt \<and>
     (let it = MemTableIterator reference_comparator mt in
      map_option (map snd) (Option.bind (It_SeekToFirst it None) (scan (It_Next it) it)) = Some [[1]])"
proof -
  let ?h = "[\<lparr>v_key = [97], v_seq = 3, v_type = kTypeValue, v_value = [1]\<rparr>] :: version list"
  have max: "kMaxSequenceNumber = 72057594037927935" by (simp add: kMaxSequenceNumber_def push_bit_eq_mult)
  have "list_all version_ok ?h" by (simp add: version_ok_def max type_defs)
  from memtable_scan [OF reference.three_way_axioms this, of "[]" bump_new] show ?thesis by (auto simp: Let_def)
qed

end
