(* ===== verification/Skiplist_concurrent.thy ===== *)
theory Skiplist_concurrent
  imports Skiplist
begin

text \<open>
  \<^verbatim>\<open>db/skiplist.h\<close> with concurrent readers.  The skip list is written by one thread at a time (\<^verbatim>\<open>Insert\<close> requires external
  synchronisation) and read by any number of threads without locks.  Every access of a reader to a shared \<^verbatim>\<open>next_\<close> pointer is a step of its
  own, and so is every store of the writer that readers can see; the steps of the threads interleave in any order.

  \<^item> Only the writer stores to the list, so what it reads during its search cannot change: the search is one step.  Then come the store
    to \<^verbatim>\<open>max_height_\<close>, the creation of the node, and per level the two stores of the loop, in their order.
  \<^item> A reader loads \<^verbatim>\<open>max_height_\<close> without ordering, so it may see any older value: every height between 1 and the current one.
  \<^item> The release stores of \<^verbatim>\<open>SetNext\<close> and the acquire loads of \<^verbatim>\<open>Next\<close> make what was written before a pointer visible to who reads
    the pointer.  Therefore the stores take effect in program order; a load of a pointer returns the latest store that took effect.
  \<^item> \<^verbatim>\<open>Contains\<close> is the search of \<^verbatim>\<open>Seek\<close> and a comparison of the immutable key of the node found.
\<close>

section \<open>The writer\<close>

datatype 'k writer =
    W_idle
  | W_insert 'k
  | W_height 'k "nat option list" nat
  | W_alloc 'k "nat option list" nat
  | W_link nat "nat option list" nat nat
  | W_publish nat "nat option list" nat nat

text \<open>\<open>W_link x prev height i\<close> is about to set \<^verbatim>\<open>x->next_[i]\<close>, \<open>W_publish x prev height i\<close> about to set \<^verbatim>\<open>prev[i]->next_[i]\<close>.\<close>

definition next_level :: "nat \<Rightarrow> nat option list \<Rightarrow> nat \<Rightarrow> nat \<Rightarrow> 'k writer" where
  "next_level x prev height i = (if i < height then W_link x prev height i else W_idle)"

definition writer_step ::
    "(region list \<Rightarrow> nat \<Rightarrow> nat) \<Rightarrow> ('k \<Rightarrow> 'k \<Rightarrow> int) \<Rightarrow> 'k writer \<times> 'k skiplist \<Rightarrow> ('k writer \<times> 'k skiplist) option" where
  "writer_step new_char cmp = (\<lambda>(w, sl).
     case w of
       W_idle \<Rightarrow> None
     | W_insert key \<Rightarrow>
         (case FindGreaterOrEqual cmp sl key (Some (replicate kMaxHeight None)) of
            Some (x, Some prev) \<Rightarrow>
              if (case x of None \<Rightarrow> True | Some i \<Rightarrow> \<not> Equal cmp key (node_key (nodes sl ! i)))
              then let (height, seed) = RandomHeight (rnd sl) in Some (W_height key prev height, sl\<lparr>rnd := seed\<rparr>)
              else None
          | _ \<Rightarrow> None)
     | W_height key prev height \<Rightarrow>
         if max_height sl < height
         then Some (W_alloc key (fold (\<lambda>i p. p[i := Some head]) [max_height sl..<height] prev) height, sl\<lparr>max_height := height\<rparr>)
         else Some (W_alloc key prev height, sl)
     | W_alloc key prev height \<Rightarrow>
         let (x, sl) = NewNode new_char key height sl in Some (next_level x prev height 0, sl)
     | W_link x prev height i \<Rightarrow>
         (case prev ! i of
            None \<Rightarrow> None
          | Some p \<Rightarrow> Some (W_publish x prev height i, SetNext x i (Next sl p i) sl))
     | W_publish x prev height i \<Rightarrow>
         (case prev ! i of
            None \<Rightarrow> None
          | Some p \<Rightarrow> Some (next_level x prev height (i + 1), SetNext p i (Some x) sl)))"

section \<open>Readers\<close>

text \<open>
  A reader is an iterator: it has a current node, or is in the middle of a search, at a node and a level.  \<open>Q_seek\<close> is
  \<^verbatim>\<open>FindGreaterOrEqual\<close>, \<open>Q_before\<close> \<^verbatim>\<open>FindLessThan\<close> and \<open>Q_last\<close> \<^verbatim>\<open>FindLast\<close>.
\<close>

datatype 'k query = Q_seek 'k | Q_before 'k | Q_last

datatype 'k reader = Cursor "nat option" | Searching "'k query" nat nat

fun goes_right :: "('k \<Rightarrow> 'k \<Rightarrow> int) \<Rightarrow> 'k skiplist \<Rightarrow> 'k query \<Rightarrow> nat option \<Rightarrow> bool" where
  "goes_right cmp sl (Q_seek k) nxt \<longleftrightarrow> KeyIsAfterNode cmp sl k nxt"
| "goes_right cmp sl (Q_before k) nxt \<longleftrightarrow> (case nxt of None \<Rightarrow> False | Some n \<Rightarrow> cmp (node_key (nodes sl ! n)) k < 0)"
| "goes_right cmp sl Q_last nxt \<longleftrightarrow> nxt \<noteq> None"

fun found :: "'k query \<Rightarrow> nat \<Rightarrow> nat option \<Rightarrow> nat option" where
  "found (Q_seek k) x nxt = nxt"
| "found (Q_before k) x nxt = (if x = head then None else Some x)"
| "found Q_last x nxt = (if x = head then None else Some x)"

text \<open>One iteration of the loop of a search; the assertion of \<^verbatim>\<open>FindLessThan\<close> is checked first.\<close>

definition reader_step :: "('k \<Rightarrow> 'k \<Rightarrow> int) \<Rightarrow> 'k skiplist \<Rightarrow> 'k reader \<Rightarrow> 'k reader option" where
  "reader_step cmp sl r =
     (case r of
        Cursor _ \<Rightarrow> None
      | Searching q x level \<Rightarrow>
          if (case q of Q_before k \<Rightarrow> x = head \<or> cmp (node_key (nodes sl ! x)) k < 0 | _ \<Rightarrow> True) then
            let nxt = Next sl x level in
            Some (if goes_right cmp sl q nxt then Searching q (the nxt) level
                  else if level = 0 then Cursor (found q x nxt)
                  else Searching q x (level - 1))
          else None)"

text \<open>The calls of the methods of an iterator; \<open>h\<close> is the value the load of \<^verbatim>\<open>max_height_\<close> returns.\<close>

inductive reader_call :: "'k skiplist \<Rightarrow> 'k reader \<Rightarrow> 'k reader \<Rightarrow> bool" where
  seek: "1 \<le> h \<Longrightarrow> h \<le> max_height sl \<Longrightarrow> reader_call sl (Cursor c) (Searching (Q_seek k) head (h - 1))"
| seek_to_first: "reader_call sl (Cursor c) (Cursor (Next sl head 0))"
| seek_to_last: "1 \<le> h \<Longrightarrow> h \<le> max_height sl \<Longrightarrow> reader_call sl (Cursor c) (Searching Q_last head (h - 1))"
| next_node: "reader_call sl (Cursor (Some x)) (Cursor (Next sl x 0))"
| prev_node: "1 \<le> h \<Longrightarrow> h \<le> max_height sl \<Longrightarrow>
    reader_call sl (Cursor (Some x)) (Searching (Q_before (node_key (nodes sl ! x))) head (h - 1))"

section \<open>All threads\<close>

record 'k concurrent =
  cs_list :: "'k skiplist"
  cs_writer :: "'k writer"
  cs_readers :: "nat \<Rightarrow> 'k reader"

text \<open>\<^verbatim>\<open>Insert\<close> may be called when no other insertion is in progress and nothing equal to the key is in the list.\<close>

inductive conc_step ::
    "(region list \<Rightarrow> nat \<Rightarrow> nat) \<Rightarrow> ('k \<Rightarrow> 'k \<Rightarrow> int) \<Rightarrow> 'k concurrent \<Rightarrow> 'k concurrent \<Rightarrow> bool" for nc cmp where
  insert: "cs_writer s = W_idle \<Longrightarrow> \<forall>y\<in>set (sl_items (cs_list s)). cmp k y \<noteq> 0 \<Longrightarrow>
    conc_step nc cmp s (s\<lparr>cs_writer := W_insert k\<rparr>)"
| writer: "writer_step nc cmp (cs_writer s, cs_list s) = Some (w, sl) \<Longrightarrow> conc_step nc cmp s (s\<lparr>cs_writer := w, cs_list := sl\<rparr>)"
| call: "reader_call (cs_list s) (cs_readers s t) r \<Longrightarrow> conc_step nc cmp s (s\<lparr>cs_readers := (cs_readers s)(t := r)\<rparr>)"
| reader: "reader_step cmp (cs_list s) (cs_readers s t) = Some r \<Longrightarrow> conc_step nc cmp s (s\<lparr>cs_readers := (cs_readers s)(t := r)\<rparr>)"

inductive conc_reach :: "(region list \<Rightarrow> nat \<Rightarrow> nat) \<Rightarrow> ('k \<Rightarrow> 'k \<Rightarrow> int) \<Rightarrow> 'k concurrent \<Rightarrow> bool" for nc cmp where
  start: "conc_reach nc cmp \<lparr>cs_list = SkipList_init nc z A, cs_writer = W_idle, cs_readers = (\<lambda>_. Cursor None)\<rparr>"
| step: "conc_reach nc cmp s \<Longrightarrow> conc_step nc cmp s s' \<Longrightarrow> conc_reach nc cmp s'"

section \<open>What is published\<close>

text \<open>
  \<open>vis i\<close> is the number of levels at which node \<open>i\<close> can be reached; it is the height of the node unless the node is being linked in.
\<close>

definition vlane :: "(nat \<Rightarrow> nat) \<Rightarrow> nat \<Rightarrow> nat list \<Rightarrow> nat list" where
  "vlane vis l xs = filter (\<lambda>i. l < vis i) xs"

lemma vlane_simps [simp]:
  "vlane vis l [] = []" "vlane vis l (xs @ ys) = vlane vis l xs @ vlane vis l ys"
  "vlane vis l (x # xs) = (if l < vis x then x # vlane vis l xs else vlane vis l xs)"
  by (simp_all add: vlane_def)

lemma set_vlane: "x \<in> set (vlane vis l xs) \<longleftrightarrow> x \<in> set xs \<and> l < vis x"
  by (auto simp: vlane_def)

definition published :: "('k \<Rightarrow> 'k \<Rightarrow> int) \<Rightarrow> 'k skiplist \<Rightarrow> (nat \<Rightarrow> nat) \<Rightarrow> nat list \<Rightarrow> bool" where
  "published cmp sl vis ord \<longleftrightarrow>
     nodes sl \<noteq> [] \<and> node_height sl head = kMaxHeight \<and> 1 \<le> max_height sl \<and> max_height sl \<le> kMaxHeight \<and>
     distinct ord \<and> set ord \<subseteq> {1..<length (nodes sl)} \<and>
     (\<forall>i\<in>set ord. 1 \<le> vis i \<and> vis i \<le> node_height sl i \<and> node_height sl i \<le> max_height sl) \<and>
     sorted_wrt (\<lambda>a b. \<not> cmp (nkey sl b) (nkey sl a) < 0) ord \<and>
     (\<forall>l<kMaxHeight. seg (\<lambda>x. Next sl x l) head (vlane vis l ord) None)"

lemma publishedD:
  assumes "published cmp sl vis ord"
  shows "nodes sl \<noteq> []" "node_height sl head = kMaxHeight" "1 \<le> max_height sl" "max_height sl \<le> kMaxHeight" "distinct ord"
    "i \<in> set ord \<Longrightarrow> 0 < i \<and> i < length (nodes sl)"
    "i \<in> set ord \<Longrightarrow> 1 \<le> vis i \<and> vis i \<le> node_height sl i \<and> node_height sl i \<le> max_height sl"
    "sorted_wrt (\<lambda>a b. \<not> cmp (nkey sl b) (nkey sl a) < 0) ord"
    "l < kMaxHeight \<Longrightarrow> seg (\<lambda>x. Next sl x l) head (vlane vis l ord) None"
  using assms unfolding published_def by auto

lemma published_level_0:
  assumes "published cmp sl vis ord"
  shows "vlane vis 0 ord = ord" "seg (\<lambda>x. Next sl x 0) head ord None"
proof -
  show v: "vlane vis 0 ord = ord" using publishedD(7) [OF assms] by (force simp: vlane_def filter_id_conv)
  then show "seg (\<lambda>x. Next sl x 0) head ord None" using publishedD(9) [OF assms, of 0] by (simp add: kMaxHeight_def)
qed

lemma published_nodes:
  assumes "published cmp sl vis ord"
  shows "sl_nodes sl = ord"
proof -
  have "length ord = card (set ord)" using publishedD(5) [OF assms] by (simp add: distinct_card)
  also have "\<dots> \<le> card {..<length (nodes sl)}" using publishedD(6) [OF assms] by (intro card_mono) auto
  finally show ?thesis unfolding sl_nodes_def by (intro walk_seg [OF published_level_0(2) [OF assms]]) simp
qed

lemma seg_successor: "seg f q xs None \<Longrightarrow> y \<in> set (q # xs) \<Longrightarrow> f y = Some z \<Longrightarrow> z \<in> set xs"
  by (induction xs arbitrary: q) auto

lemma published_successor:
  assumes "published cmp sl vis ord" "l < kMaxHeight" "x = head \<or> x \<in> set ord \<and> l < vis x" "Next sl x l = Some z"
  shows "z \<in> set ord \<and> l < vis z"
  using seg_successor [OF publishedD(9) [OF assms(1,2)], of x z] assms(3,4) by (auto simp: set_vlane)

text \<open>What the steps of the writer before a publication keep.\<close>

lemma published_frame:
  assumes "published cmp sl vis ord" "length (nodes sl) \<le> length (nodes sl')" "max_height sl \<le> max_height sl'" "max_height sl' \<le> kMaxHeight"
    and keep: "\<And>y. y < length (nodes sl) \<Longrightarrow> nkey sl' y = nkey sl y \<and> node_height sl' y = node_height sl y"
    and nxt: "\<And>y l. y = head \<or> y \<in> set ord \<and> l < vis y \<Longrightarrow> Next sl' y l = Next sl y l"
    and vis: "\<And>y. y \<in> set ord \<Longrightarrow> vis' y = vis y"
  shows "published cmp sl' vis' ord"
proof -
  note d = publishedD [OF assms(1)]
  have head: "0 < length (nodes sl)" using d(1) by simp
  have lane: "vlane vis' l ord = vlane vis l ord" for l unfolding vlane_def using vis by (intro filter_cong) auto
  have "seg (\<lambda>x. Next sl' x l) head (vlane vis' l ord) None" if "l < kMaxHeight" for l
  proof -
    have "seg (\<lambda>x. Next sl' x l) head (vlane vis l ord) None = seg (\<lambda>x. Next sl x l) head (vlane vis l ord) None"
      by (intro seg_cong nxt) (auto simp: set_vlane)
    then show ?thesis unfolding lane using d(9) [OF that] by simp
  qed
  moreover have "sorted_wrt (\<lambda>a b. \<not> cmp (nkey sl' b) (nkey sl' a) < 0) ord"
    using d(8) by (rule sorted_wrt_mono_rel [rotated]) (use d(6) keep in auto)
  moreover have "node_height sl' head = kMaxHeight" using keep [OF head] d(2) by simp
  moreover have "1 \<le> vis' i \<and> vis' i \<le> node_height sl' i \<and> node_height sl' i \<le> max_height sl'" if "i \<in> set ord" for i
    using d(6) [OF that] d(7) [OF that] keep [of i] vis [OF that] assms(3) by simp
  moreover have "set ord \<subseteq> {1..<length (nodes sl')}" using d(6) assms(2) by fastforce
  moreover have "nodes sl' \<noteq> []" using head assms(2) by auto
  ultimately show ?thesis using d(3,5) assms(3,4) unfolding published_def by auto
qed

text \<open>Publishing level \<open>i\<close> of the node \<open>x\<close> between \<open>A\<close> and \<open>B\<close>.\<close>

lemma published_publish:
  assumes pub: "published cmp sl vis (A @ (if i = 0 then [] else [x]) @ B)"
    and x: "x \<notin> set (A @ B)" "0 < x" "x < length (nodes sl)" "vis x = i" "i < node_height sl x" "node_height sl x \<le> max_height sl"
    and keys: "\<forall>a\<in>set A. \<not> cmp (nkey sl x) (nkey sl a) < 0" "\<forall>b\<in>set B. \<not> cmp (nkey sl b) (nkey sl x) < 0"
    and p: "p = last (head # vlane vis i A)" and nx: "Next sl x i = Next sl p i"
  shows "published cmp (SetNext p i (Some x) sl) (vis(x := Suc i)) (A @ x # B)"
proof -
  let ?sl = "SetNext p i (Some x) sl" and ?vis = "vis(x := Suc i)" and ?M = "if i = 0 then [] else [x]"
  note d = publishedD [OF pub]
  have i: "i < kMaxHeight" using x(5,6) d(4) by simp
  have "p = head \<or> p \<in> set A \<and> i < vis p" using last_in_set [of "head # vlane vis i A"] unfolding p by (auto simp: set_vlane)
  then have pl: "p < length (nodes sl) \<and> i < node_height sl p \<and> p \<noteq> x"
  proof
    assume "p = head"
    then show ?thesis using d(1,2) i x(2) by auto
  next
    assume "p \<in> set A \<and> i < vis p"
    then show ?thesis using d(6) [of p] d(7) [of p] x(1) by auto
  qed
  have N: "Next ?sl y l = (if y = p \<and> l = i then Some x else Next sl y l)" for y l using Next_SetNext [of p sl i "Some x" y l] pl by auto
  have ab: "vlane ?vis l A = vlane vis l A" "vlane ?vis l B = vlane vis l B" for l
    using x(1) unfolding vlane_def by (auto intro!: filter_cong)
  have "seg (\<lambda>y. Next ?sl y l) head (vlane ?vis l (A @ x # B)) None" if l: "l < kMaxHeight" for l
  proof (cases "l = i")
    case False
    then have "vlane ?vis l (A @ x # B) = vlane vis l (A @ ?M @ B)" using x(4) by (auto simp: ab)
    moreover have "seg (\<lambda>y. Next ?sl y l) head (vlane vis l (A @ ?M @ B)) None = seg (\<lambda>y. Next sl y l) head (vlane vis l (A @ ?M @ B)) None"
      using False by (intro seg_cong) (simp add: N)
    ultimately show ?thesis using d(9) [OF l] by simp
  next
    case True
    let ?f = "\<lambda>y. Next sl y i"
    have "seg ?f head (vlane vis i A @ vlane vis i B) None" using d(9) [OF i] x(4) by (auto split: if_splits)
    moreover have "distinct (head # vlane vis i A @ vlane vis i B)" using d(5) d(6) by (auto simp: vlane_def split: if_splits)
    moreover have "x \<notin> set (head # vlane vis i A @ vlane vis i B)" using x(1,2) by (auto simp: set_vlane)
    ultimately have "seg (\<lambda>y. Next ?sl y i) head (vlane vis i A @ x # vlane vis i B) None"
      using p by (rule seg_insert) (use pl nx in \<open>auto simp: N\<close>)
    then show ?thesis using True by (simp add: ab)
  qed
  moreover have "sorted_wrt (\<lambda>a b. \<not> cmp (nkey ?sl b) (nkey ?sl a) < 0) (A @ x # B)"
    using d(8) keys by (auto simp: sorted_wrt_append split: if_splits)
  moreover have "distinct (A @ x # B)" using d(5) x(1) by auto
  moreover have "1 \<le> ?vis j \<and> ?vis j \<le> node_height ?sl j \<and> node_height ?sl j \<le> max_height ?sl" if "j \<in> set (A @ x # B)" for j
    using that d(7) [of j] x(5,6) by (cases "j = x") auto
  moreover have "j \<in> {1..<length (nodes ?sl)}" if "j \<in> set (A @ x # B)" for j
    using that d(6) [of j] x(2,3) by (cases "j = x") auto
  then have "set (A @ x # B) \<subseteq> {1..<length (nodes ?sl)}" by blast
  moreover have "nodes ?sl \<noteq> []" using d(1) by (metis SetNext_simps(1) length_0_conv)
  ultimately show ?thesis using d(2-4) unfolding published_def by simp
qed

section \<open>Invariant of the writer\<close>

definition visible_height :: "'k writer \<Rightarrow> 'k skiplist \<Rightarrow> nat \<Rightarrow> nat" where
  "visible_height w sl y =
     (case w of
        W_link x _ _ i \<Rightarrow> if y = x then i else node_height sl y
      | W_publish x _ _ i \<Rightarrow> if y = x then i else node_height sl y
      | _ \<Rightarrow> node_height sl y)"

definition split_at :: "('k \<Rightarrow> 'k \<Rightarrow> int) \<Rightarrow> 'k skiplist \<Rightarrow> 'k \<Rightarrow> nat list \<Rightarrow> nat list \<Rightarrow> bool" where
  "split_at cmp sl k A B \<longleftrightarrow> (\<forall>a\<in>set A. cmp (nkey sl a) k < 0) \<and> (\<forall>b\<in>set B. \<not> cmp (nkey sl b) k < 0)"

definition prev_ok :: "'k skiplist \<Rightarrow> nat list \<Rightarrow> nat option list \<Rightarrow> nat \<Rightarrow> bool" where
  "prev_ok sl A prev h \<longleftrightarrow> (\<forall>i<h. prev ! i = Some (last (head # lane sl i A)))"

definition complete :: "'k skiplist \<Rightarrow> bool" where
  "complete sl \<longleftrightarrow> set (sl_nodes sl) = {1..<length (nodes sl)}"

definition linking :: "('k \<Rightarrow> 'k \<Rightarrow> int) \<Rightarrow> 'k skiplist \<Rightarrow> nat \<Rightarrow> nat option list \<Rightarrow> nat \<Rightarrow> nat \<Rightarrow> nat list \<Rightarrow> nat list \<Rightarrow> bool" where
  "linking cmp sl x prev h i A B \<longleftrightarrow> 0 < x \<and> x < length (nodes sl) \<and> node_height sl x = h \<and> h \<le> max_height sl \<and> i < h \<and>
     insert x (set (sl_nodes sl)) = {1..<length (nodes sl)} \<and> sl_nodes sl = A @ (if i = 0 then [] else [x]) @ B \<and> x \<notin> set (A @ B) \<and>
     split_at cmp sl (nkey sl x) A B \<and> prev_ok sl A prev h"

definition writer_ok :: "('k \<Rightarrow> 'k \<Rightarrow> int) \<Rightarrow> 'k skiplist \<Rightarrow> 'k writer \<Rightarrow> bool" where
  "writer_ok cmp sl w \<longleftrightarrow>
     (case w of
        W_idle \<Rightarrow> complete sl
      | W_insert k \<Rightarrow> complete sl \<and> (\<forall>y\<in>set (sl_items sl). cmp k y \<noteq> 0)
      | W_height k prev h \<Rightarrow> complete sl \<and> 1 \<le> h \<and> h \<le> kMaxHeight \<and> length prev = kMaxHeight \<and>
          (\<exists>A B. sl_nodes sl = A @ B \<and> split_at cmp sl k A B \<and> prev_ok sl A prev (max_height sl))
      | W_alloc k prev h \<Rightarrow> complete sl \<and> 1 \<le> h \<and> h \<le> max_height sl \<and>
          (\<exists>A B. sl_nodes sl = A @ B \<and> split_at cmp sl k A B \<and> prev_ok sl A prev h)
      | W_link x prev h i \<Rightarrow> (\<exists>A B. linking cmp sl x prev h i A B)
      | W_publish x prev h i \<Rightarrow> (\<exists>A B. linking cmp sl x prev h i A B \<and> Next sl x i = Next sl (last (head # lane sl i A)) i))"

definition list_ok :: "('k \<Rightarrow> 'k \<Rightarrow> int) \<Rightarrow> 'k skiplist \<Rightarrow> 'k writer \<Rightarrow> bool" where
  "list_ok cmp sl w \<longleftrightarrow> published cmp sl (visible_height w sl) (sl_nodes sl) \<and> writer_ok cmp sl w"

text \<open>What readers may rely on from one state of the list to a later one.\<close>

definition grows :: "'k writer \<times> 'k skiplist \<Rightarrow> 'k writer \<times> 'k skiplist \<Rightarrow> bool" where
  "grows = (\<lambda>(w, sl) (w', sl'). set (sl_nodes sl) \<subseteq> set (sl_nodes sl') \<and> max_height sl \<le> max_height sl' \<and>
     (\<forall>y\<in>set (sl_nodes sl). nkey sl' y = nkey sl y \<and> visible_height w sl y \<le> visible_height w' sl' y))"

text \<open>The sequence of keys after a step of the writer: the publication of level 0 is the moment at which an insertion takes effect.\<close>

definition items_after :: "('k \<Rightarrow> 'k \<Rightarrow> int) \<Rightarrow> 'k writer \<Rightarrow> 'k skiplist \<Rightarrow> 'k list" where
  "items_after cmp w sl =
     (case w of W_publish x prev h 0 \<Rightarrow> insert_sorted cmp (nkey sl x) (sl_items sl) | _ \<Rightarrow> sl_items sl)"

definition good_step :: "('k \<Rightarrow> 'k \<Rightarrow> int) \<Rightarrow> 'k writer \<times> 'k skiplist \<Rightarrow> 'k writer \<times> 'k skiplist \<Rightarrow> bool" where
  "good_step cmp = (\<lambda>(w, sl) (w', sl'). list_ok cmp sl' w' \<and> grows (w, sl) (w', sl') \<and> sl_items sl' = items_after cmp w sl)"

lemma lane_vlane: "lane sl l xs = vlane (node_height sl) l xs"
  by (simp add: lane_def vlane_def)

lemma visible_idle: "visible_height W_idle sl = node_height sl" "visible_height (W_insert k) sl = node_height sl"
  "visible_height (W_height k p h) sl = node_height sl" "visible_height (W_alloc k p h) sl = node_height sl"
  by (simp_all add: visible_height_def fun_eq_iff)

lemma published_linked:
  assumes "published cmp sl (node_height sl) (sl_nodes sl)" "complete sl"
  shows "linked sl (sl_nodes sl)" "sl_inv cmp sl"
proof -
  show "linked sl (sl_nodes sl)" using assms unfolding published_def linked_def complete_def lane_vlane by auto
  then show "sl_inv cmp sl" using publishedD(8) [OF assms(1)] by (simp add: sl_inv_def sl_items_def sorted_wrt_map)
qed

text \<open>A step that leaves the published nodes as they are.\<close>

lemma good_stepI:
  assumes pub: "published cmp sl (visible_height w sl) (sl_nodes sl)"
    and "length (nodes sl) \<le> length (nodes sl')" "max_height sl \<le> max_height sl'" "max_height sl' \<le> kMaxHeight"
    and keep: "\<And>y. y < length (nodes sl) \<Longrightarrow> nkey sl' y = nkey sl y \<and> node_height sl' y = node_height sl y"
    and nxt: "\<And>y l. y = head \<or> y \<in> set (sl_nodes sl) \<and> l < visible_height w sl y \<Longrightarrow> Next sl' y l = Next sl y l"
    and vis: "\<And>y. y \<in> set (sl_nodes sl) \<Longrightarrow> visible_height w' sl' y = visible_height w sl y"
    and items: "items_after cmp w sl = sl_items sl"
    and w': "sl_nodes sl' = sl_nodes sl \<Longrightarrow> writer_ok cmp sl' w'"
  shows "good_step cmp (w, sl) (w', sl')"
proof -
  have p: "published cmp sl' (visible_height w' sl') (sl_nodes sl)"
    using assms(1-4) keep nxt vis by (rule published_frame)
  then have n: "sl_nodes sl' = sl_nodes sl" by (rule published_nodes)
  have k: "nkey sl' y = nkey sl y" if "y \<in> set (sl_nodes sl)" for y using publishedD(6) [OF pub that] keep by simp
  then have "sl_items sl' = sl_items sl" by (simp add: sl_items_def n)
  then show ?thesis using p n w' k vis items assms(3) by (auto simp: good_step_def list_ok_def grows_def)
qed

section \<open>The steps of the writer\<close>

lemma update_simps [simp]:
  "Next (sl\<lparr>rnd := r\<rparr>) = Next sl" "node_height (sl\<lparr>rnd := r\<rparr>) = node_height sl"
  "Next (sl\<lparr>max_height := m\<rparr>) = Next sl" "node_height (sl\<lparr>max_height := m\<rparr>) = node_height sl"
  by (simp_all add: fun_eq_iff Next_def node_height_def)

lemma update_simps2 [simp]:
  "sl_nodes (sl\<lparr>rnd := r\<rparr>) = sl_nodes sl" "lane (sl\<lparr>rnd := r\<rparr>) = lane sl"
  "sl_nodes (sl\<lparr>max_height := m\<rparr>) = sl_nodes sl" "lane (sl\<lparr>max_height := m\<rparr>) = lane sl"
  by (simp_all add: fun_eq_iff lane_def sl_nodes_def)

lemma insert_step:
  assumes ord: "ordering cmp" and ok: "list_ok cmp sl (W_insert k)"
  shows "\<exists>y. writer_step nc cmp (W_insert k, sl) = Some y \<and> good_step cmp (W_insert k, sl) y"
proof -
  have pub: "published cmp sl (node_height sl) (sl_nodes sl)" and c: "complete sl" and fresh: "\<forall>y\<in>set (sl_items sl). cmp k y \<noteq> 0"
    using ok by (simp_all add: list_ok_def visible_idle writer_ok_def)
  note inv = published_linked [OF pub c]
  obtain A B where AB: "sl_nodes sl = A @ B" "linked sl (A @ B)" "\<forall>a \<in> set A. cmp (nkey sl a) k < 0" "\<forall>b \<in> set B. \<not> cmp (nkey sl b) k < 0"
    using ordering.sl_split [OF ord inv(2)] by metis
  define prev where "prev = note_prev sl A (max_height sl - 1) (replicate kMaxHeight None)"
  obtain h seed where h: "RandomHeight (rnd sl) = (h, seed)" by fastforce
  have "\<forall>b. opt_hd B = Some b \<longrightarrow> cmp k (nkey sl b) \<noteq> 0"
    using fresh AB(1) by (auto simp: sl_items_def dest!: opt_hd_in_set)
  then have w: "writer_step nc cmp (W_insert k, sl) = Some (W_height k prev h, sl\<lparr>rnd := seed\<rparr>)"
    using FindGreaterOrEqual_spec(1) [where cmp = cmp, OF AB(2-4)] h
    by (auto simp: writer_step_def prev_def Equal_def split: option.splits)
  have lim: "1 \<le> max_height sl" "max_height sl \<le> kMaxHeight" using publishedD(3,4) [OF pub] by simp_all
  then have "prev_ok sl A prev (max_height sl)" "length prev = kMaxHeight"
    by (auto simp: prev_ok_def prev_def note_prev_def)
  moreover have "1 \<le> h" "h \<le> kMaxHeight" using RandomHeight_bounds [of "rnd sl"] h by auto
  ultimately have "writer_ok cmp (sl\<lparr>rnd := seed\<rparr>) (W_height k prev h)"
    using c AB by (auto simp: writer_ok_def complete_def split_at_def prev_ok_def)
  then have "good_step cmp (W_insert k, sl) (W_height k prev h, sl\<lparr>rnd := seed\<rparr>)"
    using pub lim by (intro good_stepI) (simp_all add: visible_idle items_after_def)
  then show ?thesis using w by blast
qed

lemma height_step:
  assumes ok: "list_ok cmp sl (W_height k prev h)"
  shows "\<exists>y. writer_step nc cmp (W_height k prev h, sl) = Some y \<and> good_step cmp (W_height k prev h, sl) y"
proof -
  have pub: "published cmp sl (node_height sl) (sl_nodes sl)" and c: "complete sl" and h: "1 \<le> h" "h \<le> kMaxHeight" "length prev = kMaxHeight"
    using ok by (simp_all add: list_ok_def visible_idle writer_ok_def)
  obtain A B where AB: "sl_nodes sl = A @ B" "split_at cmp sl k A B" "prev_ok sl A prev (max_height sl)"
    using ok by (auto simp: list_ok_def writer_ok_def)
  show ?thesis
  proof (cases "max_height sl < h")
    case False
    then have "writer_ok cmp sl (W_alloc k prev h)" using c h AB by (auto simp: writer_ok_def prev_ok_def)
    then have "good_step cmp (W_height k prev h, sl) (W_alloc k prev h, sl)"
      using pub publishedD(4) [OF pub] by (intro good_stepI) (simp_all add: visible_idle items_after_def)
    then show ?thesis using False by (simp add: writer_step_def)
  next
    case True
    let ?prev = "fold (\<lambda>i p. p[i := Some head]) [max_height sl..<h] prev" and ?sl = "sl\<lparr>max_height := h\<rparr>"
    have "lane sl i A = []" if "max_height sl \<le> i" for i
      using that publishedD(7) [OF pub] AB(1) by (fastforce simp: lane_def filter_empty_conv)
    then have "prev_ok sl A ?prev h" using AB(3) h by (auto simp: prev_ok_def fold_head_nth)
    then have "writer_ok cmp ?sl (W_alloc k ?prev h)"
      using c h AB by (auto simp: writer_ok_def complete_def split_at_def prev_ok_def)
    then have "good_step cmp (W_height k prev h, sl) (W_alloc k ?prev h, ?sl)"
      using pub True h by (intro good_stepI) (simp_all add: visible_idle items_after_def)
    then show ?thesis using True by (simp add: writer_step_def)
  qed
qed

lemma alloc_step:
  assumes ok: "list_ok cmp sl (W_alloc k prev h)"
  shows "\<exists>y. writer_step nc cmp (W_alloc k prev h, sl) = Some y \<and> good_step cmp (W_alloc k prev h, sl) y"
proof -
  have pub: "published cmp sl (node_height sl) (sl_nodes sl)" and c: "complete sl" and h: "1 \<le> h" "h \<le> max_height sl"
    using ok by (simp_all add: list_ok_def visible_idle writer_ok_def)
  obtain A B where AB: "sl_nodes sl = A @ B" "split_at cmp sl k A B" "prev_ok sl A prev h"
    using ok by (auto simp: list_ok_def writer_ok_def)
  obtain x sl' where new: "NewNode nc k h sl = (x, sl')" by fastforce
  note nf = NewNode_facts [OF new]
  have w: "writer_step nc cmp (W_alloc k prev h, sl) = Some (W_link x prev h 0, sl')"
    using new h by (simp add: writer_step_def next_level_def)
  have old: "y < x" if "y \<in> set (sl_nodes sl)" for y using publishedD(6) [OF pub that] nf(1) by simp
  have x0: "0 < x" using publishedD(1) [OF pub] nf(1) by simp
  have lane: "lane sl' l A = lane sl l A" for l
    unfolding lane_def using old nf(6) AB(1) by (intro filter_cong) auto
  have "good_step cmp (W_alloc k prev h, sl) (W_link x prev h 0, sl')"
  proof (rule good_stepI)
    show "published cmp sl (visible_height (W_alloc k prev h) sl) (sl_nodes sl)" using pub by (simp add: visible_idle)
    show "length (nodes sl) \<le> length (nodes sl')" "max_height sl \<le> max_height sl'" "max_height sl' \<le> kMaxHeight"
      using nf(1-3) publishedD(4) [OF pub] by simp_all
    show "nkey sl' y = nkey sl y \<and> node_height sl' y = node_height sl y" if "y < length (nodes sl)" for y using nf(1,6) that by simp
    show "Next sl' y l = Next sl y l" if "y = head \<or> y \<in> set (sl_nodes sl) \<and> l < visible_height (W_alloc k prev h) sl y" for y l
      using that nf(7) old x0 by auto
    show "visible_height (W_link x prev h 0) sl' y = visible_height (W_alloc k prev h) sl y" if "y \<in> set (sl_nodes sl)" for y
      using old [OF that] nf(6) by (simp add: visible_height_def)
    show "items_after cmp (W_alloc k prev h) sl = sl_items sl" by (simp add: items_after_def)
    assume n: "sl_nodes sl' = sl_nodes sl"
    have "insert x (set (sl_nodes sl')) = {1..<length (nodes sl')}" using c x0 nf(1,2) by (auto simp: complete_def n Suc_le_eq)
    moreover have "x \<notin> set (A @ B)" using old AB(1) by fastforce
    moreover have "split_at cmp sl' (nkey sl' x) A B" using AB(1,2) old nf(5,6) by (simp add: split_at_def)
    moreover have "prev_ok sl' A prev h" using AB(3) by (simp add: prev_ok_def lane)
    ultimately have "linking cmp sl' x prev h 0 A B"
      using x0 nf(2-4) h n AB(1) unfolding linking_def by simp
    then show "writer_ok cmp sl' (W_link x prev h 0)" by (auto simp: writer_ok_def)
  qed
  then show ?thesis using w by blast
qed

lemma link_step:
  assumes ok: "list_ok cmp sl (W_link x prev h i)"
  shows "\<exists>y. writer_step nc cmp (W_link x prev h i, sl) = Some y \<and> good_step cmp (W_link x prev h i, sl) y"
proof -
  let ?w = "W_link x prev h i" and ?w' = "W_publish x prev h i"
  have pub: "published cmp sl (visible_height ?w sl) (sl_nodes sl)" using ok by (simp add: list_ok_def)
  obtain A B where l: "linking cmp sl x prev h i A B" using ok by (auto simp: list_ok_def writer_ok_def)
  define p where "p = last (head # lane sl i A)"
  let ?sl = "SetNext x i (Next sl p i) sl"
  have xl: "x < length (nodes sl)" "i < node_height sl x" "0 < x" using l by (auto simp: linking_def)
  have N: "Next ?sl y j = (if y = x \<and> j = i then Next sl p i else Next sl y j)" for y j
    using Next_SetNext [OF xl(1,2)] by auto
  have "prev ! i = Some p" using l by (auto simp: linking_def prev_ok_def p_def)
  then have w: "writer_step nc cmp (?w, sl) = Some (?w', ?sl)" by (simp add: writer_step_def)
  have "p \<noteq> x" using l xl(3) last_in_set [of "head # lane sl i A"] by (auto simp: linking_def p_def set_lane)
  have lane: "lane ?sl = lane sl" by (simp add: fun_eq_iff lane_def)
  have "good_step cmp (?w, sl) (?w', ?sl)"
    using pub
  proof (rule good_stepI)
    show "max_height ?sl \<le> kMaxHeight" using publishedD(4) [OF pub] by simp
    show "Next ?sl y j = Next sl y j" if "y = head \<or> y \<in> set (sl_nodes sl) \<and> j < visible_height ?w sl y" for y j
      using that xl(3) by (auto simp: N visible_height_def)
    assume n: "sl_nodes ?sl = sl_nodes sl"
    have "linking cmp ?sl x prev h i A B"
      using l unfolding linking_def split_at_def prev_ok_def n lane SetNext_simps .
    moreover have "Next ?sl x i = Next ?sl (last (head # lane ?sl i A)) i"
      using \<open>p \<noteq> x\<close> by (simp only: lane N p_def [symmetric]) simp
    ultimately show "writer_ok cmp ?sl ?w'" by (auto simp only: writer_ok_def writer.case)
  qed (simp_all add: visible_height_def items_after_def)
  then show ?thesis using w by blast
qed

lemma split_insert_sorted:
  assumes "split_at cmp sl k A B"
  shows "insert_sorted cmp k (map (nkey sl) (A @ B)) = map (nkey sl) A @ k # map (nkey sl) B"
proof -
  have "takeWhile (\<lambda>x. cmp x k < 0) (map (nkey sl) A @ map (nkey sl) B) = map (nkey sl) A"
    "dropWhile (\<lambda>x. cmp x k < 0) (map (nkey sl) A @ map (nkey sl) B) = map (nkey sl) B"
    using assms by (cases B; simp add: split_at_def takeWhile_append dropWhile_append)+
  then show ?thesis by (simp add: insert_sorted_def)
qed

lemma publish_step:
  assumes ord: "ordering cmp" and ok: "list_ok cmp sl (W_publish x prev h i)"
  shows "\<exists>y. writer_step nc cmp (W_publish x prev h i, sl) = Some y \<and> good_step cmp (W_publish x prev h i, sl) y"
proof -
  let ?w = "W_publish x prev h i" and ?w' = "next_level x prev h (i + 1)"
  have pub: "published cmp sl (visible_height ?w sl) (sl_nodes sl)" using ok by (simp add: list_ok_def)
  obtain A B where l: "linking cmp sl x prev h i A B" and nx: "Next sl x i = Next sl (last (head # lane sl i A)) i"
    using ok by (auto simp: list_ok_def writer_ok_def)
  define p where "p = last (head # lane sl i A)"
  let ?sl = "SetNext p i (Some x) sl"
  have xl: "x < length (nodes sl)" "i < h" "h = node_height sl x" "0 < x" "h \<le> max_height sl" "x \<notin> set (A @ B)"
    and n: "sl_nodes sl = A @ (if i = 0 then [] else [x]) @ B" and sp: "split_at cmp sl (nkey sl x) A B"
    and all: "insert x (set (sl_nodes sl)) = {1..<length (nodes sl)}" and pv: "prev_ok sl A prev h"
    using l unfolding linking_def by blast+
  have w: "writer_step nc cmp (?w, sl) = Some (?w', ?sl)" using pv xl(2) by (simp add: writer_step_def prev_ok_def p_def)
  have lA: "vlane (visible_height ?w sl) i A = lane sl i A"
    unfolding vlane_def lane_def using xl(6) by (intro filter_cong) (auto simp: visible_height_def)
  have "published cmp ?sl ((visible_height ?w sl)(x := Suc i)) (A @ x # B)"
    using pub [unfolded n] xl
  proof (intro published_publish)
    show "\<forall>a\<in>set A. \<not> cmp (nkey sl x) (nkey sl a) < 0" "\<forall>b\<in>set B. \<not> cmp (nkey sl b) (nkey sl x) < 0"
      using sp ordering.cmp_asym [OF ord] by (auto simp: split_at_def)
    show "p = last (head # vlane (visible_height ?w sl) i A)" by (simp add: lA p_def)
    show "Next sl x i = Next sl p i" using nx by (simp add: p_def)
  qed (simp_all add: visible_height_def)
  moreover have vis: "visible_height ?w' ?sl = (visible_height ?w sl)(x := Suc i)"
    using xl(2,3) by (auto simp: fun_eq_iff visible_height_def next_level_def)
  ultimately have pub': "published cmp ?sl (visible_height ?w' ?sl) (A @ x # B)" by simp
  have n': "sl_nodes ?sl = A @ x # B" using published_nodes [OF pub'] .
  have lane: "lane ?sl = lane sl" by (simp add: fun_eq_iff lane_def)
  have all': "set (A @ x # B) = {1..<length (nodes sl)}" using all n by (auto split: if_splits)
  have "writer_ok cmp ?sl ?w'"
  proof (cases "Suc i < h")
    case True
    have "insert x (set (A @ x # B)) = set (A @ x # B)" by auto
    then have "insert x (set (A @ x # B)) = {1..<length (nodes sl)}" unfolding all' .
    then have "linking cmp ?sl x prev h (Suc i) A B"
      using xl True sp pv unfolding linking_def split_at_def prev_ok_def n' lane SetNext_simps by auto
    then show ?thesis using True by (auto simp: next_level_def writer_ok_def)
  next
    case False
    then show ?thesis using all' by (simp add: next_level_def writer_ok_def complete_def n')
  qed
  moreover have "sl_items ?sl = items_after cmp ?w sl"
    using split_insert_sorted [OF sp] n n' by (cases i) (auto simp: items_after_def sl_items_def)
  moreover have "visible_height ?w sl x = i" by (simp add: visible_height_def)
  then have "visible_height ?w sl y \<le> visible_height ?w' ?sl y" for y unfolding vis by simp
  moreover have "set (sl_nodes sl) \<subseteq> set (sl_nodes ?sl)" unfolding n n' by auto
  ultimately have "sl_items ?sl = items_after cmp ?w sl" "grows (?w, sl) (?w', ?sl)" "writer_ok cmp ?sl ?w'"
    by (simp_all add: grows_def)
  then show ?thesis using w pub' n' by (auto simp: good_step_def list_ok_def)
qed

lemma writer_step_ok:
  assumes "ordering cmp" "list_ok cmp sl w" "w \<noteq> W_idle"
  shows "\<exists>y. writer_step nc cmp (w, sl) = Some y \<and> good_step cmp (w, sl) y"
  using assms insert_step height_step alloc_step link_step publish_step by (cases w) auto

section \<open>The state of all threads\<close>

definition reader_ok :: "('k \<Rightarrow> 'k \<Rightarrow> int) \<Rightarrow> 'k writer \<times> 'k skiplist \<Rightarrow> 'k reader \<Rightarrow> bool" where
  "reader_ok cmp = (\<lambda>(w, sl) r.
     case r of
       Cursor c \<Rightarrow> (\<forall>x. c = Some x \<longrightarrow> x \<in> set (sl_nodes sl))
     | Searching q x l \<Rightarrow> l < max_height sl \<and>
         (x = head \<or> x \<in> set (sl_nodes sl) \<and> l < visible_height w sl x \<and> goes_right cmp sl q (Some x)))"

definition conc_ok :: "('k \<Rightarrow> 'k \<Rightarrow> int) \<Rightarrow> 'k concurrent \<Rightarrow> bool" where
  "conc_ok cmp s \<longleftrightarrow> list_ok cmp (cs_list s) (cs_writer s) \<and> (\<forall>t. reader_ok cmp (cs_writer s, cs_list s) (cs_readers s t))"

lemma goes_right_None [simp]: "\<not> goes_right cmp sl q None"
  by (cases q) (simp_all add: KeyIsAfterNode_def)

lemma goes_right_Some:
  "goes_right cmp sl q (Some x) \<longleftrightarrow> (case q of Q_last \<Rightarrow> True | Q_seek k \<Rightarrow> cmp (nkey sl x) k < 0 | Q_before k \<Rightarrow> cmp (nkey sl x) k < 0)"
  by (cases q) (simp_all add: KeyIsAfterNode_def)

text \<open>The steps of the writer do not disturb a reader.\<close>

lemma reader_ok_grows: "grows a b \<Longrightarrow> reader_ok cmp a r \<Longrightarrow> reader_ok cmp b r"
  by (cases a; cases b; cases r) (fastforce simp: reader_ok_def grows_def goes_right_Some split: query.splits)+

lemma list_okD:
  assumes "list_ok cmp sl w"
  shows "published cmp sl (visible_height w sl) (sl_nodes sl)" "writer_ok cmp sl w"
  using assms by (simp_all add: list_ok_def)

lemma reader_call_ok:
  assumes "list_ok cmp sl w" "reader_ok cmp (w, sl) r" "reader_call sl r r'"
  shows "reader_ok cmp (w, sl) r'"
proof -
  note pub = list_okD(1) [OF assms(1)]
  have succ: "z \<in> set (sl_nodes sl)" if "Next sl x 0 = Some z" "x = head \<or> x \<in> set (sl_nodes sl)" for x z
    using published_successor [OF pub _ _ that(1)] that(2) publishedD(7) [OF pub, of x] by (auto simp: kMaxHeight_def)
  from assms(3,2) show ?thesis
    by cases (use succ publishedD(3) [OF pub] in \<open>auto simp: reader_ok_def\<close>)
qed

lemma reader_step_ok:
  assumes "list_ok cmp sl w" "reader_ok cmp (w, sl) (Searching q x l)"
  shows "\<exists>r. reader_step cmp sl (Searching q x l) = Some r \<and> reader_ok cmp (w, sl) r"
proof -
  note pub = list_okD(1) [OF assms(1)]
  have l: "l < max_height sl" "l < kMaxHeight" using assms(2) publishedD(4) [OF pub] by (auto simp: reader_ok_def)
  have x: "x = head \<or> x \<in> set (sl_nodes sl) \<and> l < visible_height w sl x \<and> goes_right cmp sl q (Some x)"
    using assms(2) by (auto simp: reader_ok_def)
  have succ: "z \<in> set (sl_nodes sl) \<and> l < visible_height w sl z" if "Next sl x l = Some z" for z
    using published_successor [OF pub l(2) _ that] x by blast
  have "case q of Q_before k \<Rightarrow> x = head \<or> cmp (nkey sl x) k < 0 | _ \<Rightarrow> True"
    using x by (auto simp: goes_right_Some split: query.splits)
  moreover have "reader_ok cmp (w, sl) (Searching q z l)" if "goes_right cmp sl q (Next sl x l)" "Next sl x l = Some z" for z
    using that succ l by (simp add: reader_ok_def)
  moreover have "reader_ok cmp (w, sl) (Cursor (found q x (Next sl x l)))" if "l = 0"
    using succ x by (cases q) (auto simp: reader_ok_def)
  moreover have "reader_ok cmp (w, sl) (Searching q x (l - 1))" using l x by (auto simp: reader_ok_def)
  moreover have "Next sl x l = Some (the (Next sl x l))" if "goes_right cmp sl q (Next sl x l)"
    using that by (cases "Next sl x l") simp_all
  ultimately show ?thesis by (simp add: reader_step_def Let_def)
qed

lemma inv_list_ok:
  assumes "sl_inv cmp sl"
  shows "list_ok cmp sl W_idle"
proof -
  have lk: "linked sl (sl_nodes sl)" and "sorted_wrt (\<lambda>a b. \<not> cmp (nkey sl b) (nkey sl a) < 0) (sl_nodes sl)"
    using assms by (simp_all add: sl_inv_def sl_items_def sorted_wrt_map)
  then have "published cmp sl (node_height sl) (sl_nodes sl)"
    unfolding published_def linked_def lane_vlane by auto
  then show ?thesis using lk by (simp add: list_ok_def visible_idle writer_ok_def complete_def linked_def)
qed

lemma conc_step_ok:
  assumes "ordering cmp" "conc_ok cmp s" "conc_step nc cmp s s'"
  shows "conc_ok cmp s'"
  using assms(3)
proof cases
  case (insert k)
  have "visible_height (W_insert k) (cs_list s) = visible_height W_idle (cs_list s)" by (simp add: visible_idle)
  then show ?thesis using assms(2) insert by (auto simp: conc_ok_def list_ok_def writer_ok_def reader_ok_def split: reader.splits)
next
  case (writer w sl)
  then have "cs_writer s \<noteq> W_idle" by (auto simp: writer_step_def)
  then have g: "good_step cmp (cs_writer s, cs_list s) (w, sl)"
    using writer_step_ok [of cmp "cs_list s" "cs_writer s" nc] assms(1,2) writer by (auto simp: conc_ok_def)
  then show ?thesis using assms(2) writer reader_ok_grows by (fastforce simp: conc_ok_def good_step_def)
next
  case (call t r)
  then show ?thesis using assms(2) reader_call_ok by (fastforce simp: conc_ok_def)
next
  case (reader t r)
  then obtain q x l where e: "cs_readers s t = Searching q x l" by (cases "cs_readers s t") (simp_all add: reader_step_def)
  then have "list_ok cmp (cs_list s) (cs_writer s)" "reader_ok cmp (cs_writer s, cs_list s) (Searching q x l)"
    using assms(2) unfolding conc_ok_def by metis+
  then have "reader_ok cmp (cs_writer s, cs_list s) r"
    using reader_step_ok reader(2) e by fastforce
  then show ?thesis using assms(2) reader by (simp add: conc_ok_def)
qed

lemma conc_reach_ok:
  assumes "ordering cmp" "conc_reach nc cmp s"
  shows "conc_ok cmp s"
  using assms(2)
proof induction
  case (start z A)
  then show ?case using inv_list_ok [OF sl_inv_init, of cmp nc z A] by (simp add: conc_ok_def reader_ok_def)
next
  case (step s s')
  then show ?case using conc_step_ok [OF assms(1)] by blast
qed

section \<open>What a search returns\<close>

text \<open>The answers of the three searches on a sequence of keys.\<close>

definition query_answer :: "('k \<Rightarrow> 'k \<Rightarrow> int) \<Rightarrow> 'k query \<Rightarrow> 'k list \<Rightarrow> 'k option" where
  "query_answer cmp q ys =
     (case q of
        Q_seek k \<Rightarrow> find (\<lambda>y. \<not> cmp y k < 0) ys
      | Q_before k \<Rightarrow> opt_hd (rev (takeWhile (\<lambda>y. cmp y k < 0) ys))
      | Q_last \<Rightarrow> opt_hd (rev ys))"

lemma opt_hd_rev: "opt_hd (rev xs) = (if xs = [] then None else Some (last xs))"
  by (cases xs rule: rev_cases) simp_all

lemma seg_split:
  assumes "seg f q xs None" "x \<in> set (q # xs)"
  obtains A B where "xs = A @ B" "x = last (q # A)" "f x = opt_hd B"
proof -
  obtain us B where u: "q # xs = us @ x # B" using assms(2) by (meson split_list)
  have "xs = tl (us @ [x]) @ B" "q # tl (us @ [x]) = us @ [x]" using u by (cases us; simp)+
  then have "xs = tl (us @ [x]) @ B" "x = last (q # tl (us @ [x]))" by (simp_all add: last_snoc)
  moreover have "f x = opt_hd B" using seg_append_last [of f q "tl (us @ [x])" B] assms(1) calculation by metis
  ultimately show ?thesis by (rule that)
qed

lemma seg_node:
  assumes "seg f q xs None" "x \<in> set xs"
  shows "\<exists>A B. xs = A @ x # B \<and> f x = opt_hd B"
proof -
  obtain A B where "xs = A @ x # B" using assms(2) by (meson split_list)
  then show ?thesis using assms(1) seg_append_last [of f q "A @ [x]" B] by auto
qed

text \<open>A search that stops at the bottom has divided the nodes into those it goes past and the rest.\<close>

lemma search_split:
  assumes "ordering cmp" and pub: "published cmp sl vis ord" and x: "x = head \<or> x \<in> set ord \<and> goes_right cmp sl q (Some x)"
    and stop: "\<not> goes_right cmp sl q (Next sl x 0)"
  obtains A B where "ord = A @ B" "x = last (head # A)" "Next sl x 0 = opt_hd B"
    "\<forall>a\<in>set A. goes_right cmp sl q (Some a)" "\<forall>b\<in>set B. \<not> goes_right cmp sl q (Some b)"
proof -
  obtain A B where AB: "ord = A @ B" "x = last (head # A)" "Next sl x 0 = opt_hd B"
    using seg_split [OF published_level_0(2) [OF pub], of x] x by auto
  have mono: "goes_right cmp sl q (Some a)" if "\<not> cmp (nkey sl b) (nkey sl a) < 0" "goes_right cmp sl q (Some b)" for a b
    using that ordering.le_less_trans [OF assms(1) that(1)] by (simp add: goes_right_Some split: query.splits)
  have sorted: "sorted_wrt (\<lambda>a b. \<not> cmp (nkey sl b) (nkey sl a) < 0) (A @ B)" using publishedD(8) [OF pub] AB(1) by simp
  have "goes_right cmp sl q (Some a)" if "a \<in> set A" for a
  proof -
    have "A \<noteq> []" using that by auto
    then have "A = butlast A @ [x]" "x \<in> set ord" using AB(1,2) by (simp_all add: append_butlast_last_id)
    then have "goes_right cmp sl q (Some x)" "a = x \<or> \<not> cmp (nkey sl x) (nkey sl a) < 0"
      using x publishedD(6) [OF pub, of x] that sorted by (fastforce, metis (no_types, lifting) in_set_butlastD sorted_wrt_append list.set_intros(1) Un_iff set_append set_ConsD empty_iff list.set(1))
    then show ?thesis using mono by blast
  qed
  moreover have "\<not> goes_right cmp sl q (Some b)" if "b \<in> set B" for b
  proof (cases B)
    case (Cons y ys)
    then have "\<not> goes_right cmp sl q (Some y)" using stop AB(3) by simp
    moreover have "b = y \<or> \<not> cmp (nkey sl b) (nkey sl y) < 0" using sorted that Cons by (auto simp: sorted_wrt_append)
    ultimately show ?thesis using mono by blast
  qed (use that in simp)
  ultimately show ?thesis using AB that by blast
qed

lemma split_while:
  assumes "\<forall>a\<in>set A. P a" "\<forall>b\<in>set B. \<not> P b"
  shows "takeWhile P (A @ B) = A" "dropWhile P (A @ B) = B"
  using assms by (cases B; simp)+

lemma search_answer:
  assumes "ordering cmp" and pub: "published cmp sl vis (sl_nodes sl)"
    and x: "x = head \<or> x \<in> set (sl_nodes sl) \<and> goes_right cmp sl q (Some x)" and stop: "\<not> goes_right cmp sl q (Next sl x 0)"
  shows "Iterator_key sl (found q x (Next sl x 0)) = query_answer cmp q (sl_items sl)"
proof -
  obtain A B where AB: "sl_nodes sl = A @ B" "x = last (head # A)" "Next sl x 0 = opt_hd B"
    "\<forall>a\<in>set A. goes_right cmp sl q (Some a)" "\<forall>b\<in>set B. \<not> goes_right cmp sl q (Some b)"
    using search_split [OF assms] .
  have "A = [] \<or> 0 < last A" using publishedD(6) [OF pub, of "last A"] AB(1) last_in_set [of A] by (cases "A = []") simp_all
  then have l: "Iterator_key sl (if x = head then None else Some x) = opt_hd (rev (map (nkey sl) A))"
    using AB(2) by (auto simp: Iterator_key_def opt_hd_rev last_map)
  have items: "sl_items sl = map (nkey sl) A @ map (nkey sl) B" by (simp add: sl_items_def AB(1))
  show ?thesis
  proof (cases q)
    case (Q_seek k)
    then have "dropWhile (\<lambda>y. cmp y k < 0) (sl_items sl) = map (nkey sl) B"
      unfolding items using AB(4,5) by (intro split_while(2)) (auto simp: goes_right_Some)
    then show ?thesis using Q_seek AB(3) by (simp add: query_answer_def find_opt_hd opt_hd_map Iterator_key_def)
  next
    case (Q_before k)
    then have "takeWhile (\<lambda>y. cmp y k < 0) (sl_items sl) = map (nkey sl) A"
      unfolding items using AB(4,5) by (intro split_while(1)) (auto simp: goes_right_Some)
    then show ?thesis using Q_before l by (simp add: query_answer_def)
  next
    case Q_last
    then have "B = []" using AB(5) by (cases B) (auto simp: goes_right_Some)
    then show ?thesis using Q_last l by (simp add: query_answer_def items)
  qed
qed

section \<open>Threads that run alone\<close>

fun writer_run ::
    "(region list \<Rightarrow> nat \<Rightarrow> nat) \<Rightarrow> ('k \<Rightarrow> 'k \<Rightarrow> int) \<Rightarrow> nat \<Rightarrow> 'k writer \<times> 'k skiplist \<Rightarrow> 'k skiplist option" where
  "writer_run nc cmp n (W_idle, sl) = Some sl"
| "writer_run nc cmp 0 (w, sl) = None"
| "writer_run nc cmp (Suc n) (w, sl) = Option.bind (writer_step nc cmp (w, sl)) (writer_run nc cmp n)"

fun reader_run :: "('k \<Rightarrow> 'k \<Rightarrow> int) \<Rightarrow> 'k skiplist \<Rightarrow> nat \<Rightarrow> 'k reader \<Rightarrow> nat option option" where
  "reader_run cmp sl n (Cursor c) = Some c"
| "reader_run cmp sl 0 (Searching q x l) = None"
| "reader_run cmp sl (Suc n) (Searching q x l) = Option.bind (reader_step cmp sl (Searching q x l)) (reader_run cmp sl n)"

lemma writer_run_levels:
  "2 * (h - i) \<le> n \<Longrightarrow> writer_run nc cmp n (next_level x prev h i, sl) = link_levels x prev [i..<h] sl"
proof (induction "h - i" arbitrary: i n sl)
  case 0
  then show ?case by (simp add: next_level_def)
next
  case (Suc d)
  then obtain m where n: "n = Suc (Suc m)" by (cases n; cases "n - 1") auto
  have "d = h - Suc i" "2 * (h - Suc i) \<le> m" "[i..<h] = i # [Suc i..<h]" "i < h" using Suc.hyps(2) Suc.prems n by (auto simp: upt_rec)
  then show ?case
    using Suc.hyps(1) [of "Suc i" m] Suc.hyps(2)
    by (simp add: n next_level_def [of x prev h i] writer_step_def split: option.split)
qed

lemma filter_before:
  "filter P xs = us @ y # z # vs \<Longrightarrow> distinct xs \<Longrightarrow> length (takeWhile ((\<noteq>) y) xs) < length (takeWhile ((\<noteq>) z) xs)"
proof (induction xs arbitrary: us)
  case (Cons a xs)
  show ?case
  proof (cases "P a \<and> us = []")
    case True
    then have "a = y" "z \<in> set (filter P xs)" using Cons.prems(1) by auto
    then show ?thesis using Cons.prems(2) by auto
  next
    case False
    then obtain us' where us': "filter P xs = us' @ y # z # vs" using Cons.prems(1) by (cases us; cases "P a") auto
    then have "y \<in> set (filter P xs)" "z \<in> set (filter P xs)" by simp_all
    then have "y \<noteq> a" "z \<noteq> a" using Cons.prems(2) by auto
    then show ?thesis using Cons.IH [OF us'] Cons.prems(2) by simp
  qed
qed simp

lemma seg_pair:
  "seg f q xs None \<Longrightarrow> y \<in> set (q # xs) \<Longrightarrow> f y = Some z \<Longrightarrow> \<exists>us vs. q # xs = us @ y # z # vs"
proof (induction xs arbitrary: q)
  case (Cons x xs)
  show ?case
  proof (cases "y = q")
    case True
    then show ?thesis using Cons.prems by auto
  next
    case False
    then obtain us vs where "x # xs = us @ y # z # vs" using Cons.prems Cons.IH [of x] by auto
    then show ?thesis by (metis append_Cons)
  qed
qed simp

text \<open>The position of a node on the chain of level 0; following a pointer of any level increases it.\<close>

definition position :: "nat list \<Rightarrow> nat \<Rightarrow> nat" where
  "position ord x = length (takeWhile ((\<noteq>) x) (head # ord))"

lemma takeWhile_before: "x \<in> set xs \<Longrightarrow> length (takeWhile ((\<noteq>) x) xs) < length xs"
  by (induction xs) auto

lemma position_le: "x \<in> set (head # ord) \<Longrightarrow> position ord x \<le> length ord"
  unfolding position_def using takeWhile_before [of x "head # ord"] by simp

lemma position_successor:
  assumes pub: "published cmp sl vis ord" and "l < kMaxHeight" "x = head \<or> x \<in> set ord \<and> l < vis x" "Next sl x l = Some z"
  shows "position ord x < position ord z"
proof -
  have nohead: "head \<notin> set ord" using publishedD(6) [OF pub] by blast
  have "x \<in> set (head # vlane vis l ord)" using assms(3) by (auto simp: set_vlane)
  then obtain us vs where "head # vlane vis l ord = us @ x # z # vs"
    using seg_pair [OF publishedD(9) [OF pub assms(2)]] assms(4) by blast
  moreover have "filter (\<lambda>i. i = head \<or> l < vis i) ord = vlane vis l ord"
    unfolding vlane_def using nohead by (intro filter_cong) auto
  ultimately have "filter (\<lambda>i. i = head \<or> l < vis i) (head # ord) = us @ x # z # vs" by simp
  moreover have "distinct (head # ord)" using publishedD(5) [OF pub] nohead by simp
  ultimately show ?thesis unfolding position_def by (rule filter_before)
qed

lemma reader_run_finishes:
  assumes "list_ok cmp sl w"
  shows "reader_ok cmp (w, sl) (Searching q x l) \<Longrightarrow> l + (length (sl_nodes sl) - position (sl_nodes sl) x) < n \<Longrightarrow>
    \<exists>c. reader_run cmp sl n (Searching q x l) = Some c"
proof (induction n arbitrary: x l)
  case (Suc n)
  note pub = list_okD(1) [OF assms]
  let ?m = "\<lambda>x. length (sl_nodes sl) - position (sl_nodes sl) x"
  have x: "x = head \<or> x \<in> set (sl_nodes sl) \<and> l < visible_height w sl x" and l: "l < kMaxHeight"
    using Suc.prems(1) publishedD(4) [OF pub] by (auto simp: reader_ok_def)
  obtain r where r: "reader_step cmp sl (Searching q x l) = Some r" "reader_ok cmp (w, sl) r"
    using reader_step_ok [OF assms Suc.prems(1)] by blast
  have right: "?m z < ?m x" if "Next sl x l = Some z" for z
  proof -
    have "position (sl_nodes sl) z \<le> length (sl_nodes sl)" using published_successor [OF pub l x that] by (intro position_le) simp
    then show ?thesis using position_successor [OF pub l x that] by linarith
  qed
  consider c where "r = Cursor c" | z where "Next sl x l = Some z" "r = Searching q z l" | "0 < l" "r = Searching q x (l - 1)"
    using r(1) by (cases "Next sl x l") (auto simp: reader_step_def Let_def split: if_splits)
  then have "\<exists>c. reader_run cmp sl n r = Some c"
  proof cases
    case 2
    then show ?thesis using Suc.IH [of z l] Suc.prems(2) r(2) right by fastforce
  next
    case 3
    then show ?thesis using Suc.IH [of x "l - 1"] Suc.prems(2) r(2) by fastforce
  qed simp
  then show ?case using r(1) by simp
qed simp

lemma reader_run_answer:
  assumes "ordering cmp" "list_ok cmp sl w"
  shows "reader_ok cmp (w, sl) (Searching q x l) \<Longrightarrow> reader_run cmp sl n (Searching q x l) = Some c \<Longrightarrow>
    Iterator_key sl c = query_answer cmp q (sl_items sl)"
proof (induction n arbitrary: x l)
  case (Suc n)
  obtain r where r: "reader_step cmp sl (Searching q x l) = Some r" "reader_ok cmp (w, sl) r"
    using reader_step_ok [OF assms(2) Suc.prems(1)] by blast
  then have run: "reader_run cmp sl n r = Some c" using Suc.prems(2) by simp
  consider "\<not> goes_right cmp sl q (Next sl x 0)" "r = Cursor (found q x (Next sl x 0))" | x' l' where "r = Searching q x' l'"
    using r(1) by (auto simp: reader_step_def Let_def split: if_splits)
  then show ?case
  proof cases
    case 1
    then show ?thesis
      using search_answer [OF assms(1) list_okD(1) [OF assms(2)] _ 1(1)] Suc.prems(1) run by (auto simp: reader_ok_def)
  next
    case 2
    then show ?thesis using Suc.IH r(2) run by blast
  qed
qed simp

section \<open>Accesses\<close>

text \<open>The \<^verbatim>\<open>next_\<close> entries the next step of a thread loads (for a positioned iterator, a call of \<^verbatim>\<open>Next\<close>) and stores.\<close>

fun reader_loads :: "'k reader \<Rightarrow> (nat \<times> nat) list" where
  "reader_loads (Cursor None) = [(head, 0)]"
| "reader_loads (Cursor (Some x)) = [(x, 0)]"
| "reader_loads (Searching q x l) = [(x, l)]"

fun writer_loads :: "'k writer \<Rightarrow> (nat \<times> nat) list" where
  "writer_loads (W_link x prev h i) = [(the (prev ! i), i)]"
| "writer_loads _ = []"

fun writer_stores :: "'k writer \<Rightarrow> (nat \<times> nat) list" where
  "writer_stores (W_link x prev h i) = [(x, i)]"
| "writer_stores (W_publish x prev h i) = [(the (prev ! i), i)]"
| "writer_stores _ = []"

definition entry :: "'k skiplist \<Rightarrow> nat \<times> nat \<Rightarrow> bool" where
  "entry sl = (\<lambda>(x, l). x < length (nodes sl) \<and> l < node_height sl x)"

text \<open>An entry that has been stored to: one of a level at which the node is published.\<close>

definition stored :: "'k concurrent \<Rightarrow> nat \<times> nat \<Rightarrow> bool" where
  "stored s = (\<lambda>(x, l). entry (cs_list s) (x, l) \<and> l < visible_height (cs_writer s) (cs_list s) x)"

lemma list_ok_head:
  assumes "list_ok cmp sl w" "l < kMaxHeight"
  shows "0 < length (nodes sl)" "l < node_height sl head" "l < visible_height w sl head"
proof -
  note d = publishedD [OF list_okD(1) [OF assms(1)]]
  show "0 < length (nodes sl)" "l < node_height sl head" using d(1,2) assms(2) by simp_all
  then show "l < visible_height w sl head"
    using list_okD(2) [OF assms(1)] by (auto simp: visible_height_def writer_ok_def linking_def split: writer.splits)
qed

lemma stored_head: "conc_ok cmp s \<Longrightarrow> l < kMaxHeight \<Longrightarrow> stored s (head, l)"
  using list_ok_head [of cmp "cs_list s" "cs_writer s" l] by (simp add: conc_ok_def stored_def entry_def)

lemma stored_node:
  assumes "conc_ok cmp s" "x \<in> set (sl_nodes (cs_list s))" "l < visible_height (cs_writer s) (cs_list s) x"
  shows "stored s (x, l)"
proof -
  have pub: "published cmp (cs_list s) (visible_height (cs_writer s) (cs_list s)) (sl_nodes (cs_list s))"
    using assms(1) list_okD(1) by (auto simp: conc_ok_def)
  show ?thesis using publishedD(6,7) [OF pub assms(2)] assms(3) by (simp add: stored_def entry_def)
qed

lemma conc_ok_published:
  "conc_ok cmp s \<Longrightarrow> published cmp (cs_list s) (visible_height (cs_writer s) (cs_list s)) (sl_nodes (cs_list s))"
  by (simp add: conc_ok_def list_ok_def)

lemma reader_loads_ok:
  assumes "conc_ok cmp s" "(x, l) \<in> set (reader_loads (cs_readers s t))"
  shows "stored s (x, l) \<and> (\<forall>z. Next (cs_list s) x l = Some z \<longrightarrow> stored s (z, l))"
proof -
  note pub = conc_ok_published [OF assms(1)]
  have "reader_ok cmp (cs_writer s, cs_list s) (cs_readers s t)" using assms(1) by (simp add: conc_ok_def)
  then have "(x = head \<or> x \<in> set (sl_nodes (cs_list s)) \<and> l < visible_height (cs_writer s) (cs_list s) x) \<and> l < kMaxHeight"
    using assms(2) publishedD(4) [OF pub] publishedD(7) [OF pub, of x]
    by (cases "cs_readers s t" rule: reader_loads.cases) (auto simp: reader_ok_def kMaxHeight_def)
  then show ?thesis
    using stored_head [OF assms(1)] stored_node [OF assms(1)] published_successor [OF pub] by blast
qed

lemma linking_accesses:
  assumes "conc_ok cmp s" "linking cmp (cs_list s) x prev h i A B" "\<And>y. y \<noteq> x \<Longrightarrow> visible_height (cs_writer s) (cs_list s) y = node_height (cs_list s) y"
  shows "stored s (the (prev ! i), i) \<and> entry (cs_list s) (x, i)"
proof -
  note pub = conc_ok_published [OF assms(1)]
  let ?p = "last (head # lane (cs_list s) i A)"
  have l: "prev ! i = Some ?p" "sl_nodes (cs_list s) = A @ (if i = 0 then [] else [x]) @ B" "x \<notin> set A" "i < kMaxHeight" "entry (cs_list s) (x, i)"
    using assms(2) publishedD(4) [OF pub] by (auto simp: linking_def prev_ok_def entry_def)
  have "?p = head \<or> ?p \<in> set A \<and> i < node_height (cs_list s) ?p" using last_in_set [of "head # lane (cs_list s) i A"] by (auto simp: set_lane)
  then have "stored s (?p, i)"
    using stored_head [OF assms(1) l(4)] stored_node [OF assms(1), of ?p i] assms(3) [of ?p] l(2,3) by fastforce
  then show ?thesis using l(1,5) by simp
qed

lemma writer_accesses_ok:
  assumes "conc_ok cmp s"
  shows "(\<forall>e \<in> set (writer_loads (cs_writer s)). stored s e) \<and> (\<forall>e \<in> set (writer_stores (cs_writer s)). entry (cs_list s) e)"
proof -
  have w: "writer_ok cmp (cs_list s) (cs_writer s)" using assms by (simp add: conc_ok_def list_ok_def)
  show ?thesis
  proof (cases "cs_writer s")
    case (W_link x pv h i)
    then show ?thesis using w linking_accesses [OF assms, of x pv h i] by (auto simp: writer_ok_def visible_height_def)
  next
    case (W_publish x pv h i)
    then show ?thesis using w linking_accesses [OF assms, of x pv h i] by (auto simp: writer_ok_def visible_height_def stored_def)
  qed simp_all
qed

section \<open>Properties\<close>



text \<open>A state in which the writer has begun an insertion and a reader a search.\<close>

definition busy_start :: "u64 \<Rightarrow> u64 query \<Rightarrow> u64 concurrent" where
  "busy_start k q = \<lparr>cs_list = SkipList_init bump_new 0 Arena_init, cs_writer = W_insert k, cs_readers = (\<lambda>_. Cursor None)(1 := Searching q head 0)\<rparr>"

lemma init_height: "max_height (SkipList_init nc z A) = 1"
  by (simp add: SkipList_init_def NewNode_def kMaxHeight_def upt_rec split: prod.split)

lemma busy_start_reach:
  assumes "q = Q_seek t \<or> q = Q_last"
  shows "conc_reach bump_new SkipTest_Comparator (busy_start k q)"
proof -
  let ?sl = "SkipList_init bump_new 0 Arena_init"
  let ?a = "\<lparr>cs_list = ?sl, cs_writer = W_idle, cs_readers = (\<lambda>_. Cursor None)\<rparr> :: u64 concurrent"
  have "reader_call ?sl (Cursor None) (Searching q head 0)"
    using assms reader_call.seek [of 1 ?sl None t] reader_call.seek_to_last [of 1 ?sl None] by (auto simp: init_height)
  then have "conc_step bump_new SkipTest_Comparator ?a (?a\<lparr>cs_readers := (cs_readers ?a)(1 := Searching q head 0)\<rparr>)"
    by (intro conc_step.call) simp
  then have "conc_reach bump_new SkipTest_Comparator (?a\<lparr>cs_readers := (cs_readers ?a)(1 := Searching q head 0)\<rparr>)"
    by (rule conc_reach.step [OF conc_reach.start])
  then have "conc_reach bump_new SkipTest_Comparator (?a\<lparr>cs_readers := (cs_readers ?a)(1 := Searching q head 0)\<rparr>\<lparr>cs_writer := W_insert k\<rparr>)"
    by (rule conc_reach.step) (rule conc_step.insert; simp add: sl_items_init)
  then show ?thesis by (simp add: busy_start_def)
qed


text \<open>C5. Insertion is atomic for the readers.  In every state that can be reached, the keys of the list are in order and the writer, if it is
  inserting, can take its next step: no assertion fails and no uninitialised entry of \<^verbatim>\<open>prev\<close> is read.  The step leaves the sequence of
  keys alone, except for one: the store that publishes the new node on level 0 puts the key at its place.  What a
  reader may hold on to, a published node with its key and levels, stays published.\<close>

theorem insert_atomic:
  assumes "ordering cmp" "conc_reach nc cmp s"
  shows "sorted_wrt (\<lambda>a b. \<not> cmp b a < 0) (sl_items (cs_list s)) \<and>
    (cs_writer s = W_idle \<or>
     (\<exists>w sl. writer_step nc cmp (cs_writer s, cs_list s) = Some (w, sl) \<and> grows (cs_writer s, cs_list s) (w, sl) \<and>
        sl_items sl =
          (case cs_writer s of
             W_publish x prev h 0 \<Rightarrow> insert_sorted cmp (node_key (nodes (cs_list s) ! x)) (sl_items (cs_list s))
           | _ \<Rightarrow> sl_items (cs_list s))))"
proof -
  have ok: "conc_ok cmp s" using assms by (rule conc_reach_ok)
  have "sorted_wrt (\<lambda>a b. \<not> cmp b a < 0) (sl_items (cs_list s))"
    using publishedD(8) [OF conc_ok_published [OF ok]] by (simp add: sl_items_def sorted_wrt_map)
  moreover have "list_ok cmp (cs_list s) (cs_writer s)" using ok by (simp add: conc_ok_def)
  then have "cs_writer s = W_idle \<or>
     (\<exists>w sl. writer_step nc cmp (cs_writer s, cs_list s) = Some (w, sl) \<and> grows (cs_writer s, cs_list s) (w, sl) \<and>
        sl_items sl = items_after cmp (cs_writer s) (cs_list s))"
    using writer_step_ok [OF assms(1)] by (fastforce simp: good_step_def)
  ultimately show ?thesis unfolding items_after_def by blast
qed

theorem insert_atomic_witness:
  "\<exists>w sl. writer_step bump_new SkipTest_Comparator (W_insert 7, SkipList_init bump_new 0 Arena_init) = Some (w, sl) \<and> sl_items sl = []"
proof -
  have reach: "conc_reach bump_new SkipTest_Comparator (busy_start 7 Q_last)" by (rule busy_start_reach [of _ 0]) simp
  show ?thesis using insert_atomic [OF u64_key.axioms_ordering reach] by (auto simp: busy_start_def sl_items_init)
qed

text \<open>C4. Reads are linearizable.  Whatever the writer and the other readers did since a search began, its next step is possible (the assertion of
  \<^verbatim>\<open>FindLessThan\<close> holds), and if the step ends the search, the result is the answer for the keys the list holds at that
  moment: the first key not below the target for \<open>Seek\<close>, the last key below the current one for \<open>Prev\<close>, the last key for \<open>SeekToLast\<close>.
  A call of \<open>Next\<close> moves to the node that now follows on level 0.\<close>

theorem reads_linearizable:
  assumes "ordering cmp" "conc_reach nc cmp s"
  shows "case cs_readers s t of
      Searching q x l \<Rightarrow> (\<exists>r. reader_step cmp (cs_list s) (Searching q x l) = Some r \<and>
        (case r of Cursor c \<Rightarrow> Iterator_key (cs_list s) c = query_answer cmp q (sl_items (cs_list s)) | Searching q' x' l' \<Rightarrow> q' = q))
    | Cursor None \<Rightarrow> True
    | Cursor (Some x) \<Rightarrow> (\<exists>A B. sl_nodes (cs_list s) = A @ x # B \<and> Next (cs_list s) x 0 = opt_hd B)"
proof (cases "cs_readers s t")
  case (Cursor c)
  have ok: "conc_ok cmp s" using assms by (rule conc_reach_ok)
  note pub = conc_ok_published [OF ok]
  have "reader_ok cmp (cs_writer s, cs_list s) (Cursor c)" using ok Cursor unfolding conc_ok_def by metis
  then have "\<exists>A B. sl_nodes (cs_list s) = A @ x # B \<and> Next (cs_list s) x 0 = opt_hd B" if "c = Some x" for x
    using that seg_node [OF published_level_0(2) [OF pub]] by (simp add: reader_ok_def)
  then show ?thesis using Cursor by (simp split: option.split)
next
  case (Searching q x l)
  have ok: "conc_ok cmp s" using assms by (rule conc_reach_ok)
  have rok: "reader_ok cmp (cs_writer s, cs_list s) (Searching q x l)" using ok Searching unfolding conc_ok_def by metis
  then obtain r where r: "reader_step cmp (cs_list s) (Searching q x l) = Some r"
    using reader_step_ok [OF _ rok] ok by (auto simp: conc_ok_def)
  have "Iterator_key (cs_list s) c = query_answer cmp q (sl_items (cs_list s))" if "r = Cursor c" for c
    using r rok that ok reader_run_answer [OF assms(1), of "cs_list s" "cs_writer s" q x l 1 c] by (simp add: conc_ok_def)
  moreover have "q' = q" if "r = Searching q' x' l'" for q' x' l'
    using r that by (auto simp: reader_step_def Let_def split: if_splits)
  ultimately show ?thesis using Searching r by (simp split: reader.split)
qed

theorem reads_linearizable_witness:
  "\<exists>r. reader_step SkipTest_Comparator (SkipList_init bump_new 0 Arena_init) (Searching (Q_seek 5) head 0) = Some r \<and>
    (case r of Cursor c \<Rightarrow> Iterator_key (SkipList_init bump_new (0 :: u64) Arena_init) c = None | Searching q x l \<Rightarrow> q = Q_seek 5)"
proof -
  have reach: "conc_reach bump_new SkipTest_Comparator (busy_start 7 (Q_seek 5))" by (rule busy_start_reach) simp
  have l: "cs_list (busy_start 7 (Q_seek 5)) = SkipList_init bump_new 0 Arena_init"
    and q: "query_answer SkipTest_Comparator (Q_seek 5) [] = None" "cs_readers (busy_start 7 (Q_seek 5)) 1 = Searching (Q_seek 5) head 0"
    by (simp_all add: busy_start_def query_answer_def)
  show ?thesis
    using reads_linearizable [OF u64_key.axioms_ordering reach, of 1] unfolding l sl_items_init q reader.case .
qed

text \<open>C7. A search does not depend on the progress of the writer.  From every state that can be reached, also one in which the writer has stopped in
  the middle of an insertion, a reader that runs alone ends its search within as many steps as the list has levels and published nodes,
  and one more, with the answer for the keys now in the list.\<close>

theorem search_ends_alone:
  assumes "ordering cmp" "conc_reach nc cmp s" "cs_readers s t = Searching q x l"
  shows "\<exists>c. reader_run cmp (cs_list s) (max_height (cs_list s) + length (sl_nodes (cs_list s)) + 1) (Searching q x l) = Some c \<and>
    Iterator_key (cs_list s) c = query_answer cmp q (sl_items (cs_list s))"
proof -
  have ok: "conc_ok cmp s" using assms(1,2) by (rule conc_reach_ok)
  then have l: "list_ok cmp (cs_list s) (cs_writer s)" and r: "reader_ok cmp (cs_writer s, cs_list s) (Searching q x l)"
    using assms(3) unfolding conc_ok_def by metis+
  have "l + (length (sl_nodes (cs_list s)) - position (sl_nodes (cs_list s)) x) < max_height (cs_list s) + length (sl_nodes (cs_list s)) + 1"
    using r by (auto simp: reader_ok_def)
  from reader_run_finishes [OF l r this] show ?thesis using reader_run_answer [OF assms(1) l r] by blast
qed

theorem search_ends_alone_witness:
  "\<exists>c. reader_run SkipTest_Comparator (SkipList_init bump_new 0 Arena_init) 2 (Searching (Q_seek 5) head 0) = Some c \<and>
    Iterator_key (SkipList_init bump_new (0 :: u64) Arena_init) c = None"
proof -
  have reach: "conc_reach bump_new SkipTest_Comparator (busy_start 7 (Q_seek 5))" by (rule busy_start_reach) simp
  have "sl_nodes (SkipList_init bump_new (0 :: u64) Arena_init) = []" by (rule sl_nodes_linked [OF SkipList_init_linked(1)])
  then show ?thesis
    using search_ends_alone [OF u64_key.axioms_ordering reach, of 1 "Q_seek 5" head 0]
    by (simp add: busy_start_def sl_items_init query_answer_def init_height numeral_2_eq_2)
qed

end
