(* ===== verification/Skiplist_driver.thy ===== *)
theory Skiplist_driver
  imports Skiplist "HOL-Library.Monad_Syntax"
begin

text \<open>
  \<^verbatim>\<open>examples/skiplistTest/skiplist_est.cc\<close>, the exerciser of the skip list, the random numbers and the arena together.  What it prints is
  a list of the printed values, one constructor for each format; the \<^verbatim>\<open>std::set\<close> it compares with is a set, of which \<^verbatim>\<open>*begin()\<close> and
  \<^verbatim>\<open>*rbegin()\<close> are the least and the greatest element.  \<open>None\<close> stands for a failed assertion of the list or a loop that does not
  end.  (\<^verbatim>\<open>skiplist_test.cc\<close> differs in the conversion specifiers only.)
\<close>

datatype printed =
    P_bool bool
  | P_key u64
  | P_find u64 nat
  | P_iterator u64
  | P_ends u64 u64

definition SkipTestEmpty :: "(region list \<Rightarrow> nat \<Rightarrow> nat) \<Rightarrow> printed list option" where
  "SkipTestEmpty nc =
     (let lst = SkipList_init nc 0 Arena_init in do {
        c \<leftarrow> Contains SkipTest_Comparator lst 10;
        let iter0 = None;
        let iter1 = Iterator_SeekToFirst lst;
        iter2 \<leftarrow> Iterator_Seek SkipTest_Comparator lst 100;
        iter3 \<leftarrow> Iterator_SeekToLast lst;
        Some [P_bool c, P_bool (Iterator_Valid iter0), P_bool (Iterator_Valid iter1), P_bool (Iterator_Valid iter2), P_bool (Iterator_Valid iter3)]
      })"

section \<open>The loops of \<open>SkipTest_InsertAndLookup\<close>\<close>

definition test_N :: nat where "test_N = 20"

definition test_R :: nat where "test_R = 50"

fun insert_loop ::
    "(region list \<Rightarrow> nat \<Rightarrow> nat) \<Rightarrow> nat \<Rightarrow> u32 \<Rightarrow> u64 set \<Rightarrow> u64 skiplist \<Rightarrow> (printed list \<times> u64 set \<times> u64 skiplist) option" where
  "insert_loop nc 0 seed keys lst = Some ([], keys, lst)"
| "insert_loop nc (Suc n) seed keys lst =
     (let seed = Random_Next seed; key = ucast (seed mod of_nat test_R) in do {
        lst \<leftarrow> (if key \<notin> keys then do {
                  c \<leftarrow> Contains SkipTest_Comparator lst key;
                  if \<not> c then SkipList_Insert nc SkipTest_Comparator key lst else Some lst
                } else Some lst);
        (out, keys, lst) \<leftarrow> insert_loop nc n seed (insert key keys) lst;
        Some (P_key key # out, keys, lst)
      })"

fun lookup_loop :: "u64 set \<Rightarrow> u64 skiplist \<Rightarrow> nat list \<Rightarrow> printed list option" where
  "lookup_loop keys lst [] = Some []"
| "lookup_loop keys lst (i # is) = do {
     c \<leftarrow> Contains SkipTest_Comparator lst (of_nat i);
     out \<leftarrow> lookup_loop keys lst is;
     Some (if c then P_find (of_nat i) (if of_nat i \<in> keys then 1 else 0) # out else out)
   }"

partial_function (option) iterate_loop :: "u64 skiplist \<Rightarrow> nat option \<Rightarrow> printed list option" where
  "iterate_loop lst iter =
     (if Iterator_Valid iter then do {
        k \<leftarrow> Iterator_key lst iter;
        iter \<leftarrow> Iterator_Next lst iter;
        out \<leftarrow> iterate_loop lst iter;
        Some (P_iterator k # out)
      } else Some [])"

declare iterate_loop.simps [code]

definition SkipTest_InsertAndLookup :: "(region list \<Rightarrow> nat \<Rightarrow> nat) \<Rightarrow> printed list option" where
  "SkipTest_InsertAndLookup nc = do {
     (inserted, keys, lst) \<leftarrow> insert_loop nc test_N (Random_init 10) {} (SkipList_init nc 0 Arena_init);
     looked_up \<leftarrow> lookup_loop keys lst [0..<test_R];
     iterated \<leftarrow> iterate_loop lst (Iterator_SeekToFirst lst);
     let valid0 = Iterator_Valid None;
     iter1 \<leftarrow> Iterator_Seek SkipTest_Comparator lst 0;
     key1 \<leftarrow> Iterator_key lst iter1;
     let iter2 = Iterator_SeekToFirst lst;
     key2 \<leftarrow> Iterator_key lst iter2;
     iter3 \<leftarrow> Iterator_SeekToLast lst;
     key3 \<leftarrow> Iterator_key lst iter3;
     Some (inserted @ looked_up @ iterated @
       [P_bool valid0, P_bool (Iterator_Valid iter1), P_ends (Min keys) key1,
        P_bool (Iterator_Valid iter2), P_ends (Min keys) key2, P_bool (Iterator_Valid iter3), P_ends (Max keys) key3])
   }"

section \<open>The list and the set agree\<close>

definition agrees :: "u64 set \<Rightarrow> u64 skiplist \<Rightarrow> bool" where
  "agrees keys lst \<longleftrightarrow> sl_inv SkipTest_Comparator lst \<and> sorted_wrt (<) (sl_items lst) \<and> set (sl_items lst) = keys"

lemma SkipTest_Comparator_less [simp]: "SkipTest_Comparator a b < 0 \<longleftrightarrow> a < b" "SkipTest_Comparator a b = 0 \<longleftrightarrow> a = b"
  by (auto simp: SkipTest_Comparator_def)

lemma agrees_Contains: "agrees keys lst \<Longrightarrow> Contains SkipTest_Comparator lst k = Some (k \<in> keys)"
  by (auto simp: agrees_def u64_key.Contains_iff)

lemma agrees_Insert:
  assumes "agrees keys lst" "k \<notin> keys"
  obtains lst' where "SkipList_Insert nc SkipTest_Comparator k lst = Some lst'" "agrees (insert k keys) lst'"
proof -
  have inv: "sl_inv SkipTest_Comparator lst" and fresh: "\<And>y. y \<in> set (sl_items lst) \<Longrightarrow> SkipTest_Comparator k y \<noteq> 0"
    and sorted: "sorted_wrt (\<lambda>a b. SkipTest_Comparator a b < 0) (sl_items lst)"
    using assms by (auto simp: agrees_def)
  obtain lst' where l: "SkipList_Insert nc SkipTest_Comparator k lst = Some lst'" "sl_inv SkipTest_Comparator lst'"
    "sl_items lst' = insert_sorted SkipTest_Comparator k (sl_items lst)"
    using u64_list.index_insert [OF inv fresh] by blast
  have "agrees (insert k keys) lst'"
    using l(2,3) assms(1) u64_list.insert_sorted_strict [OF sorted fresh]
    by (simp add: agrees_def u64_list.set_insert_sorted)
  with l(1) show ?thesis by (rule that)
qed

text \<open>The keys the test draws.\<close>

fun drawn :: "nat \<Rightarrow> u32 \<Rightarrow> u64 list" where
  "drawn 0 seed = []"
| "drawn (Suc n) seed = ucast (Random_Next seed mod of_nat test_R) # drawn n (Random_Next seed)"

lemma insert_loop_agrees:
  "agrees keys lst \<Longrightarrow> \<exists>lst'. insert_loop nc n seed keys lst = Some (map P_key (drawn n seed), keys \<union> set (drawn n seed), lst') \<and>
     agrees (keys \<union> set (drawn n seed)) lst'"
proof (induction n arbitrary: seed keys lst)
  case (Suc n)
  let ?k = "ucast (Random_Next seed mod of_nat test_R) :: u64"
  obtain lst1 where l: "(if ?k \<notin> keys then do { c \<leftarrow> Contains SkipTest_Comparator lst ?k;
        if \<not> c then SkipList_Insert nc SkipTest_Comparator ?k lst else Some lst } else Some lst) = Some lst1" "agrees (insert ?k keys) lst1"
  proof (cases "?k \<in> keys")
    case True
    then show ?thesis using Suc.prems that [of lst] by (simp add: insert_absorb)
  next
    case False
    then obtain lst1 where "SkipList_Insert nc SkipTest_Comparator ?k lst = Some lst1" "agrees (insert ?k keys) lst1"
      using agrees_Insert [OF Suc.prems] by blast
    then show ?thesis using False Suc.prems that [of lst1] by (simp add: agrees_Contains)
  qed
  obtain lst' where l': "insert_loop nc n (Random_Next seed) (insert ?k keys) lst1 =
      Some (map P_key (drawn n (Random_Next seed)), insert ?k keys \<union> set (drawn n (Random_Next seed)), lst')"
    "agrees (insert ?k keys \<union> set (drawn n (Random_Next seed))) lst'"
    using Suc.IH [OF l(2)] by blast
  have "insert_loop nc (Suc n) seed keys lst = Some (map P_key (drawn (Suc n) seed), insert ?k keys \<union> set (drawn n (Random_Next seed)), lst')"
    unfolding insert_loop.simps Let_def l(1) by (simp add: l'(1))
  then show ?case using l'(2) by simp
qed simp

lemma lookup_loop_agrees:
  "agrees keys lst \<Longrightarrow> lookup_loop keys lst is = Some (map (\<lambda>i. P_find (of_nat i) 1) (filter (\<lambda>i. of_nat i \<in> keys) is))"
  by (induction "is") (simp_all add: agrees_Contains)

lemma iterate_loop_agrees:
  assumes "sl_inv SkipTest_Comparator lst" "i \<le> length (sl_nodes lst)"
  shows "iterate_loop lst (if i < length (sl_nodes lst) then Some (sl_nodes lst ! i) else None) =
    Some (map P_iterator (drop i (sl_items lst)))"
  using assms(2)
proof (induction i rule: inc_induct)
  case base
  show ?case by (subst iterate_loop.simps) (simp add: Iterator_Valid_def sl_items_def)
next
  case (step i)
  have "drop i (sl_items lst) = nkey lst (sl_nodes lst ! i) # drop (Suc i) (sl_items lst)"
    using step(2) by (simp add: sl_items_def drop_map flip: Cons_nth_drop_Suc)
  then show ?case
    using step Next_nth [OF assms(1) step(2)]
    by (subst iterate_loop.simps) (simp add: Iterator_Valid_def Iterator_key_def)
qed

lemma agrees_ends:
  assumes "agrees keys lst" "keys \<noteq> {}"
  shows "Iterator_key lst (Iterator_SeekToFirst lst) = Some (Min keys)"
    "\<exists>it. Iterator_Seek SkipTest_Comparator lst 0 = Some it \<and> Iterator_key lst it = Some (Min keys)"
    "\<exists>it. Iterator_SeekToLast lst = Some it \<and> Iterator_key lst it = Some (Max keys)"
proof -
  have inv: "sl_inv SkipTest_Comparator lst" and sorted: "sorted_wrt (<) (sl_items lst)" and keys: "set (sl_items lst) = keys"
    using assms(1) by (simp_all add: agrees_def)
  obtain y ys where c: "sl_items lst = y # ys" using keys assms(2) by (cases "sl_items lst") auto
  have "Min keys = y" using sorted unfolding keys [symmetric] c by (intro Min_eqI) auto
  moreover obtain x xs where n: "sl_nodes lst = x # xs" "nkey lst x = y" using c by (cases "sl_nodes lst") (auto simp: sl_items_def)
  ultimately show "Iterator_key lst (Iterator_SeekToFirst lst) = Some (Min keys)"
    by (simp add: SeekToFirst_hd [OF inv] Iterator_key_def)
  have "sl_seek SkipTest_Comparator lst 0 = Some (Some y)" using u64_list.index_seek [OF inv, of 0] by (simp add: c)
  then show "\<exists>it. Iterator_Seek SkipTest_Comparator lst 0 = Some it \<and> Iterator_key lst it = Some (Min keys)"
    using \<open>Min keys = y\<close> by (auto simp: sl_seek_def)
  obtain zs z where z: "sl_items lst = zs @ [z]" using c by (metis append_butlast_last_id list.distinct(1))
  have "Max keys = z" using sorted unfolding keys [symmetric] z by (intro Max_eqI) (auto simp: sorted_wrt_append)
  moreover have "last (sl_items lst) = z" by (simp add: z)
  ultimately have "Max keys = last (sl_items lst)" by simp
  then show "\<exists>it. Iterator_SeekToLast lst = Some it \<and> Iterator_key lst it = Some (Max keys)"
    using n(1) by (simp add: SeekToLast_last [OF inv] Iterator_key_def sl_items_def last_map)
qed

section \<open>Properties\<close>

text \<open>On an empty list the exerciser prints \<^verbatim>\<open>false\<close> throughout.\<close>

theorem empty_test: "SkipTestEmpty nc = Some (replicate 5 (P_bool False))"
proof -
  let ?l = "SkipList_init nc 0 Arena_init :: u64 skiplist"
  have inv: "sl_inv SkipTest_Comparator ?l" by (rule sl_inv_init)
  have e: "sl_nodes ?l = []" by (rule sl_nodes_linked [OF SkipList_init_linked(1)])
  have "map_option (Iterator_key ?l) (Iterator_Seek SkipTest_Comparator ?l 100) = Some None"
    using u64_list.index_seek [OF inv, of 100] by (simp add: sl_seek_def sl_items_init)
  then have "Iterator_Seek SkipTest_Comparator ?l 100 = Some None" by (auto simp: Iterator_key_def)
  then show ?thesis
    using SeekToFirst_hd [OF inv] SeekToLast_last [OF inv] e u64_key.Contains_iff [OF inv, of 10]
    by (simp add: SkipTestEmpty_def sl_items_init Iterator_Valid_def numeral_eq_Suc)
qed


end
