(* ===== verification/Crc32c.thy ===== *)
theory Crc32c
  imports Crc32c_Tables Coding
begin

text \<open>
  \<^verbatim>\<open>util/crc32c.h\<close> and \<^verbatim>\<open>util/crc32c.cc\<close>: the CRC-32C checksum with its table-driven loops, and the masking of
  stored checksums.  The address of the data matters, because bytes are processed one at a time up to the
  next multiple of four; it is the parameter \<open>addr\<close>.  The pointer \<^verbatim>\<open>p\<close> is the list of bytes from it to the end.
\<close>

definition kCRC32Xor :: u32 where
  "kCRC32Xor = 0xffffffff"

definition ReadUint32LE :: "bytes \<Rightarrow> u32" where
  "ReadUint32LE buffer = DecodeFixed32 buffer"

definition RoundUp4 :: "nat \<Rightarrow> nat" where
  "RoundUp4 pointer = (pointer + 3) div 4 * 4"

definition STEP1 :: "u32 \<Rightarrow> u8 \<Rightarrow> u32" where
  "STEP1 l b = kByteExtensionTable ! unat ((l AND 255) XOR ucast b) XOR drop_bit 8 l"

definition STEP4 :: "nat \<Rightarrow> bytes \<Rightarrow> u32 \<Rightarrow> u32" where
  "STEP4 s p crc =
     ReadUint32LE (drop (s * 4) p) XOR kStrideExtensionTable3 ! unat (crc AND 255) XOR
     kStrideExtensionTable2 ! unat (drop_bit 8 crc AND 255) XOR
     kStrideExtensionTable1 ! unat (drop_bit 16 crc AND 255) XOR
     kStrideExtensionTable0 ! unat (drop_bit 24 crc)"

type_synonym strides = "u32 \<times> u32 \<times> u32 \<times> u32"

definition STEP16 :: "bytes \<Rightarrow> strides \<Rightarrow> strides" where
  "STEP16 p = (\<lambda>(crc0, crc1, crc2, crc3). (STEP4 0 p crc0, STEP4 1 p crc1, STEP4 2 p crc2, STEP4 3 p crc3))"

definition STEP4W :: "u32 \<Rightarrow> u32 \<Rightarrow> u32" where
  "STEP4W w l = ((\<lambda>w. drop_bit 8 w XOR kByteExtensionTable ! unat (w AND 255)) ^^ 4) (w XOR l)"

function swath_loop :: "strides \<Rightarrow> bytes \<Rightarrow> strides \<times> bytes" where
  "swath_loop crcs p = (if 16 \<le> length p then swath_loop (STEP16 p crcs) (drop 16 p) else (crcs, p))"
  by pat_completeness auto
termination
  by (relation "measure (length \<circ> snd)") auto

function word_loop :: "strides \<Rightarrow> bytes \<Rightarrow> strides \<times> bytes" where
  "word_loop crcs p =
     (if 4 \<le> length p then
        let (crc0, crc1, crc2, crc3) = crcs in
        word_loop (crc1, crc2, crc3, STEP4 0 p crc0) (drop 4 p)
      else (crcs, p))"
  by pat_completeness auto
termination
  by (relation "measure (length \<circ> snd)") auto

declare swath_loop.simps [simp del] word_loop.simps [simp del]

text \<open>The three phases of \<^verbatim>\<open>Extend\<close>: bytes up to an aligned address, strides, and the rest.\<close>

definition align_phase :: "nat \<Rightarrow> u32 \<Rightarrow> bytes \<Rightarrow> u32 \<times> bytes" where
  "align_phase addr l p =
     (let e = addr + length p; x = RoundUp4 addr in
      if x \<le> e then (foldl STEP1 l (take (x - addr) p), drop (x - addr) p) else (l, p))"

definition stride_phase :: "u32 \<Rightarrow> bytes \<Rightarrow> u32 \<times> bytes" where
  "stride_phase l p =
     (if 16 \<le> length p then
        let crc0 = ReadUint32LE (drop (0 * 4) p) XOR l;
            crc1 = ReadUint32LE (drop (1 * 4) p);
            crc2 = ReadUint32LE (drop (2 * 4) p);
            crc3 = ReadUint32LE (drop (3 * 4) p);
            (crcs, p) = swath_loop (crc0, crc1, crc2, crc3) (drop 16 p);
            ((crc0, crc1, crc2, crc3), p) = word_loop crcs p
        in (STEP4W crc3 (STEP4W crc2 (STEP4W crc1 (STEP4W crc0 0))), p)
      else (l, p))"

definition Extend_portable :: "nat \<Rightarrow> u32 \<Rightarrow> bytes \<Rightarrow> u32" where
  "Extend_portable addr crc data =
     (let l = crc XOR kCRC32Xor;
          (l, p) = align_phase addr l data;
          (l, p) = stride_phase l p
      in foldl STEP1 l p XOR kCRC32Xor)"

text \<open>
  \<^verbatim>\<open>Extend\<close> first initialises a function-local \<^verbatim>\<open>static bool accelerate\<close>, by calling \<^verbatim>\<open>CanAccelerateCRC32C\<close>, which
  calls \<^verbatim>\<open>AcceleratedCRC32C\<close>, which is \<^verbatim>\<open>Extend\<close> again.  \<open>accel\<close> is the state of that variable.  Entering the
  declaration again while it is being initialised has no defined behaviour: the model does not return.  With the
  variable \<^verbatim>\<open>true\<close> the function calls itself forever.
\<close>

datatype accel = Uninitialised | Initialising | Accelerate bool

definition kTestCRCBuffer :: bytes where
  "kTestCRCBuffer = ascii ''TestCRCBuffer''"

definition kTestCRCValue :: u32 where
  "kTestCRCValue = 0xdcbc59fa"

partial_function (option) Extend :: "accel \<Rightarrow> nat \<Rightarrow> u32 \<Rightarrow> bytes \<Rightarrow> (u32 \<times> accel) option" where
  "Extend st addr crc data =
     (case st of
        Initialising \<Rightarrow> None
      | Uninitialised \<Rightarrow>
          Option.bind (Extend Initialising 0 0 kTestCRCBuffer)
            (\<lambda>(r, _). Extend (Accelerate (r = kTestCRCValue)) addr crc data)
      | Accelerate b \<Rightarrow>
          if b then Extend (Accelerate b) addr crc data
          else Some (Extend_portable addr crc data, st))"

definition Value :: "accel \<Rightarrow> nat \<Rightarrow> bytes \<Rightarrow> (u32 \<times> accel) option" where
  "Value st addr data = Extend st addr 0 data"

definition kMaskDelta :: u32 where
  "kMaskDelta = 0xa282ead8"

definition Mask :: "u32 \<Rightarrow> u32" where
  "Mask crc = (drop_bit 15 crc OR push_bit 17 crc) + kMaskDelta"

definition Unmask :: "u32 \<Rightarrow> u32" where
  "Unmask masked_crc = (let rot = masked_crc - kMaskDelta in drop_bit 17 rot OR push_bit 15 rot)"

section \<open>Reference: division by the polynomial\<close>

definition crc_fold :: "u32 \<Rightarrow> bytes \<Rightarrow> u32" where
  "crc_fold l bs = foldl (\<lambda>l b. crc_byte (l XOR ucast b)) l bs"

definition crc32c :: "u32 \<Rightarrow> bytes \<Rightarrow> u32" where
  "crc32c crc data = NOT (crc_fold (NOT crc) data)"

lemma crc_fold_append: "crc_fold l (xs @ ys) = crc_fold (crc_fold l xs) ys"
  by (simp add: crc_fold_def)

lemma and_255: "x AND 255 = take_bit 8 (x :: u32)"
  by (simp add: take_bit_eq_mask mask_eq_exp_minus_1)

lemma low_byte_index: "unat (x AND 255 :: u32) < 256" "of_nat (unat (x AND 255)) = (x AND 255 :: u32)"
proof -
  have "unat (x AND 255) = unat x mod 2 ^ 8"
    unfolding and_255 unsigned_take_bit_eq by (simp only: take_bit_eq_mod)
  then show "unat (x AND 255) < 256" by simp
qed simp

text \<open>One step of a byte table: the register's low byte goes through the table, the rest is shifted.\<close>

lemma crc_byte_split: "crc_byte x = kByteExtensionTable ! unat (x AND 255) XOR drop_bit 8 x"
proof -
  let ?y = "push_bit 8 (drop_bit 8 x)"
  have x: "x = (x AND 255) XOR ?y" unfolding and_255 by (rule bit_word_eqI) (auto simp: bit_simps)
  have "take_bit 8 ?y = 0" "drop_bit 8 ?y = drop_bit 8 x"
    by (rule bit_word_eqI; auto simp: bit_simps dest: bit_imp_le_length)+
  then have y: "crc_byte ?y = drop_bit 8 x" using crc_byte_shift by metis
  have t: "crc_byte (x AND 255) = kByteExtensionTable ! unat (x AND 255)"
    using byte_table [OF low_byte_index(1) [of x]] low_byte_index(2) [of x] by simp
  have "crc_byte x = crc_byte ((x AND 255) XOR ?y)" by (subst x) (rule refl)
  also have "\<dots> = crc_byte (x AND 255) XOR crc_byte ?y" by (rule lin_xor [OF lin_crc_byte])
  finally show ?thesis unfolding y t .
qed

lemma STEP1_crc_byte: "STEP1 l b = crc_byte (l XOR ucast b)"
proof -
  have "(l XOR ucast b) AND 255 = (l AND 255) XOR ucast b" "drop_bit 8 (l XOR ucast b) = drop_bit 8 l"
    by (rule bit_word_eqI; auto simp: bit_simps dest: bit_imp_le_length)+
  then show ?thesis by (simp add: STEP1_def crc_byte_split)
qed

lemma foldl_STEP1: "foldl STEP1 l bs = crc_fold l bs"
  by (simp add: crc_fold_def STEP1_crc_byte [abs_def])


lemma STEP4W_zeros: "STEP4W w l = crc_zeros 4 (w XOR l)"
proof -
  have "(\<lambda>w. drop_bit 8 w XOR kByteExtensionTable ! unat (w AND 255)) = crc_byte"
    by (simp add: fun_eq_iff crc_byte_split xor.commute)
  then show ?thesis by (simp add: STEP4W_def numeral_eq_Suc)
qed

text \<open>Sixteen bytes through the four stride tables.\<close>

lemma crc_zeros_shift:
  assumes "drop_bit 24 y = 0"
  shows "crc_zeros (Suc n) (push_bit 8 y) = crc_zeros n y"
proof -
  have high: "\<not> bit y i" if "24 \<le> i" for i
  proof -
    have "bit (drop_bit 24 y) (i - 24) = bit y i" using that by (simp add: bit_drop_bit_eq)
    with assms show ?thesis by simp
  qed
  have t: "take_bit 8 (push_bit 8 y) = 0" by (rule bit_word_eqI) (simp add: bit_simps)
  have "drop_bit 8 (push_bit 8 y) = y"
  proof (rule bit_word_eqI)
    fix i assume "i < LENGTH(32)"
    show "bit (drop_bit 8 (push_bit 8 y)) i = bit y i" using high [of i] by (cases "24 \<le> i") (auto simp: bit_simps)
  qed
  then show ?thesis using crc_byte_shift [OF t] by simp
qed

lemma STEP4_zeros: "STEP4 s p c = ReadUint32LE (drop (s * 4) p) XOR crc_zeros 16 c"
proof -
  define b0 b1 b2 b3 where "b0 = c AND 255" and "b1 = drop_bit 8 c AND 255" and "b2 = drop_bit 16 c AND 255"
    and "b3 = drop_bit 24 c AND 255"
  note b = b0_def b1_def b2_def b3_def
  have top: "drop_bit 24 c = b3" unfolding b and_255 by (rule bit_word_eqI) (auto simp: bit_simps dest: bit_imp_le_length)
  have c: "c = b0 XOR push_bit 8 b1 XOR push_bit 8 (push_bit 8 b2) XOR push_bit 8 (push_bit 8 (push_bit 8 b3))"
    unfolding b and_255 by (rule bit_word_eqI) (auto simp: bit_simps)
  have small: "drop_bit 24 (push_bit k (x AND 255)) = 0" if "k \<le> 16" for x :: u32 and k
    using that unfolding and_255 by (intro bit_word_eqI) (auto simp: bit_simps)
  have 1: "crc_zeros 16 (push_bit 8 b1) = crc_zeros 15 b1"
    using crc_zeros_shift [of b1 15] small [of 0 "drop_bit 8 c"] by (simp add: b)
  have 2: "crc_zeros 16 (push_bit 8 (push_bit 8 b2)) = crc_zeros 14 b2"
    using crc_zeros_shift [of "push_bit 8 b2" 15] crc_zeros_shift [of b2 14]
      small [of 0 "drop_bit 16 c"] small [of 8 "drop_bit 16 c"] by (simp add: b)
  have 3: "crc_zeros 16 (push_bit 8 (push_bit 8 (push_bit 8 b3))) = crc_zeros 13 b3"
    using crc_zeros_shift [of "push_bit 8 (push_bit 8 b3)" 15] crc_zeros_shift [of "push_bit 8 b3" 14]
      crc_zeros_shift [of b3 13] small [of 0 "drop_bit 24 c"] small [of 8 "drop_bit 24 c"] small [of 16 "drop_bit 24 c"]
    by (simp add: b push_bit_push_bit)
  have "crc_zeros 16 c = crc_zeros 16 b0 XOR crc_zeros 15 b1 XOR crc_zeros 14 b2 XOR crc_zeros 13 b3"
    unfolding 1 [symmetric] 2 [symmetric] 3 [symmetric] lin_xor [OF lin_crc_zeros, symmetric] c [symmetric] ..
  then show ?thesis
    unfolding STEP4_def top b0_def [symmetric] b1_def [symmetric] b2_def [symmetric]
    using low_byte_index [of c] low_byte_index [of "drop_bit 8 c"] low_byte_index [of "drop_bit 16 c"]
      low_byte_index [of "drop_bit 24 c"]
    by (simp add: stride_tables b ac_simps)
qed

text \<open>Four bytes at once: fold the little-endian word into the register, then divide by four bytes.\<close>

lemma crc_fold_word:
  assumes "4 \<le> length p"
  shows "crc_fold l (take 4 p) = crc_zeros 4 (l XOR ReadUint32LE p)"
proof -
  let ?b = "\<lambda>i. ucast (p ! i) :: u32"
  have take4: "take 4 p = [p ! 0, p ! 1, p ! 2, p ! 3]"
    using assms by (intro nth_equalityI) (auto simp: less_Suc_eq numeral_eq_Suc)
  have word: "ReadUint32LE p =
      ?b 0 XOR push_bit 8 (?b 1) XOR push_bit 8 (push_bit 8 (?b 2)) XOR push_bit 8 (push_bit 8 (push_bit 8 (?b 3)))"
    unfolding ReadUint32LE_def DecodeFixed32_def
    by (rule bit_word_eqI) (auto simp: bit_simps dest: bit_imp_le_length)
  have small: "drop_bit 24 (push_bit k (?b i)) = 0" if "k \<le> 16" for k i
    using that by (intro bit_word_eqI) (auto simp: bit_simps dest: bit_imp_le_length)
  have 1: "crc_zeros 4 (push_bit 8 (?b 1)) = crc_zeros 3 (?b 1)"
    using crc_zeros_shift [of "?b 1" 3] small [of 0 1] by simp
  have 2: "crc_zeros 4 (push_bit 8 (push_bit 8 (?b 2))) = crc_zeros 2 (?b 2)"
    using crc_zeros_shift [of "push_bit 8 (?b 2)" 3] crc_zeros_shift [of "?b 2" 2] small [of 0 2] small [of 8 2] by simp
  have 3: "crc_zeros 4 (push_bit 8 (push_bit 8 (push_bit 8 (?b 3)))) = crc_zeros 1 (?b 3)"
    using crc_zeros_shift [of "push_bit 8 (push_bit 8 (?b 3))" 3] crc_zeros_shift [of "push_bit 8 (?b 3)" 2]
      crc_zeros_shift [of "?b 3" 1] small [of 0 3] small [of 8 3] small [of 16 3]
    by (simp add: push_bit_push_bit numeral_eq_Suc)
  have "crc_zeros 4 (l XOR ReadUint32LE p) =
      crc_zeros 4 l XOR crc_zeros 4 (?b 0) XOR crc_zeros 3 (?b 1) XOR crc_zeros 2 (?b 2) XOR crc_zeros 1 (?b 3)"
    unfolding word lin_xor [OF lin_crc_zeros] 1 2 3 by (simp only: xor.assoc)
  also have "\<dots> = crc_fold l (take 4 p)"
    unfolding take4 crc_fold_def by (simp add: numeral_eq_Suc lin_xor [OF lin_crc_byte] xor.assoc)
  finally show ?thesis ..
qed

text \<open>The register that four stride registers stand for.\<close>

definition combine :: "strides \<Rightarrow> u32" where
  "combine = (\<lambda>(crc0, crc1, crc2, crc3). STEP4W crc3 (STEP4W crc2 (STEP4W crc1 (STEP4W crc0 0))))"

lemma combine_zeros:
  "combine (c0, c1, c2, c3) = crc_zeros 16 c0 XOR crc_zeros 12 c1 XOR crc_zeros 8 c2 XOR crc_zeros 4 c3"
  using crc_zeros_add [of 4 4] crc_zeros_add [of 8 4] crc_zeros_add [of 12 4]
  by (simp add: combine_def STEP4W_zeros lin_xor [OF lin_crc_zeros] ac_simps)

lemma combine_rotate:
  assumes "4 \<le> length p"
  shows "combine (c1, c2, c3, STEP4 0 p c0) = crc_fold (combine (c0, c1, c2, c3)) (take 4 p)"
  unfolding crc_fold_word [OF assms] combine_zeros STEP4_zeros lin_xor [OF lin_crc_zeros]
  using crc_zeros_add [of 16 4 c0] crc_zeros_add [of 12 4 c1] crc_zeros_add [of 8 4 c2] crc_zeros_add [of 4 4 c3]
  by (simp add: ac_simps)

lemma crc_fold_take_add: "crc_fold (crc_fold l (take m p)) (take n (drop m p)) = crc_fold l (take (m + n) p)"
  by (simp add: crc_fold_append [symmetric] take_add)

lemma crc_fold_take_drop: "crc_fold (crc_fold l (take m p)) (drop m p) = crc_fold l p"
  by (simp add: crc_fold_append [symmetric])

lemma STEP4_drop: "STEP4 0 (drop (s * 4) p) c = STEP4 s p c"
  by (simp add: STEP4_def)

lemma combine_STEP16:
  assumes "16 \<le> length p"
  shows "combine (STEP16 p c) = crc_fold (combine c) (take 16 p)"
proof -
  obtain c0 c1 c2 c3 where c: "c = (c0, c1, c2, c3)" by (cases c) auto
  have "combine (STEP16 p c) =
      crc_fold (crc_fold (crc_fold (crc_fold (combine c) (take 4 p)) (take 4 (drop 4 p))) (take 4 (drop 8 p)))
        (take 4 (drop 12 p))"
    using assms STEP4_drop [of 1 p] STEP4_drop [of 2 p] STEP4_drop [of 3 p] by (simp add: combine_rotate [symmetric] c STEP16_def)
  then show ?thesis
    using crc_fold_take_add [of _ 4 p 4] crc_fold_take_add [of _ 8 p 4] crc_fold_take_add [of _ 12 p 4] by simp
qed

lemma combine_initial:
  assumes "16 \<le> length p"
  shows "combine (ReadUint32LE (drop (0 * 4) p) XOR l, ReadUint32LE (drop (1 * 4) p), ReadUint32LE (drop (2 * 4) p),
      ReadUint32LE (drop (3 * 4) p)) = crc_fold l (take 16 p)"
proof -
  have "combine (ReadUint32LE p XOR l, ReadUint32LE (drop 4 p), ReadUint32LE (drop 8 p), ReadUint32LE (drop 12 p)) =
      crc_fold (crc_fold (crc_fold (crc_fold l (take 4 p)) (take 4 (drop 4 p))) (take 4 (drop 8 p))) (take 4 (drop 12 p))"
    using assms by (simp add: crc_fold_word combine_def STEP4W_zeros ac_simps)
  then show ?thesis
    using crc_fold_take_add [of _ 4 p 4] crc_fold_take_add [of _ 8 p 4] crc_fold_take_add [of _ 12 p 4] by simp
qed

lemma swath_loop_combine: "swath_loop c p = (c', p') \<Longrightarrow> crc_fold (combine c') p' = crc_fold (combine c) p"
  by (induction c p rule: swath_loop.induct)
    (auto simp: swath_loop.simps combine_STEP16 crc_fold_take_drop split: if_splits)

lemma word_loop_combine: "word_loop c p = (c', p') \<Longrightarrow> crc_fold (combine c') p' = crc_fold (combine c) p"
proof (induction c p rule: word_loop.induct)
  case (1 c p)
  obtain c0 c1 c2 c3 where c: "c = (c0, c1, c2, c3)" by (cases c) auto
  show ?case
  proof (cases "4 \<le> length p")
    case True
    then have "crc_fold (combine c') p' = crc_fold (combine (c1, c2, c3, STEP4 0 p c0)) (drop 4 p)"
      using 1(1) [OF True c [symmetric] refl refl refl] 1(2) True c by (simp add: word_loop.simps [of "(c0, c1, c2, c3)" p])
    then show ?thesis by (simp add: combine_rotate [OF True] crc_fold_take_drop c)
  next
    case False
    then show ?thesis using 1(2) by (simp add: word_loop.simps)
  qed
qed

text \<open>The stride loop as a whole continues the division over every byte it is given.\<close>

lemma stride_phase_fold: "stride_phase l p = (l', q) \<Longrightarrow> crc_fold l' q = crc_fold l p"
  using combine_initial [of p l] crc_fold_take_drop [of l 16 p] unfolding stride_phase_def Let_def
  by (auto simp: combine_def split: if_splits prod.splits dest!: word_loop_combine swath_loop_combine)

lemma align_phase_fold: "align_phase addr l p = (l', q) \<Longrightarrow> crc_fold l' q = crc_fold l p"
  by (auto simp: align_phase_def Let_def foldl_STEP1 crc_fold_take_drop split: if_splits)

lemma xor_kCRC32Xor: "x XOR kCRC32Xor = NOT x"
proof -
  have all: "kCRC32Xor = mask 32" by (simp add: kCRC32Xor_def mask_eq_exp_minus_1)
  show ?thesis unfolding all by (rule bit_word_eqI) (simp add: bit_simps)
qed

lemma extend_portable_division: "Extend_portable addr crc data = crc32c crc data"
  unfolding Extend_portable_def crc32c_def Let_def xor_kCRC32Xor foldl_STEP1
  by (auto split: prod.splits dest!: stride_phase_fold align_phase_fold)

text \<open>C39. The checksum loops (bytes up to an aligned address, four interleaved strides through five tables of 256 words,
  and the last bytes) compute, for every starting checksum, every buffer and every address of it, the remainder
  of the bitwise division by the CRC-32C polynomial, complemented before and after.\<close>

theorem extend_is_division: "Extend_portable addr crc data = crc32c crc data"
  by (rule extend_portable_division)

section \<open>The checksum as an interface\<close>

text \<open>What the log format needs from a checksum: extending it by two pieces is extending it by their concatenation.\<close>

locale checksum =
  fixes ext :: "u32 \<Rightarrow> bytes \<Rightarrow> u32"
  assumes ext_append: "ext (ext c xs) ys = ext c (xs @ ys)"
begin

lemma ext_concat: "foldl ext c xss = (if xss = [] then c else ext c (concat xss))"
  by (induction xss rule: rev_induct) (auto simp: ext_append)

end

lemma crc32c_append: "crc32c (crc32c c xs) ys = crc32c c (xs @ ys)"
  by (simp add: crc32c_def crc_fold_append)

interpretation crc: checksum "Extend_portable addr"
  by unfold_locales (simp add: extend_portable_division crc32c_append)

text \<open>Checksumming a stream piecewise, whatever the addresses of the pieces, gives the checksum of the whole stream.\<close>

theorem extend_stream:
  "Extend_portable a2 (Extend_portable a1 c xs) ys = Extend_portable a3 c (xs @ ys)"
  by (simp add: extend_portable_division crc32c_append)

lemma rotate_word:
  assumes "m + n = 32"
  shows "drop_bit n (drop_bit m x OR push_bit n x) OR push_bit m (drop_bit m x OR push_bit n x) = (x :: u32)"
proof (rule bit_word_eqI)
  fix i assume "i < LENGTH(32)"
  then show "bit (drop_bit n (drop_bit m x OR push_bit n x) OR push_bit m (drop_bit m x OR push_bit n x)) i = bit x i"
    using assms bit_imp_le_length [of x] by (cases "m \<le> i") (auto simp: bit_simps)
qed

lemma mask_inverse: "Unmask (Mask crc) = crc"
  using rotate_word [of 15 17 crc] by (simp add: Mask_def Unmask_def)

text \<open>Masking a stored checksum is a bijection on 32-bit words whose inverse is unmasking.\<close>

theorem mask_roundtrip: "Unmask (Mask crc) = crc \<and> Mask (Unmask crc) = crc"
proof
  show "Unmask (Mask crc) = crc" by (rule mask_inverse)
  have "drop_bit 15 (drop_bit 17 r OR push_bit 15 r) OR push_bit 17 (drop_bit 17 r OR push_bit 15 r) = r" for r :: u32
    using rotate_word [of 17 15 r] by simp
  then show "Mask (Unmask crc) = crc" by (simp add: Mask_def Unmask_def Let_def)
qed

section \<open>Termination of the dispatch\<close>

lemma Extend_Some_state:
  assumes "Extend st addr crc data = Some r"
  shows "st = Accelerate False"
  by (rule Extend.raw_induct [where P = "\<lambda>st _ _ _ _. st = Accelerate False", OF _ assms])
    (fastforce split: accel.splits if_splits simp: bind_eq_Some_conv)

text \<open>C40. A call of \<^verbatim>\<open>Extend\<close> returns exactly when its static flag is already initialised to \<^verbatim>\<open>false\<close>, and then with the
  portable result: the first call of the program never returns, since initialising the flag calls \<^verbatim>\<open>Extend\<close> itself.\<close>

theorem extend_returns_iff:
  "(\<exists>r. Extend st addr crc data = Some r) = (st = Accelerate False) \<and>
   Extend (Accelerate False) addr crc data = Some (Extend_portable addr crc data, Accelerate False)"
proof (rule conjI)
  show ok: "Extend (Accelerate False) addr crc data = Some (Extend_portable addr crc data, Accelerate False)"
    by (simp add: Extend.simps)
  show "(\<exists>r. Extend st addr crc data = Some r) = (st = Accelerate False)"
    using Extend_Some_state [of st addr crc data] ok by auto
qed

end
