(* ===== verification/Log_format.thy ===== *)
theory Log_format
  imports Crc32c Status
begin

text \<open>
  \<^verbatim>\<open>db/log_format.h\<close>: the record types and sizes of the log, and the format itself as a function from records to
  bytes.  A record is cut into fragments so that no fragment crosses a block boundary; a block whose rest is too
  short for a header is filled with zeros.
\<close>

datatype RecordType = kZeroType | kFullType | kFirstType | kMiddleType | kLastType

fun type_value :: "RecordType \<Rightarrow> nat" where
  "type_value kZeroType = 0"
| "type_value kFullType = 1"
| "type_value kFirstType = 2"
| "type_value kMiddleType = 3"
| "type_value kLastType = 4"

definition kMaxRecordType :: nat where
  "kMaxRecordType = type_value kLastType"

definition kBlockSize :: nat where
  "kBlockSize = 32768"

definition kHeaderSize :: nat where
  "kHeaderSize = 4 + 2 + 1"

lemma kHeaderSize_7 [simp]: "kHeaderSize = 7"
  by (simp add: kHeaderSize_def)

lemma header_fits [simp]: "7 < kBlockSize" "\<not> kBlockSize < 7" "0 < kBlockSize" "kBlockSize \<noteq> 0" "kBlockSize - 7 \<noteq> 0" "kBlockSize \<le> 0x10000"
  by (simp_all add: kBlockSize_def)

lemma type_value_inject [simp]: "type_value s = type_value t \<longleftrightarrow> s = t"
  by (cases s; cases t) auto

lemma type_value_le: "type_value t \<le> 4"
  by (cases t) auto

section \<open>The format\<close>

text \<open>One fragment: masked checksum of the type byte and the payload, length, type byte, payload.\<close>

definition raw_frame :: "(u32 \<Rightarrow> bytes \<Rightarrow> u32) \<Rightarrow> u8 \<Rightarrow> bytes \<Rightarrow> bytes" where
  "raw_frame ext tb p =
     EncodeFixed32 (Mask (ext 0 (tb # p))) @ [of_nat (length p mod 256), of_nat (length p div 256), tb] @ p"

definition frame :: "(u32 \<Rightarrow> bytes \<Rightarrow> u32) \<Rightarrow> RecordType \<Rightarrow> bytes \<Rightarrow> bytes" where
  "frame ext t p = raw_frame ext (of_nat (type_value t)) p"

lemma raw_frame_length: "length (raw_frame ext tb p) = 7 + length p"
  by (simp add: raw_frame_def EncodeFixed32_def)

lemma frame_length: "length (frame ext t p) = 7 + length p"
  by (simp add: frame_def raw_frame_length)

definition fragment_type :: "bool \<Rightarrow> bool \<Rightarrow> RecordType" where
  "fragment_type beg fin =
     (if beg \<and> fin then kFullType else if beg then kFirstType else if fin then kLastType else kMiddleType)"

definition trailer_size :: "nat \<Rightarrow> nat" where
  "trailer_size off = (if kBlockSize - off < kHeaderSize then kBlockSize - off else 0)"

definition start_offset :: "nat \<Rightarrow> nat" where
  "start_offset off = (if kBlockSize - off < kHeaderSize then 0 else off)"

lemma start_offset_le: "start_offset off + 7 \<le> kBlockSize"
  by (auto simp: start_offset_def not_less) (simp add: kBlockSize_def)+

text \<open>The bytes a record takes from offset \<open>off\<close> of a block, and the offset after it.\<close>

function fragments :: "(u32 \<Rightarrow> bytes \<Rightarrow> u32) \<Rightarrow> nat \<Rightarrow> bool \<Rightarrow> bytes \<Rightarrow> bytes \<times> nat" where
  "fragments ext off beg data =
     (let o0 = start_offset off;
          n = min (length data) (kBlockSize - o0 - kHeaderSize);
          fin = (n = length data);
          here = replicate (trailer_size off) 0 @ frame ext (fragment_type beg fin) (take n data)
      in if fin then (here, o0 + kHeaderSize + n)
         else let (more, o1) = fragments ext (o0 + kHeaderSize + n) False (drop n data) in (here @ more, o1))"
  by pat_completeness auto
termination
  by (relation "measure (\<lambda>(ext, off, beg, data). 2 * length data + (if off + 7 = kBlockSize then 1 else 0))")
    (auto simp: start_offset_def min_def kBlockSize_def split: if_splits)

declare fragments.simps [simp del]

lemma fragments_induct [case_names step]:
  assumes "\<And>off beg (data :: bytes).
      (\<And>n. n = min (length data) (kBlockSize - start_offset off - 7) \<Longrightarrow> n \<noteq> length data \<Longrightarrow>
        P (start_offset off + 7 + n) False (drop n data)) \<Longrightarrow> P off beg data"
  shows "P off beg data"
  by (induction "\<lambda>(_ :: u32) (_ :: bytes). 0 :: u32" off beg data rule: fragments.induct) (rule assms, simp)

lemma fragments_parts:
  assumes "n = min (length data) (kBlockSize - start_offset off - 7)" "t = fragment_type beg (n = length data)"
  shows "fst (fragments ext off beg data) = replicate (trailer_size off) 0 @ frame ext t (take n data) @
      (if n = length data then [] else fst (fragments ext (start_offset off + 7 + n) False (drop n data)))"
    and "snd (fragments ext off beg data) =
      (if n = length data then start_offset off + 7 + n
       else snd (fragments ext (start_offset off + 7 + n) False (drop n data)))"
  unfolding fragments.simps [of ext off beg data] Let_def kHeaderSize_7 assms(1) [symmetric] assms(2) [symmetric]
  by (simp_all add: case_prod_beta)

text \<open>A whole log: the records one after the other.\<close>

fun log_bytes :: "(u32 \<Rightarrow> bytes \<Rightarrow> u32) \<Rightarrow> nat \<Rightarrow> bytes list \<Rightarrow> bytes \<times> nat" where
  "log_bytes ext off [] = ([], off)"
| "log_bytes ext off (r # rs) =
     (let (b, o1) = fragments ext off True r; (bs, o2) = log_bytes ext o1 rs in (b @ bs, o2))"

text \<open>Where the first header of each record starts, and how many records lie wholly within the first \<open>m\<close> bytes.\<close>

fun record_positions :: "(u32 \<Rightarrow> bytes \<Rightarrow> u32) \<Rightarrow> u64 \<Rightarrow> nat \<Rightarrow> bytes list \<Rightarrow> u64 list" where
  "record_positions ext pos off [] = []"
| "record_positions ext pos off (r # rs) =
     (pos + of_nat (trailer_size off)) #
     record_positions ext (pos + of_nat (length (fst (fragments ext off True r)))) (snd (fragments ext off True r)) rs"

fun complete_records :: "(u32 \<Rightarrow> bytes \<Rightarrow> u32) \<Rightarrow> nat \<Rightarrow> nat \<Rightarrow> bytes list \<Rightarrow> nat" where
  "complete_records ext off m [] = 0"
| "complete_records ext off m (r # rs) =
     (let (b, o1) = fragments ext off True r in
      if length b \<le> m then Suc (complete_records ext o1 (m - length b) rs) else 0)"

lemma log_bytes_Cons:
  "fst (log_bytes ext off (r # rs)) = fst (fragments ext off True r) @ fst (log_bytes ext (snd (fragments ext off True r)) rs)"
  "snd (log_bytes ext off (r # rs)) = snd (log_bytes ext (snd (fragments ext off True r)) rs)"
  by (simp_all add: case_prod_beta)

lemma log_bytes_append:
  "fst (log_bytes ext off (rs @ qs)) = fst (log_bytes ext off rs) @ fst (log_bytes ext (snd (log_bytes ext off rs)) qs)"
  "snd (log_bytes ext off (rs @ qs)) = snd (log_bytes ext (snd (log_bytes ext off rs)) qs)"
  by (induction rs arbitrary: off) (simp_all add: case_prod_beta)

lemma complete_records_all: "length (fst (log_bytes ext off rs)) \<le> m \<Longrightarrow> complete_records ext off m rs = length rs"
  by (induction rs arbitrary: off m) (auto simp: case_prod_beta)

lemma complete_records_append:
  "m < length (fst (log_bytes ext off rs)) \<Longrightarrow> complete_records ext off m (rs @ qs) = complete_records ext off m rs"
  by (induction rs arbitrary: off m) (auto simp: case_prod_beta)

lemma complete_records_le: "complete_records ext off m rs \<le> length rs"
  by (induction rs arbitrary: off m) (auto simp: case_prod_beta)

lemma length_record_positions [simp]: "length (record_positions ext pos off rs) = length rs"
  by (induction rs arbitrary: pos off) auto

text \<open>The count of complete records, and what reopening a log for appending relies on.\<close>

lemma complete_records_iff:
  "j \<le> length rs \<Longrightarrow> length (fst (log_bytes ext off (take j rs))) \<le> m \<longleftrightarrow> j \<le> complete_records ext off m rs"
proof (induction rs arbitrary: off m j)
  case (Cons r rs)
  show ?case
  proof (cases j)
    case (Suc i)
    let ?F = "fragments ext off True r"
    have "length (fst (log_bytes ext off (take j (r # rs)))) =
        length (fst ?F) + length (fst (log_bytes ext (snd ?F) (take i rs)))"
      by (simp add: Suc log_bytes_Cons del: log_bytes.simps)
    then show ?thesis
      using Cons.IH [of i "snd ?F" "m - length (fst ?F)"] Cons.prems Suc by (auto simp: case_prod_beta)
  qed simp
qed simp

lemma fragments_block_end: "fragments ext kBlockSize beg data = fragments ext 0 beg data"
  by (simp add: fragments.simps [of ext kBlockSize] fragments.simps [of ext 0] start_offset_def trailer_size_def)

lemma log_bytes_block_end: "rs \<noteq> [] \<Longrightarrow> log_bytes ext kBlockSize rs = log_bytes ext 0 rs"
  by (cases rs) (simp_all add: fragments_block_end)

lemma trailer_start: "off \<le> kBlockSize \<Longrightarrow> (off + trailer_size off) mod kBlockSize = start_offset off mod kBlockSize"
  by (auto simp: trailer_size_def start_offset_def)

lemma fragments_offset:
  assumes "off \<le> kBlockSize"
  shows "snd (fragments ext off beg data) \<le> kBlockSize \<and>
    snd (fragments ext off beg data) mod kBlockSize = (off + length (fst (fragments ext off beg data))) mod kBlockSize"
  using assms
proof (induction off beg data rule: fragments_induct)
  case (step off beg data)
  define n where "n = min (length data) (kBlockSize - start_offset off - 7)"
  define t where "t = fragment_type beg (n = length data)"
  note parts = fragments_parts [OF n_def t_def, of ext]
  have n: "min (length data) n = n" and fits: "start_offset off + 7 + n \<le> kBlockSize"
    using start_offset_le [of off] by (simp_all add: n_def)
  have pos: "(off + (trailer_size off + k)) mod kBlockSize = (start_offset off + k) mod kBlockSize" for k
    using trailer_start [OF step.prems] by (metis add.assoc mod_add_left_eq)
  show ?case
  proof (cases "n = length data")
    case True
    then show ?thesis using fits pos [of "7 + n"] by (simp add: parts frame_length add.assoc)
  next
    case False
    then show ?thesis
      using step.IH [OF n_def False fits] pos [of "7 + n + length (fst (fragments ext (start_offset off + 7 + n) False (drop n data)))"] n
      by (simp add: parts frame_length add.assoc)
  qed
qed

lemma log_bytes_offset:
  "off \<le> kBlockSize \<Longrightarrow> snd (log_bytes ext off rs) \<le> kBlockSize \<and>
    snd (log_bytes ext off rs) mod kBlockSize = (off + length (fst (log_bytes ext off rs))) mod kBlockSize"
proof (induction rs arbitrary: off)
  case (Cons r rs)
  let ?F = "fragments ext off True r"
  have F: "snd ?F \<le> kBlockSize" "snd ?F mod kBlockSize = (off + length (fst ?F)) mod kBlockSize"
    using fragments_offset [OF Cons.prems] by blast+
  then show ?case
    using Cons.IH [OF F(1)] F(2) unfolding log_bytes_Cons by (simp, metis add.assoc mod_add_left_eq)
qed simp

end
