(* ===== verification/Env.thy ===== *)
theory Env
  imports Status
begin

text \<open>
  \<^verbatim>\<open>include/env.h\<close> and \<^verbatim>\<open>util/env.cc\<close>: the file and environment interfaces.  An object of one of the abstract
  classes is the record of its virtual methods; each method transforms the state \<open>'s\<close> of the world it acts on.
  An output parameter is passed in with its old contents and returned with the new ones.
\<close>

record 's SequentialFile =
  SequentialFile_Read :: "nat \<Rightarrow> bytes \<Rightarrow> 's \<Rightarrow> Status \<times> bytes \<times> 's"
  SequentialFile_Skip :: "u64 \<Rightarrow> 's \<Rightarrow> Status \<times> 's"
  SequentialFile_delete :: "'s \<Rightarrow> 's"

record 's WritableFile =
  WritableFile_Append :: "bytes \<Rightarrow> 's \<Rightarrow> Status \<times> 's"
  WritableFile_Close :: "'s \<Rightarrow> Status \<times> 's"
  WritableFile_Flush :: "'s \<Rightarrow> Status \<times> 's"
  WritableFile_Sync :: "'s \<Rightarrow> Status \<times> 's"
  WritableFile_delete :: "'s \<Rightarrow> 's"

section \<open>Contracts of files\<close>

text \<open>
  What a client of a file may rely on while no error occurs: \<open>contents\<close> is what has been appended, whether or not
  it has been flushed; \<open>rest\<close> is what a sequential file has still to deliver, and a read that is not satisfied in
  full is the last one.
\<close>

locale append_file =
  fixes f :: "'s WritableFile" and contents :: "'s \<Rightarrow> bytes" and usable :: "'s \<Rightarrow> bool"
  assumes append: "usable s \<Longrightarrow> \<exists>s'. WritableFile_Append f data s = (OK, s') \<and> usable s' \<and> contents s' = contents s @ data"
    and flush: "usable s \<Longrightarrow> \<exists>s'. WritableFile_Flush f s = (OK, s') \<and> usable s' \<and> contents s' = contents s"
begin

lemma appendE:
  assumes "usable s"
  obtains s' where "WritableFile_Append f data s = (OK, s')" "usable s'" "contents s' = contents s @ data"
  using append [OF assms, of data] by blast

lemma flushE:
  assumes "usable s"
  obtains s' where "WritableFile_Flush f s = (OK, s')" "usable s'" "contents s' = contents s"
  using flush [OF assms] by blast

end

text \<open>A file that cannot deliver bytes forever.\<close>

locale finite_file =
  fixes f :: "'s SequentialFile" and rest :: "'s \<Rightarrow> bytes"
  assumes read_shrinks: "SequentialFile_Read f n old s = (OK, buf, s') \<Longrightarrow> length buf + length (rest s') \<le> length (rest s)"

locale sequential_file =
  fixes f :: "'s SequentialFile" and rest :: "'s \<Rightarrow> bytes" and ready :: "'s \<Rightarrow> bool"
  assumes read: "ready s \<Longrightarrow> \<exists>s'. SequentialFile_Read f n old s = (OK, take n (rest s), s') \<and>
      rest s' = drop n (rest s) \<and> (n \<le> length (rest s) \<longrightarrow> ready s')"
begin

lemma readE:
  assumes "ready s"
  obtains s' where "SequentialFile_Read f n old s = (OK, take n (rest s), s')" "rest s' = drop n (rest s)"
    "n \<le> length (rest s) \<longrightarrow> ready s'"
  using read [OF assms, of n old] by blast

end

end
