(* ===== verification/Log_writer.thy ===== *)
theory Log_writer
  imports Log_format Env
begin

text \<open>
  \<^verbatim>\<open>db/log_writer.h\<close> and \<^verbatim>\<open>db/log_writer.cc\<close>.  The checksum function \<^verbatim>\<open>crc32c::Extend\<close> is the argument \<open>ext\<close> and the
  file behind \<^verbatim>\<open>dest_\<close> the argument \<open>dest\<close>; \<open>s\<close> is the state of the world the file lives in.  \<open>None\<close> is a failed
  assertion.
\<close>

record Writer =
  block_offset :: int
  type_crc :: "u32 list"

definition InitTypeCrc :: "(u32 \<Rightarrow> bytes \<Rightarrow> u32) \<Rightarrow> u32 list" where
  "InitTypeCrc ext = map (\<lambda>i. ext 0 [of_nat i]) [0..<Suc kMaxRecordType]"

definition Writer_new :: "(u32 \<Rightarrow> bytes \<Rightarrow> u32) \<Rightarrow> Writer" where
  "Writer_new ext = \<lparr>block_offset = 0, type_crc = InitTypeCrc ext\<rparr>"

definition Writer_new_at :: "(u32 \<Rightarrow> bytes \<Rightarrow> u32) \<Rightarrow> u64 \<Rightarrow> Writer" where
  "Writer_new_at ext dest_length = \<lparr>block_offset = uint (dest_length mod of_nat kBlockSize), type_crc = InitTypeCrc ext\<rparr>"

definition EmitPhysicalRecord ::
    "(u32 \<Rightarrow> bytes \<Rightarrow> u32) \<Rightarrow> 's WritableFile \<Rightarrow> RecordType \<Rightarrow> bytes \<Rightarrow> Writer \<Rightarrow> 's \<Rightarrow> (Status \<times> Writer \<times> 's) option" where
  "EmitPhysicalRecord ext dest t payload w s =
     (let len = length payload in
      if len \<le> 0xffff \<and> block_offset w + int kHeaderSize + int len \<le> int kBlockSize then
        let crc = Mask (ext (type_crc w ! type_value t) payload);
            buf = EncodeFixed32 crc @ [of_nat (len mod 256), of_nat (len div 256), of_nat (type_value t)];
            (st, s) = WritableFile_Append dest buf s;
            (st, s) =
              (if status_ok st then
                 let (st, s) = WritableFile_Append dest payload s
                 in if status_ok st then WritableFile_Flush dest s else (st, s)
               else (st, s))
        in Some (st, w\<lparr>block_offset := block_offset w + int kHeaderSize + int len\<rparr>, s)
      else None)"

text \<open>The trailer: what is left of the block is filled with zeros; the status of that write is ignored.\<close>

definition switch_block :: "'s WritableFile \<Rightarrow> Writer \<Rightarrow> 's \<Rightarrow> Writer \<times> 's" where
  "switch_block dest w s =
     (let leftover = int kBlockSize - block_offset w in
      if leftover < int kHeaderSize then
        (w\<lparr>block_offset := 0\<rparr>,
         if leftover > 0 then snd (WritableFile_Append dest (replicate (nat leftover) 0) s) else s)
      else (w, s))"

lemma EmitPhysicalRecord_offset:
  "EmitPhysicalRecord ext dest t p w s = Some (st, w', s') \<Longrightarrow>
   block_offset w' = block_offset w + 7 + int (length p) \<and> type_crc w' = type_crc w"
  by (auto simp: EmitPhysicalRecord_def Let_def split: if_splits prod.splits)

function AddRecord_loop ::
    "(u32 \<Rightarrow> bytes \<Rightarrow> u32) \<Rightarrow> 's WritableFile \<Rightarrow> bool \<Rightarrow> bytes \<Rightarrow> Writer \<Rightarrow> 's \<Rightarrow> (Status \<times> Writer \<times> 's) option" where
  "AddRecord_loop ext dest beg data w s =
     (if int kBlockSize - block_offset w < 0 then None
      else
        let (w1, s1) = switch_block dest w s in
        if int kBlockSize - block_offset w1 - int kHeaderSize < 0 then None
        else
          let avail = nat (int kBlockSize - block_offset w1 - int kHeaderSize);
              fragment_length = (if length data < avail then length data else avail);
              fin = (length data = fragment_length)
          in case EmitPhysicalRecord ext dest (fragment_type beg fin) (take fragment_length data) w1 s1 of
               None \<Rightarrow> None
             | Some (st, w2, s2) \<Rightarrow>
                 if status_ok st \<and> 0 < length data - fragment_length
                 then AddRecord_loop ext dest False (drop fragment_length data) w2 s2
                 else Some (st, w2, s2))"
  by pat_completeness auto
termination
  by (relation "measure (\<lambda>(ext, dest, beg, data, w, s).
      2 * length data + (if block_offset w + 7 = int kBlockSize then 1 else 0))")
    (auto simp: switch_block_def Let_def min_def kBlockSize_def split: if_splits dest!: EmitPhysicalRecord_offset)

declare AddRecord_loop.simps [simp del]

definition AddRecord ::
    "(u32 \<Rightarrow> bytes \<Rightarrow> u32) \<Rightarrow> 's WritableFile \<Rightarrow> bytes \<Rightarrow> Writer \<Rightarrow> 's \<Rightarrow> (Status \<times> Writer \<times> 's) option" where
  "AddRecord ext dest data w s = AddRecord_loop ext dest True data w s"

section \<open>What the writer writes\<close>

definition writer_ok :: "(u32 \<Rightarrow> bytes \<Rightarrow> u32) \<Rightarrow> Writer \<Rightarrow> bool" where
  [inv_simps]: "writer_ok ext w \<longleftrightarrow> 0 \<le> block_offset w \<and> block_offset w \<le> int kBlockSize \<and> type_crc w = InitTypeCrc ext"

lemma InitTypeCrc_nth: "InitTypeCrc ext ! type_value t = ext 0 [of_nat (type_value t)]"
  using type_value_le [of t] by (simp add: InitTypeCrc_def kMaxRecordType_def nth_append del: upt_Suc)

lemma writer_ok_new [simp]: "writer_ok ext (Writer_new ext)"
  by (simp add: writer_ok_def Writer_new_def)

lemma writer_ok_new_at: "writer_ok ext (Writer_new_at ext len) \<and>
    block_offset (Writer_new_at ext len) = int (unat len mod kBlockSize)"
proof -
  have "uint (len mod of_nat kBlockSize) = uint len mod 32768"
    by (simp add: kBlockSize_def uint_mod)
  then show ?thesis by (simp add: writer_ok_def Writer_new_at_def kBlockSize_def zmod_int)
qed

text \<open>The writer keeps its offset within the block, whatever the file does, and no assertion fails.\<close>

lemma switch_block_ok:
  "writer_ok ext w \<Longrightarrow> writer_ok ext (fst (switch_block dest w s)) \<and>
    block_offset (fst (switch_block dest w s)) = int (start_offset (nat (block_offset w)))"
  by (auto simp: switch_block_def writer_ok_def Let_def start_offset_def nat_diff_distrib kBlockSize_def)

lemma EmitPhysicalRecord_ok:
  assumes "writer_ok ext w" "block_offset w + 7 + int (length p) \<le> int kBlockSize"
  shows "\<exists>st w' s'. EmitPhysicalRecord ext dest t p w s = Some (st, w', s') \<and> writer_ok ext w'"
proof -
  have "length p \<le> 0xffff" using assms by (simp add: writer_ok_def kBlockSize_def)
  then obtain st w' s' where e: "EmitPhysicalRecord ext dest t p w s = Some (st, w', s')"
    using assms(2) by (cases "EmitPhysicalRecord ext dest t p w s")
      (auto simp: EmitPhysicalRecord_def Let_def split: prod.splits if_splits)
  with EmitPhysicalRecord_offset [OF e] assms show ?thesis by (auto simp: writer_ok_def)
qed

lemma AddRecord_step:
  assumes "writer_ok ext w" "switch_block dest w s = (w1, s1)"
    and "n = min (length data) (kBlockSize - start_offset (nat (block_offset w)) - 7)"
  shows "AddRecord_loop ext dest beg data w s =
      (case EmitPhysicalRecord ext dest (fragment_type beg (n = length data)) (take n data) w1 s1 of
         None \<Rightarrow> None
       | Some (st, w2, s2) \<Rightarrow>
           if status_ok st \<and> 0 < length data - n then AddRecord_loop ext dest False (drop n data) w2 s2
           else Some (st, w2, s2))"
proof -
  have w1: "block_offset w1 = int (start_offset (nat (block_offset w)))"
    using switch_block_ok [OF assms(1), of dest s] assms(2) by simp
  then have "nat (int kBlockSize - block_offset w1 - 7) = kBlockSize - start_offset (nat (block_offset w)) - 7"
    by simp
  moreover have "block_offset w1 + 7 \<le> int kBlockSize"
    using w1 start_offset_le [of "nat (block_offset w)"] by simp
  moreover have "(length data = (if length data < a then length data else a)) = (min (length data) a = length data)"
    "(if length data < a then length data else a) = min (length data) a" for a
    by auto
  ultimately show ?thesis
    unfolding assms(3) using assms(1,2) by (subst AddRecord_loop.simps) (simp add: Let_def writer_ok_def cong del: option.case_cong_weak if_weak_cong)
qed

lemma step_fits:
  assumes "writer_ok ext w" "switch_block dest w s = (w1, s1)"
    and "n = min (length data) (kBlockSize - start_offset (nat (block_offset w)) - 7)"
  shows "writer_ok ext w1" "block_offset w1 + 7 + int (length (take n data)) \<le> int kBlockSize"
  using switch_block_ok [OF assms(1), of dest s] start_offset_le [of "nat (block_offset w)"] assms(2,3) by auto

lemma AddRecord_loop_ok:
  assumes "writer_ok ext w"
  shows "\<exists>st w' s'. AddRecord_loop ext dest beg data w s = Some (st, w', s') \<and> writer_ok ext w'"
  using assms
proof (induction "nat (block_offset w)" beg data arbitrary: w s rule: fragments_induct)
  case (step beg data)
  obtain w1 s1 where sw: "switch_block dest w s = (w1, s1)" by (cases "switch_block dest w s") auto
  define n where "n = min (length data) (kBlockSize - start_offset (nat (block_offset w)) - 7)"
  note fits = step_fits [OF step.prems sw n_def]
  obtain st w2 s2 where e: "EmitPhysicalRecord ext dest (fragment_type beg (n = length data)) (take n data) w1 s1 =
      Some (st, w2, s2)" and w2: "writer_ok ext w2"
    using EmitPhysicalRecord_ok [OF fits, of dest "fragment_type beg (n = length data)" s1] by blast
  have "nat (block_offset w2) = start_offset (nat (block_offset w)) + 7 + n"
    using EmitPhysicalRecord_offset [OF e] switch_block_ok [OF step.prems, of dest s] sw by (simp add: n_def nat_add_distrib)
  from step.hyps [OF n_def _ this [symmetric] w2] show ?case
    using w2 by (auto simp: AddRecord_step [OF step.prems sw n_def] e)
qed

text \<open>On a file without errors the bytes appended are those of the format.\<close>

locale log_writing = checksum ext + append_file dest contents usable
  for ext :: "u32 \<Rightarrow> bytes \<Rightarrow> u32" and dest :: "'s WritableFile" and contents :: "'s \<Rightarrow> bytes" and usable :: "'s \<Rightarrow> bool"
begin

lemma switch_block_contents:
  assumes "writer_ok ext w" "usable s"
  obtains w1 s1 where "switch_block dest w s = (w1, s1)" "usable s1" "writer_ok ext w1"
    "contents s1 = contents s @ replicate (trailer_size (nat (block_offset w))) 0"
    "block_offset w1 = int (start_offset (nat (block_offset w)))"
proof -
  let ?k = "nat (int kBlockSize - block_offset w)"
  obtain s' where s': "WritableFile_Append dest (replicate ?k 0) s = (OK, s')" "usable s'"
    "contents s' = contents s @ replicate ?k 0"
    by (rule appendE [OF assms(2)])
  have k: "?k = kBlockSize - nat (block_offset w)" using assms(1) by (auto simp: writer_ok_def nat_diff_distrib)
  obtain w1 s1 where sw: "switch_block dest w s = (w1, s1)" by (cases "switch_block dest w s") auto
  have "usable s1 \<and> contents s1 = contents s @ replicate (trailer_size (nat (block_offset w))) 0"
  proof (cases "?k < 7 \<and> 0 < ?k")
    case True
    then have "s1 = s'" using sw s'(1) by (auto simp: switch_block_def Let_def split: if_splits)
    then show ?thesis using s' True k by (simp add: trailer_size_def)
  next
    case False
    then have "s1 = s" "trailer_size (nat (block_offset w)) = 0"
      using sw k assms(1) by (auto simp: switch_block_def trailer_size_def Let_def writer_ok_def split: if_splits)
    then show ?thesis using assms(2) by simp
  qed
  then show ?thesis using that [OF sw] switch_block_ok [OF assms(1), of dest s] sw by simp
qed

lemma EmitPhysicalRecord_contents:
  assumes "writer_ok ext w" "usable s" "block_offset w + 7 + int (length p) \<le> int kBlockSize"
  obtains w' s' where "EmitPhysicalRecord ext dest t p w s = Some (OK, w', s')" "usable s'" "writer_ok ext w'"
    "contents s' = contents s @ frame ext t p"
proof -
  let ?h = "EncodeFixed32 (Mask (ext (type_crc w ! type_value t) p)) @
      [of_nat (length p mod 256), of_nat (length p div 256), of_nat (type_value t)]"
  obtain s1 where s1: "WritableFile_Append dest ?h s = (OK, s1)" "usable s1" "contents s1 = contents s @ ?h"
    by (rule appendE [OF assms(2)])
  obtain s2 where s2: "WritableFile_Append dest p s1 = (OK, s2)" "usable s2" "contents s2 = contents s1 @ p"
    by (rule appendE [OF s1(2)])
  obtain s3 where s3: "WritableFile_Flush dest s2 = (OK, s3)" "usable s3" "contents s3 = contents s2"
    by (rule flushE [OF s2(2)])
  have "length p \<le> 0xffff" using assms(1,3) by (simp add: writer_ok_def kBlockSize_def)
  then have e: "EmitPhysicalRecord ext dest t p w s =
      Some (OK, w\<lparr>block_offset := block_offset w + 7 + int (length p)\<rparr>, s3)"
    using assms(3) s1(1) s2(1) s3(1) by (simp add: EmitPhysicalRecord_def status_ok_def OK_def)
  have "contents s3 = contents s @ frame ext t p"
    using assms(1) s1(3) s2(3) s3(3) ext_append by (simp add: frame_def raw_frame_def writer_ok_def InitTypeCrc_nth)
  then show ?thesis using that [OF e] s3(2) assms(1,3) by (simp add: writer_ok_def)
qed

lemma AddRecord_loop_contents:
  assumes "writer_ok ext w" "usable s"
  shows "\<exists>w' s'. AddRecord_loop ext dest beg data w s = Some (OK, w', s') \<and> writer_ok ext w' \<and> usable s' \<and>
      contents s' = contents s @ fst (fragments ext (nat (block_offset w)) beg data) \<and>
      nat (block_offset w') = snd (fragments ext (nat (block_offset w)) beg data)"
  using assms
proof (induction "nat (block_offset w)" beg data arbitrary: w s rule: fragments_induct)
  case (step beg data)
  obtain w1 s1 where sw: "switch_block dest w s = (w1, s1)" "usable s1" "writer_ok ext w1"
    "contents s1 = contents s @ replicate (trailer_size (nat (block_offset w))) 0"
    "block_offset w1 = int (start_offset (nat (block_offset w)))"
    by (rule switch_block_contents [OF step.prems])
  define n where "n = min (length data) (kBlockSize - start_offset (nat (block_offset w)) - 7)"
  define t where "t = fragment_type beg (n = length data)"
  obtain w2 s2 where e: "EmitPhysicalRecord ext dest t (take n data) w1 s1 = Some (OK, w2, s2)" "usable s2"
    "writer_ok ext w2" "contents s2 = contents s1 @ frame ext t (take n data)"
    by (rule EmitPhysicalRecord_contents [OF sw(3,2) step_fits(2) [OF step.prems(1) sw(1) n_def]])
  have off: "nat (block_offset w2) = start_offset (nat (block_offset w)) + 7 + n"
    using EmitPhysicalRecord_offset [OF e(1)] sw(5) by (simp add: n_def nat_add_distrib)
  note unf = AddRecord_step [OF step.prems(1) sw(1) n_def, of beg, folded t_def] e(1)
    fragments.simps [of ext "nat (block_offset w)" beg data, unfolded Let_def kHeaderSize_7, folded n_def, folded t_def]
  show ?case
  proof (cases "n = length data")
    case True
    then show ?thesis using e sw off by (simp add: unf status_ok_def OK_def)
  next
    case False
    then have "0 < length data - n" by (simp add: n_def min_def split: if_splits)
    then show ?thesis
      using False step.hyps [OF n_def False off [symmetric] e(3,2)] e(4) sw(4) off
      by (auto simp: unf status_ok_def OK_def split: prod.splits)
  qed
qed

lemmas AddRecord_contents = AddRecord_loop_contents [where beg = True, folded AddRecord_def]

end

end
