(* ===== verification/Log_reader.thy ===== *)
theory Log_reader
  imports Log_format Env
begin

text \<open>
  \<^verbatim>\<open>db/log_reader.h\<close> and \<^verbatim>\<open>db/log_reader.cc\<close>.  As in the writer the checksum \<open>ext\<close> and the file \<open>src\<close> are arguments and
  \<open>s\<close> is the state of the world.  The calls of the reporter are kept as the list \<open>reports\<close>; offsets are 64-bit words
  and wrap.  \<open>buffer\<close> is the part of the current block that has not been consumed; slices that point into
  it are copied.
\<close>

record Reader =
  has_reporter :: bool
  reports :: "(u64 \<times> Status) list"
  checksum_on :: bool
  buffer :: bytes
  eof :: bool
  last_record_offset :: u64
  end_of_buffer_offset :: u64
  initial_offset :: u64
  resyncing :: bool

definition kEof :: u32 where
  "kEof = of_nat (kMaxRecordType + 1)"

definition kBadRecord :: u32 where
  "kBadRecord = of_nat (kMaxRecordType + 2)"

definition Reader_new :: "bool \<Rightarrow> bool \<Rightarrow> u64 \<Rightarrow> Reader" where
  "Reader_new reporter check off =
     \<lparr>has_reporter = reporter, reports = [], checksum_on = check, buffer = [], eof = False, last_record_offset = 0,
      end_of_buffer_offset = 0, initial_offset = off, resyncing = off > 0\<rparr>"

definition ReportDrop :: "u64 \<Rightarrow> Status \<Rightarrow> Reader \<Rightarrow> Reader" where
  "ReportDrop n reason r =
     (if has_reporter r \<and> initial_offset r \<le> end_of_buffer_offset r - of_nat (length (buffer r)) - n
      then r\<lparr>reports := reports r @ [(n, reason)]\<rparr> else r)"

definition ReportCorruption :: "u64 \<Rightarrow> string \<Rightarrow> Reader \<Rightarrow> Reader" where
  "ReportCorruption n reason r = ReportDrop n (Corruption (ascii reason) []) r"

definition SkipToInitialBlock :: "'s SequentialFile \<Rightarrow> Reader \<Rightarrow> 's \<Rightarrow> bool \<times> Reader \<times> 's" where
  "SkipToInitialBlock src r s =
     (let offset_in_block = initial_offset r mod of_nat kBlockSize;
          block_start_location = initial_offset r - offset_in_block;
          block_start_location =
            (if offset_in_block > of_nat (kBlockSize - 6) then block_start_location + of_nat kBlockSize
             else block_start_location);
          r = r\<lparr>end_of_buffer_offset := block_start_location\<rparr>
      in if block_start_location > 0 then
           let (skip_status, s) = SequentialFile_Skip src block_start_location s in
           if \<not> status_ok skip_status then (False, ReportDrop block_start_location skip_status r, s) else (True, r, s)
         else (True, r, s))"

text \<open>The part of \<^verbatim>\<open>ReadPhysicalRecord\<close> after a header is known to be in the buffer.\<close>

definition parse_record :: "(u32 \<Rightarrow> bytes \<Rightarrow> u32) \<Rightarrow> bytes \<Rightarrow> Reader \<Rightarrow> u32 \<times> bytes \<times> Reader" where
  "parse_record ext result r =
     (let header = buffer r;
          a = ucast (header ! 4) AND (0xff :: u32);
          b = ucast (header ! 5) AND (0xff :: u32);
          type = (scast (header ! 6) :: u32);
          len = a OR push_bit 8 b
      in if kHeaderSize + unat len > length (buffer r) then
           let drop_size = of_nat (length (buffer r)); r = r\<lparr>buffer := []\<rparr> in
           if \<not> eof r then (kBadRecord, result, ReportCorruption drop_size ''bad record length'' r)
           else (kEof, result, r)
         else if type = of_nat (type_value kZeroType) \<and> len = 0 then (kBadRecord, result, r\<lparr>buffer := []\<rparr>)
         else if checksum_on r \<and> ext 0 (take (1 + unat len) (drop 6 header)) \<noteq> Unmask (DecodeFixed32 header) then
           let drop_size = of_nat (length (buffer r)); r = r\<lparr>buffer := []\<rparr> in
           (kBadRecord, result, ReportCorruption drop_size ''checksum mismatch'' r)
         else
           let r = r\<lparr>buffer := drop (kHeaderSize + unat len) (buffer r)\<rparr> in
           if end_of_buffer_offset r - of_nat (length (buffer r)) - of_nat kHeaderSize - ucast len < initial_offset r
           then (kBadRecord, [], r)
           else (type, take (unat len) (drop kHeaderSize header), r))"

function ReadPhysicalRecord ::
    "(u32 \<Rightarrow> bytes \<Rightarrow> u32) \<Rightarrow> 's SequentialFile \<Rightarrow> bytes \<Rightarrow> Reader \<Rightarrow> 's \<Rightarrow> u32 \<times> bytes \<times> Reader \<times> 's" where
  "ReadPhysicalRecord ext src result r s =
     (if length (buffer r) < kHeaderSize then
        if \<not> eof r then
          let (status, buf, s1) = SequentialFile_Read src kBlockSize [] s;
              r1 = r\<lparr>buffer := buf, end_of_buffer_offset := end_of_buffer_offset r + of_nat (length buf)\<rparr>
          in if \<not> status_ok status then
               (kEof, result, (ReportDrop (of_nat kBlockSize) status (r1\<lparr>buffer := []\<rparr>))\<lparr>eof := True\<rparr>, s1)
             else ReadPhysicalRecord ext src result (if length buf < kBlockSize then r1\<lparr>eof := True\<rparr> else r1) s1
        else (kEof, result, r\<lparr>buffer := []\<rparr>, s)
      else let (type, result, r) = parse_record ext result r in (type, result, r, s))"
  by pat_completeness auto
termination
  by (relation "measure (\<lambda>(ext, src, result, r, s). if length (buffer r) < 7 \<and> \<not> eof r then 1 else 0)")
    (auto simp: kBlockSize_def)

declare ReadPhysicalRecord.simps [simp del]

section \<open>Assembling fragments\<close>

record Assembly =
  scratch :: bytes
  record_out :: bytes
  in_fragmented_record :: bool
  prospective_record_offset :: u64

text \<open>The \<^verbatim>\<open>switch\<close> of \<^verbatim>\<open>ReadRecord\<close>: \<open>Some b\<close> where the function returns \<open>b\<close>, \<open>None\<close> where the loop goes on.\<close>

definition report_partial :: "Assembly \<Rightarrow> string \<Rightarrow> Reader \<Rightarrow> Reader" where
  "report_partial a reason r =
     (if in_fragmented_record a \<and> scratch a \<noteq> [] then ReportCorruption (of_nat (length (scratch a))) reason r else r)"

definition assemble :: "u32 \<Rightarrow> bytes \<Rightarrow> u64 \<Rightarrow> Assembly \<Rightarrow> Reader \<Rightarrow> bool option \<times> Assembly \<times> Reader" where
  "assemble type fragment physical_record_offset a r =
     (if type = of_nat (type_value kFullType) then
        (Some True,
         a\<lparr>prospective_record_offset := physical_record_offset, scratch := [], record_out := fragment\<rparr>,
         (report_partial a ''partial record without end(1)'' r)\<lparr>last_record_offset := physical_record_offset\<rparr>)
      else if type = of_nat (type_value kFirstType) then
        (None,
         a\<lparr>prospective_record_offset := physical_record_offset, scratch := fragment, in_fragmented_record := True\<rparr>,
         report_partial a ''partial record without end(2)'' r)
      else if type = of_nat (type_value kMiddleType) then
        if \<not> in_fragmented_record a then
          (None, a, ReportCorruption (of_nat (length fragment)) ''missing start of fragmented record(1)'' r)
        else (None, a\<lparr>scratch := scratch a @ fragment\<rparr>, r)
      else if type = of_nat (type_value kLastType) then
        if \<not> in_fragmented_record a then
          (None, a, ReportCorruption (of_nat (length fragment)) ''missing start of fragmented record(2)'' r)
        else
          (Some True, a\<lparr>scratch := scratch a @ fragment, record_out := scratch a @ fragment\<rparr>,
           r\<lparr>last_record_offset := prospective_record_offset a\<rparr>)
      else if type = kEof then
        (Some False, if in_fragmented_record a then a\<lparr>scratch := []\<rparr> else a, r)
      else if type = kBadRecord then
        if in_fragmented_record a then
          (None, a\<lparr>in_fragmented_record := False, scratch := []\<rparr>,
           ReportCorruption (of_nat (length (scratch a))) ''error in middle of record'' r)
        else (None, a, r)
      else
        (None, a\<lparr>in_fragmented_record := False, scratch := []\<rparr>,
         ReportDrop (of_nat (length fragment + (if in_fragmented_record a then length (scratch a) else 0)))
           (Corruption (ascii ''unknown record type '' @ decimal (unat type)) []) r))"

text \<open>The fragments that are passed over while the reader looks for the first whole record.\<close>

definition resync :: "u32 \<Rightarrow> Reader \<Rightarrow> bool \<times> Reader" where
  "resync type r =
     (if resyncing r then
        if type = of_nat (type_value kMiddleType) then (True, r)
        else if type = of_nat (type_value kLastType) then (True, r\<lparr>resyncing := False\<rparr>)
        else (False, r\<lparr>resyncing := False\<rparr>)
      else (False, r))"

partial_function (option) ReadRecord_loop ::
    "(u32 \<Rightarrow> bytes \<Rightarrow> u32) \<Rightarrow> 's SequentialFile \<Rightarrow> bytes \<Rightarrow> Assembly \<Rightarrow> Reader \<Rightarrow> 's \<Rightarrow>
     (bool \<times> Assembly \<times> Reader \<times> 's) option" where
  "ReadRecord_loop ext src fragment a r s =
     (let (type, fragment, r, s) = ReadPhysicalRecord ext src fragment r s;
          physical_record_offset =
            end_of_buffer_offset r - of_nat (length (buffer r)) - of_nat kHeaderSize - of_nat (length fragment);
          (skip, r) = resync type r
      in if skip then ReadRecord_loop ext src fragment a r s
         else
           let (ret, a, r) = assemble type fragment physical_record_offset a r in
           if ret = None then ReadRecord_loop ext src fragment a r s else Some (the ret, a, r, s))"

definition ReadRecord ::
    "(u32 \<Rightarrow> bytes \<Rightarrow> u32) \<Rightarrow> 's SequentialFile \<Rightarrow> bytes \<Rightarrow> bytes \<Rightarrow> Reader \<Rightarrow> 's \<Rightarrow>
     (bool \<times> bytes \<times> bytes \<times> Reader \<times> 's) option" where
  "ReadRecord ext src rec scr r s =
     (let (ok, r, s) =
        (if last_record_offset r < initial_offset r then SkipToInitialBlock src r s else (True, r, s))
      in if \<not> ok then Some (False, rec, scr, r, s)
         else
           map_option (\<lambda>(ret, a, r, s). (ret, record_out a, scratch a, r, s))
             (ReadRecord_loop ext src []
               \<lparr>scratch = [], record_out = [], in_fragmented_record = False, prospective_record_offset = 0\<rparr> r s))"

definition LastRecordOffset :: "Reader \<Rightarrow> u64" where
  "LastRecordOffset r = last_record_offset r"

text \<open>A client that reads until there is nothing left: the records with their offsets.\<close>

partial_function (option) read_all ::
    "(u32 \<Rightarrow> bytes \<Rightarrow> u32) \<Rightarrow> 's SequentialFile \<Rightarrow> Reader \<Rightarrow> 's \<Rightarrow> ((u64 \<times> bytes) list \<times> Reader \<times> 's) option" where
  "read_all ext src r s =
     Option.bind (ReadRecord ext src [] [] r s) (\<lambda>(ok, rec, scr, r, s).
       if ok then Option.bind (read_all ext src r s) (\<lambda>(recs, r', s'). Some ((LastRecordOffset r, rec) # recs, r', s'))
       else Some ([], r, s))"

end
