(* ===== verification/Log_reader_facts.thy ===== *)
theory Log_reader_facts
  imports Log_reader
begin

text \<open>
  What the log reader does on the files of the format: the position of the reader in a block, one lemma for a fragment
  that is there in full and one for a fragment the file ends in, whole records, and a client that reads everything.
  The last two sections hold for any file: the reader returns, and with checksums on every fragment it delivers
  has a valid one.
\<close>

section \<open>Parsing a fragment\<close>

lemma length_field:
  assumes "n < 65536"
  shows "(ucast (of_nat (n mod 256) :: u8) AND 0xff) OR push_bit 8 (ucast (of_nat (n div 256) :: u8) AND 0xff) = (of_nat n :: u32)"
proof -
  have mod: "n mod 256 = take_bit 8 n" by (simp add: take_bit_eq_mod)
  have div: "n div 256 = drop_bit 8 n" by (simp add: drop_bit_eq_div)
  have "i < 16" if "bit n i" for i
  proof -
    have "n = take_bit 16 n" using assms by (simp add: take_bit_nat_eq_self)
    then show ?thesis using that by (metis bit_take_bit_iff)
  qed
  then have "i - 8 < 8" if "bit n i" for i using that by fastforce
  then show ?thesis
    unfolding mod div and_255 by (intro bit_word_eqI) (auto simp: bit_simps)
qed

lemma scast_type: "scast (of_nat (type_value t) :: u8) = (of_nat (type_value t) :: u32)"
  by (cases t) simp_all

text \<open>The header fields of a fragment, wherever it is followed by other bytes.\<close>

lemma frame_fields:
  "(raw_frame ext tb p @ b) ! 4 = of_nat (length p mod 256)" "(raw_frame ext tb p @ b) ! 5 = of_nat (length p div 256)"
  "(raw_frame ext tb p @ b) ! 6 = tb"
  "drop 6 (raw_frame ext tb p @ b) = tb # p @ b" "drop 7 (raw_frame ext tb p @ b) = p @ b"
  "drop (7 + length p) (raw_frame ext tb p @ b) = b"
  "DecodeFixed32 (raw_frame ext tb p @ b) = Mask (ext 0 (tb # p))"
proof -
  show "drop (7 + length p) (raw_frame ext tb p @ b) = b" by (simp add: raw_frame_length)
qed (simp_all add: raw_frame_def, simp_all add: EncodeFixed32_def)

lemma parse_raw_frame:
  assumes "buffer r = raw_frame ext tb p @ b" "length p < 65536" "scast tb \<noteq> (0 :: u32)" "initial_offset r = 0"
  shows "parse_record ext result r = (scast tb, p, r\<lparr>buffer := b\<rparr>)"
proof -
  have len: "unat (of_nat (length p) :: u32) = length p" using assms(2) by (simp add: unat_of_nat)
  show ?thesis
    unfolding parse_record_def Let_def assms(1) frame_fields length_field [OF assms(2)] len kHeaderSize_7
    using assms(3) by (simp add: assms(4) raw_frame_length mask_inverse)
qed

lemma parse_frame:
  assumes "buffer r = frame ext t p @ b" "length p < 65536" "t \<noteq> kZeroType" "initial_offset r = 0"
  shows "parse_record ext result r = (of_nat (type_value t), p, r\<lparr>buffer := b\<rparr>)"
proof -
  have nz: "of_nat (type_value t) \<noteq> (0 :: u32)" using assms(3) by (cases t) simp_all
  show ?thesis
    using parse_raw_frame [OF assms(1) [unfolded frame_def] assms(2) _ assms(4), of result] nz by (simp add: scast_type)
qed

lemma parse_short:
  assumes "buffer r = take m (frame ext t p)" "7 \<le> m" "m < 7 + length p" "length p < 65536" "eof r"
  shows "parse_record ext result r = (kEof, result, r\<lparr>buffer := []\<rparr>)"
proof -
  have f: "take m (frame ext t p) ! 4 = of_nat (length p mod 256)" "take m (frame ext t p) ! 5 = of_nat (length p div 256)"
    using assms(2) frame_fields(1,2) [of ext "of_nat (type_value t)" p "[]"] by (simp_all add: frame_def)
  have len: "unat (of_nat (length p) :: u32) = length p" using assms(4) by (simp add: unat_of_nat)
  show ?thesis
    unfolding parse_record_def Let_def assms(1) f length_field [OF assms(4)] len kHeaderSize_7
    using assms(3,5) by (simp add: frame_length)
qed

section \<open>Reading a well-formed stream\<close>

text \<open>
  \<open>positioned off r tail rdy\<close>: the reader stands at offset \<open>off\<close> of a block.  Its buffer reaches to the end of the block
  or, after a short read, to the end of the file.  The bytes ahead of it are \<open>buffer r @ tail\<close>, at file position
  \<open>file_pos r\<close>.
\<close>

definition positioned :: "nat \<Rightarrow> Reader \<Rightarrow> bytes \<Rightarrow> bool \<Rightarrow> bool" where
  "positioned off r tail rdy \<longleftrightarrow> off \<le> kBlockSize \<and> initial_offset r = 0 \<and> \<not> resyncing r \<and>
     (if eof r then tail = [] \<and> off + length (buffer r) < kBlockSize else rdy \<and> off + length (buffer r) = kBlockSize)"

definition file_pos :: "Reader \<Rightarrow> u64" where
  "file_pos r = end_of_buffer_offset r - of_nat (length (buffer r))"

definition moved :: "Reader \<Rightarrow> Reader \<Rightarrow> bool" where
  "moved r r' \<longleftrightarrow> r' = r\<lparr>buffer := buffer r', eof := eof r', end_of_buffer_offset := end_of_buffer_offset r'\<rparr>"

lemma moved_refl [simp]: "moved r r"
  by (simp add: moved_def)

lemma moved_trans: "moved r r1 \<Longrightarrow> moved r1 r2 \<Longrightarrow> moved r r2"
  unfolding moved_def by (cases r; cases r1; cases r2) simp

lemma moved_buffer [simp]: "moved r (r\<lparr>buffer := b\<rparr>)"
  by (simp add: moved_def)

lemma positioned_last [simp]: "positioned off (r\<lparr>last_record_offset := l\<rparr>) = positioned off r"
  by (simp add: positioned_def fun_eq_iff)

lemma positioned_resync: "positioned off r tail rdy \<Longrightarrow> \<not> resyncing r"
  by (simp add: positioned_def)

lemma file_pos_last [simp]: "file_pos (r\<lparr>last_record_offset := l\<rparr>) = file_pos r"
  by (simp add: file_pos_def)

lemma moved_last: "moved r r' \<Longrightarrow> moved (r\<lparr>last_record_offset := l\<rparr>) (r'\<lparr>last_record_offset := l\<rparr>)"
  unfolding moved_def by (cases r; cases r') simp

lemma moved_fields:
  assumes "moved r r'"
  shows "reports r' = reports r" "has_reporter r' = has_reporter r" "checksum_on r' = checksum_on r"
    "last_record_offset r' = last_record_offset r" "initial_offset r' = initial_offset r" "resyncing r' = resyncing r"
  using assms by (subst assms [unfolded moved_def], simp)+

lemma kEof_not_type: "of_nat (type_value t) \<noteq> kEof" "of_nat (type_value t) \<noteq> kBadRecord" "kBadRecord \<noteq> kEof"
  by (cases t; simp add: kEof_def kBadRecord_def kMaxRecordType_def)+

lemma Read_buffered: "7 \<le> length (buffer r) \<Longrightarrow>
    ReadPhysicalRecord ext src result r s = (let (t, result, r) = parse_record ext result r in (t, result, r, s))"
  by (subst ReadPhysicalRecord.simps) simp

lemma Read_at_eof: "length (buffer r) < 7 \<Longrightarrow> eof r \<Longrightarrow>
    ReadPhysicalRecord ext src result r s = (kEof, result, r\<lparr>buffer := []\<rparr>, s)"
  by (subst ReadPhysicalRecord.simps) simp

lemma loop_eof:
  assumes "ReadPhysicalRecord ext src fr r s = (kEof, fr', r', s')" "\<not> resyncing r'"
  shows "\<exists>a'. ReadRecord_loop ext src fr a r s = Some (False, a', r', s')"
  using assms by (subst ReadRecord_loop.simps) (simp add: resync_def assemble_def kEof_def kMaxRecordType_def)

text \<open>A first or middle fragment of a record with more to come.\<close>

definition continued :: "bool \<Rightarrow> u64 \<Rightarrow> bytes \<Rightarrow> Assembly \<Rightarrow> Assembly" where
  "continued beg pos p a =
     (if beg then a\<lparr>prospective_record_offset := pos, scratch := p, in_fragmented_record := True\<rparr>
      else a\<lparr>scratch := scratch a @ p\<rparr>)"

lemma loop_continue:
  assumes "ReadPhysicalRecord ext src fr r s = (of_nat (type_value (fragment_type beg False)), p, r', s')"
    and "\<not> resyncing r'" "in_fragmented_record a = (\<not> beg)"
  shows "ReadRecord_loop ext src fr a r s =
      ReadRecord_loop ext src p (continued beg (file_pos r' - 7 - of_nat (length p)) p a) r' s'"
  using assms by (subst ReadRecord_loop.simps)
    (cases beg; simp add: fragment_type_def resync_def assemble_def report_partial_def continued_def file_pos_def)

lemma continued_in [simp]: "in_fragmented_record a = (\<not> beg) \<Longrightarrow> in_fragmented_record (continued beg pos p a)"
  by (simp add: continued_def)

locale log_reading = sequential_file src rest ready
  for src :: "'s SequentialFile" and rest :: "'s \<Rightarrow> bytes" and ready :: "'s \<Rightarrow> bool" +
  fixes ext :: "u32 \<Rightarrow> bytes \<Rightarrow> u32"
begin

abbreviation ahead :: "nat \<Rightarrow> Reader \<Rightarrow> 's \<Rightarrow> bool" where
  "ahead off r s \<equiv> positioned off r (rest s) (ready s)"

lemma refill:
  assumes "ahead off r s" "\<not> eof r" "length (buffer r) < 7"
  obtains r1 s1 where "\<And>result. ReadPhysicalRecord ext src result r s = ReadPhysicalRecord ext src result r1 s1"
    "ahead 0 r1 s1" "buffer r1 @ rest s1 = rest s" "moved r r1"
    "file_pos r1 = file_pos r + of_nat (length (buffer r))"
    "trailer_size off = length (buffer r)" "start_offset off = 0" "eof r1 \<or> 7 \<le> length (buffer r1)"
proof -
  have rdy: "ready s" and len: "off + length (buffer r) = kBlockSize"
    using assms(1,2) by (simp_all add: positioned_def)
  obtain s1 where s1: "SequentialFile_Read src kBlockSize [] s = (OK, take kBlockSize (rest s), s1)"
    "rest s1 = drop kBlockSize (rest s)" "kBlockSize \<le> length (rest s) \<longrightarrow> ready s1"
    by (rule readE [OF rdy, where n = kBlockSize and old = "[]"])
  define r1 where "r1 = r\<lparr>buffer := take kBlockSize (rest s),
      end_of_buffer_offset := end_of_buffer_offset r + of_nat (length (take kBlockSize (rest s))),
      eof := length (rest s) < kBlockSize\<rparr>"
  have "(if length (take kBlockSize (rest s)) < kBlockSize then r'\<lparr>eof := True\<rparr> else r') = r'\<lparr>eof := length (rest s) < kBlockSize\<rparr>"
    if "\<not> eof r'" for r' :: Reader
    using that by (cases r') auto
  then have "ReadPhysicalRecord ext src result r s = ReadPhysicalRecord ext src result r1 s1" for result
    using assms(2,3) s1(1)
    by (subst ReadPhysicalRecord.simps) (simp add: status_ok_def OK_def r1_def Let_def)
  moreover have "ahead 0 r1 s1"
    using assms(1) s1(2,3) by (auto simp: positioned_def r1_def)
  moreover have "trailer_size off = length (buffer r)" "start_offset off = 0"
    using len assms(3) by (auto simp: trailer_size_def start_offset_def)
  moreover have "eof r1 \<or> 7 \<le> length (buffer r1)" by (auto simp: r1_def kBlockSize_def)
  ultimately show ?thesis
    using that [of r1 s1] s1(2) by (auto simp: r1_def moved_def file_pos_def algebra_simps)
qed

text \<open>The next fragment is there in full.\<close>

lemma physical_in_block:
  assumes "ahead off r s" "trailer_size off = 0" "buffer r @ rest s = take m (frame ext t p @ suf)" "7 + length p \<le> m"
    and "off + 7 + length p \<le> kBlockSize" "t \<noteq> kZeroType"
  shows "\<exists>r'. ReadPhysicalRecord ext src result r s = (of_nat (type_value t), p, r', s) \<and>
      ahead (off + 7 + length p) r' s \<and> buffer r' @ rest s = take (m - (7 + length p)) suf \<and> moved r r' \<and>
      file_pos r' = file_pos r + of_nat (7 + length p)"
proof -
  have T: "buffer r @ rest s = frame ext t p @ take (m - (7 + length p)) suf"
    using assms(3,4) by (simp add: frame_length)
  have len: "7 + length p \<le> length (buffer r)"
  proof (cases "eof r")
    case True
    then have "buffer r = frame ext t p @ take (m - (7 + length p)) suf"
      using assms(1) T by (simp add: positioned_def)
    then show ?thesis by (simp add: frame_length)
  next
    case False
    then show ?thesis using assms(1,5) by (simp add: positioned_def)
  qed
  define b where "b = drop (7 + length p) (buffer r)"
  have "take (7 + length p) (buffer r @ rest s) = frame ext t p" unfolding T by (simp add: frame_length)
  then have buf: "buffer r = frame ext t p @ b"
    using len append_take_drop_id [of "7 + length p" "buffer r"] by (simp add: b_def)
  have p: "parse_record ext result r = (of_nat (type_value t), p, r\<lparr>buffer := b\<rparr>)"
    using parse_frame [OF buf _ assms(6)] assms(1,5) by (simp add: positioned_def kBlockSize_def)
  have "b @ rest s = take (m - (7 + length p)) suf" using T unfolding buf by simp
  moreover have "ahead (off + 7 + length p) (r\<lparr>buffer := b\<rparr>) s"
    using assms(1,5) by (auto simp: positioned_def buf frame_length)
  ultimately show ?thesis
    using Read_buffered [of r ext src result s] len by (simp add: p file_pos_def buf frame_length)
qed

lemma no_refill:
  assumes "ahead off r s" "\<not> (\<not> eof r \<and> length (buffer r) < 7)"
  shows "trailer_size off = 0 \<and> start_offset off = off \<or>
      eof r \<and> length (buffer r) < trailer_size off \<and> trailer_size off < 7"
  using assms by (auto simp: positioned_def trailer_size_def start_offset_def split: if_splits)

lemma physical_record:
  assumes "ahead off r s" "buffer r @ rest s = take m (replicate (trailer_size off) 0 @ frame ext t p @ suf)"
    and "trailer_size off + 7 + length p \<le> m" "start_offset off + 7 + length p \<le> kBlockSize" "t \<noteq> kZeroType"
  shows "\<exists>r' s'. ReadPhysicalRecord ext src result r s = (of_nat (type_value t), p, r', s') \<and>
      ahead (start_offset off + 7 + length p) r' s' \<and>
      buffer r' @ rest s' = take (m - (trailer_size off + 7 + length p)) suf \<and> moved r r' \<and>
      file_pos r' = file_pos r + of_nat (trailer_size off + 7 + length p)"
proof (cases "\<not> eof r \<and> length (buffer r) < 7")
  case True
  then obtain r1 s1 where 1: "\<And>result. ReadPhysicalRecord ext src result r s = ReadPhysicalRecord ext src result r1 s1"
    "ahead 0 r1 s1" "buffer r1 @ rest s1 = rest s" "moved r r1" "file_pos r1 = file_pos r + of_nat (length (buffer r))"
    "trailer_size off = length (buffer r)" "start_offset off = 0"
    using refill [OF assms(1)] by metis
  have "rest s = take (m - trailer_size off) (frame ext t p @ suf)"
    using assms(2,3) 1(6) by (simp add: append_eq_append_conv)
  moreover have "7 + length p \<le> m - trailer_size off" using assms(3) by simp
  ultimately obtain r' where "ReadPhysicalRecord ext src result r1 s1 = (of_nat (type_value t), p, r', s1)"
    "ahead (7 + length p) r' s1" "buffer r' @ rest s1 = take (m - trailer_size off - (7 + length p)) suf" "moved r1 r'"
    "file_pos r' = file_pos r1 + of_nat (7 + length p)"
    using physical_in_block [OF 1(2), of "m - trailer_size off" t p suf result] 1(3,7) assms(4,5)
    by (auto simp: trailer_size_def)
  then show ?thesis
    using 1 by (intro exI [of _ r'] exI [of _ s1]) (auto intro: moved_trans simp: add.assoc)
next
  case False
  have "length (buffer r) \<ge> trailer_size off" if "eof r"
    using that arg_cong [OF assms(2), of length] assms(1,3) by (simp add: positioned_def frame_length)
  then have "trailer_size off = 0" "start_offset off = off" using no_refill [OF assms(1) False] by auto
  then show ?thesis
    using physical_in_block [OF assms(1), of m t p suf result] assms(2-5) by fastforce
qed

text \<open>The file ends in the next fragment, or before it.\<close>

lemma eof_in_block:
  assumes "ahead off r s" "buffer r @ rest s = take m (frame ext t p)" "m < 7 + length p" "off + 7 + length p \<le> kBlockSize"
  shows "ReadPhysicalRecord ext src result r s = (kEof, result, r\<lparr>buffer := []\<rparr>, s) \<and> eof r"
proof -
  have e: "eof r"
  proof (rule ccontr)
    assume "\<not> eof r"
    then have "7 + length p \<le> length (buffer r)" using assms(1,4) by (simp add: positioned_def)
    then show False using arg_cong [OF assms(2), of length] assms(3) by simp
  qed
  with assms(1,2) have buf: "buffer r = take m (frame ext t p)" by (simp add: positioned_def)
  show ?thesis
  proof (cases "m < 7")
    case True
    then show ?thesis using e Read_at_eof [of r ext src result s] by (simp add: buf)
  next
    case False
    then have "parse_record ext result r = (kEof, result, r\<lparr>buffer := []\<rparr>)"
      using parse_short [OF buf] assms(3,4) e by (simp add: kBlockSize_def)
    then show ?thesis
      using e Read_buffered [of r ext src result s] False assms(3) by (simp add: buf frame_length)
  qed
qed

lemma physical_eof:
  assumes "ahead off r s" "buffer r @ rest s = take m (replicate (trailer_size off) 0 @ frame ext t p @ suf)"
    and "m < trailer_size off + 7 + length p" "start_offset off + 7 + length p \<le> kBlockSize"
  shows "\<exists>r' s'. ReadPhysicalRecord ext src result r s = (kEof, result, r', s') \<and> moved r r' \<and> ahead 0 r' s' \<and>
      buffer r' = [] \<and> rest s' = []"
proof (cases "\<not> eof r \<and> length (buffer r) < 7")
  case True
  then obtain r1 s1 where 1: "\<And>result. ReadPhysicalRecord ext src result r s = ReadPhysicalRecord ext src result r1 s1"
    "ahead 0 r1 s1" "buffer r1 @ rest s1 = rest s" "moved r r1"
    "trailer_size off = length (buffer r)" "start_offset off = 0"
    using refill [OF assms(1)] by metis
  have "trailer_size off \<le> m"
    using arg_cong [OF assms(2), of length] 1(5) by simp
  then have "rest s = take (m - trailer_size off) (frame ext t p @ suf)"
    using assms(2) 1(5) by (simp add: append_eq_append_conv)
  then have "rest s = take (m - trailer_size off) (frame ext t p)"
    using assms(3) by (simp add: frame_length)
  from eof_in_block [OF 1(2) 1(3) [unfolded this]]
  have "ReadPhysicalRecord ext src result r1 s1 = (kEof, result, r1\<lparr>buffer := []\<rparr>, s1) \<and> eof r1"
    using assms(3,4) 1(6) \<open>trailer_size off \<le> m\<close> by simp
  then show ?thesis
    using 1 by (intro exI [of _ "r1\<lparr>buffer := []\<rparr>"] exI [of _ s1])
      (auto simp: positioned_def intro: moved_trans split: if_splits)
next
  case False
  from no_refill [OF assms(1) False] show ?thesis
  proof
    assume "trailer_size off = 0 \<and> start_offset off = off"
    then have "ReadPhysicalRecord ext src result r s = (kEof, result, r\<lparr>buffer := []\<rparr>, s) \<and> eof r"
      using eof_in_block [OF assms(1), of m t p result] assms(2-4) by (simp add: frame_length)
    then show ?thesis
      using assms(1) by (intro exI [of _ "r\<lparr>buffer := []\<rparr>"] exI [of _ s]) (auto simp: positioned_def split: if_splits)
  next
    assume e: "eof r \<and> length (buffer r) < trailer_size off \<and> trailer_size off < 7"
    then show ?thesis
      using assms(1) Read_at_eof [of r ext src result s]
      by (intro exI [of _ "r\<lparr>buffer := []\<rparr>"] exI [of _ s]) (auto simp: positioned_def split: if_splits)
  qed
qed

text \<open>A whole record: its fragments are joined if they are all there, and ignored otherwise.\<close>

lemma read_fragments:
  assumes "ahead off r s" "buffer r @ rest s = take m (fst (fragments ext off beg data) @ suf)"
    and "in_fragmented_record a = (\<not> beg)" "length (fst (fragments ext off beg data)) \<le> m"
  shows "\<exists>a' r' s'. ReadRecord_loop ext src fr a r s = Some (True, a', r', s') \<and>
      record_out a' = (if beg then data else scratch a @ data) \<and> ahead (snd (fragments ext off beg data)) r' s' \<and>
      buffer r' @ rest s' = take (m - length (fst (fragments ext off beg data))) suf \<and>
      moved (r\<lparr>last_record_offset :=
        if beg then file_pos r + of_nat (trailer_size off) else prospective_record_offset a\<rparr>) r' \<and>
      file_pos r' = file_pos r + of_nat (length (fst (fragments ext off beg data)))"
  using assms
proof (induction off beg data arbitrary: m fr a r s rule: fragments_induct)
  case (step off beg data)
  define n where "n = min (length data) (kBlockSize - start_offset off - 7)"
  define t where "t = fragment_type beg (n = length data)"
  note parts = fragments_parts [OF n_def t_def, of ext]
  define next_suf where "next_suf = (if n = length data then suf
      else fst (fragments ext (start_offset off + 7 + n) False (drop n data)) @ suf)"
  have n: "length (take n data) = n" by (simp add: n_def)
  have "buffer r @ rest s = take m (replicate (trailer_size off) 0 @ frame ext t (take n data) @ next_suf)"
    using step.prems(2) by (simp add: parts next_suf_def add.assoc)
  moreover have "trailer_size off + 7 + length (take n data) \<le> m"
    using step.prems(4) n by (simp add: parts frame_length)
  moreover have "start_offset off + 7 + length (take n data) \<le> kBlockSize"
    using start_offset_le [of off] by (simp add: n_def)
  moreover have "t \<noteq> kZeroType" by (simp add: t_def fragment_type_def)
  ultimately obtain r' s' where phys: "ReadPhysicalRecord ext src fr r s = (of_nat (type_value t), take n data, r', s')"
    and ah: "ahead (start_offset off + 7 + n) r' s'"
    and rest: "buffer r' @ rest s' = take (m - (trailer_size off + 7 + n)) next_suf"
    and mv: "moved r r'" and pos: "file_pos r' = file_pos r + of_nat (trailer_size off + 7 + n)"
    using physical_record [OF step.prems(1), of m t "take n data" next_suf fr] unfolding n by auto
  have "end_of_buffer_offset r' - of_nat (length (buffer r')) - 7 - of_nat n = file_pos r + of_nat (trailer_size off)"
    using pos by (simp add: file_pos_def)
  moreover have "\<not> resyncing r'" using ah by (simp add: positioned_def)
  ultimately have loop: "ReadRecord_loop ext src fr a r s =
      (let (ret, a, r) = assemble (of_nat (type_value t)) (take n data) (file_pos r + of_nat (trailer_size off)) a r' in
       if ret = None then ReadRecord_loop ext src (take n data) a r s' else Some (the ret, a, r, s'))"
    using phys n by (subst ReadRecord_loop.simps) (simp add: resync_def)
  have as: "in_fragmented_record a = (\<not> beg)" by (rule step.prems)
  show ?case
  proof (cases "n = length data")
    case True
    let ?l = "if beg then file_pos r + of_nat (trailer_size off) else prospective_record_offset a"
    have "\<exists>a'. ReadRecord_loop ext src fr a r s = Some (True, a', r'\<lparr>last_record_offset := ?l\<rparr>, s') \<and>
        record_out a' = (if beg then data else scratch a @ data)"
      unfolding loop using True as
      by (cases beg) (simp_all add: t_def fragment_type_def assemble_def report_partial_def)
    then obtain a' where "ReadRecord_loop ext src fr a r s = Some (True, a', r'\<lparr>last_record_offset := ?l\<rparr>, s')"
      "record_out a' = (if beg then data else scratch a @ data)" by blast
    then show ?thesis
      using True ah rest pos moved_last [OF mv, of ?l]
      by (intro exI [of _ a'] exI [of _ "r'\<lparr>last_record_offset := ?l\<rparr>"] exI [of _ s'])
        (simp add: parts next_suf_def frame_length add.assoc)
  next
    case False
    let ?a = "continued beg (file_pos r + of_nat (trailer_size off)) (take n data) a"
    have more_t: "t = fragment_type beg False" using False by (simp add: t_def)
    have "ReadRecord_loop ext src fr a r s = ReadRecord_loop ext src (take n data) ?a r' s'"
      using loop_continue [OF phys [unfolded more_t] positioned_resync [OF ah] as] pos n by (simp add: algebra_simps)
    moreover have "length (fst (fragments ext (start_offset off + 7 + n) False (drop n data))) \<le> m - (trailer_size off + 7 + n)"
      using step.prems(4) False n by (simp add: parts frame_length)
    ultimately obtain a' r'' s'' where "ReadRecord_loop ext src fr a r s = Some (True, a', r'', s'')"
      "record_out a' = scratch ?a @ drop n data"
      "ahead (snd (fragments ext (start_offset off + 7 + n) False (drop n data))) r'' s''"
      "buffer r'' @ rest s'' =
        take (m - (trailer_size off + 7 + n) - length (fst (fragments ext (start_offset off + 7 + n) False (drop n data)))) suf"
      "moved (r'\<lparr>last_record_offset := prospective_record_offset ?a\<rparr>) r''"
      "file_pos r'' = file_pos r' + of_nat (length (fst (fragments ext (start_offset off + 7 + n) False (drop n data))))"
      using step.IH [OF n_def False ah, of "m - (trailer_size off + 7 + n)" ?a "take n data"] rest as False
      by (auto simp: next_suf_def)
    then show ?thesis
      unfolding parts using False pos moved_trans [OF moved_last [OF mv]] n
      by (intro exI [of _ a'] exI [of _ r''] exI [of _ s'']) (cases beg; simp add: frame_length add.assoc continued_def)
  qed
qed

lemma read_truncated:
  assumes "ahead off r s" "buffer r @ rest s = take m (fst (fragments ext off beg data) @ suf)"
    and "in_fragmented_record a = (\<not> beg)" "m < length (fst (fragments ext off beg data))"
  shows "\<exists>a' r' s'. ReadRecord_loop ext src fr a r s = Some (False, a', r', s') \<and> moved r r' \<and> ahead 0 r' s' \<and>
      buffer r' = [] \<and> rest s' = []"
  using assms
proof (induction off beg data arbitrary: m fr a r s rule: fragments_induct)
  case (step off beg data)
  define n where "n = min (length data) (kBlockSize - start_offset off - 7)"
  define t where "t = fragment_type beg (n = length data)"
  note parts = fragments_parts [OF n_def t_def, of ext]
  define next_suf where "next_suf = (if n = length data then suf
      else fst (fragments ext (start_offset off + 7 + n) False (drop n data)) @ suf)"
  have n: "length (take n data) = n" by (simp add: n_def)
  have buf: "buffer r @ rest s = take m (replicate (trailer_size off) 0 @ frame ext t (take n data) @ next_suf)"
    using step.prems(2) by (simp add: parts next_suf_def add.assoc)
  have fits: "start_offset off + 7 + length (take n data) \<le> kBlockSize"
    using start_offset_le [of off] by (simp add: n_def)
  show ?case
  proof (cases "m < trailer_size off + 7 + n")
    case True
    then obtain r' s' where "ReadPhysicalRecord ext src fr r s = (kEof, fr, r', s')" "moved r r'" "ahead 0 r' s'"
      "buffer r' = []" "rest s' = []"
      using physical_eof [OF step.prems(1) buf _ fits, of fr] n by auto
    then show ?thesis using loop_eof [of ext src fr r s fr r' s' a] positioned_resync [of 0 r' "rest s'" "ready s'"] by blast
  next
    case False
    have more: "n \<noteq> length data" using False step.prems(4) n by (auto simp: parts frame_length)
    have "t \<noteq> kZeroType" by (simp add: t_def fragment_type_def)
    then obtain r' s' where phys: "ReadPhysicalRecord ext src fr r s = (of_nat (type_value t), take n data, r', s')"
      and ah: "ahead (start_offset off + 7 + n) r' s'"
      and rest: "buffer r' @ rest s' = take (m - (trailer_size off + 7 + n)) next_suf" and mv: "moved r r'"
      using physical_record [OF step.prems(1) buf _ fits, of fr] False unfolding n by auto
    have more_t: "t = fragment_type beg False" using more by (simp add: t_def)
    define a1 where "a1 = continued beg (file_pos r' - 7 - of_nat n) (take n data) a"
    have "in_fragmented_record a1" "ReadRecord_loop ext src fr a r s = ReadRecord_loop ext src (take n data) a1 r' s'"
      using loop_continue [OF phys [unfolded more_t] positioned_resync [OF ah] step.prems(3)] step.prems(3) more n
      by (simp_all add: a1_def)
    moreover have "m - (trailer_size off + 7 + n) < length (fst (fragments ext (start_offset off + 7 + n) False (drop n data)))"
      using step.prems(4) more False n by (simp add: parts frame_length)
    ultimately show ?thesis
      using step.IH [OF n_def more ah, of "m - (trailer_size off + 7 + n)" a1 "take n data"] rest more moved_trans [OF mv]
      by (auto simp: next_suf_def)
  qed
qed

lemma read_record_ahead:
  assumes "ahead off r s"
  shows "ReadRecord ext src rec scr r s =
      map_option (\<lambda>(ret, a, r, s). (ret, record_out a, scratch a, r, s))
        (ReadRecord_loop ext src []
          \<lparr>scratch = [], record_out = [], in_fragmented_record = False, prospective_record_offset = 0\<rparr> r s)"
  using assms by (simp add: ReadRecord_def positioned_def)

lemma read_all_log:
  assumes "ahead off r s" "buffer r @ rest s = take m (fst (log_bytes ext off rs))"
  shows "\<exists>r' s'. read_all ext src r s =
      Some (take (complete_records ext off m rs) (zip (record_positions ext (file_pos r) off rs) rs), r', s') \<and>
      reports r' = reports r"
  using assms
proof (induction rs arbitrary: off r s m)
  case Nil
  have "buffer r @ rest s = take 0 (replicate (trailer_size off) 0 @ frame ext kFullType [] @ [])"
    using Nil.prems(2) by simp
  from physical_eof [OF Nil.prems(1) this, where result = "[]"] obtain r' s' where
    e: "ReadPhysicalRecord ext src [] r s = (kEof, [], r', s')" "moved r r'" "ahead 0 r' s'"
    using start_offset_le [of off] by auto
  from loop_eof [OF e(1) positioned_resync [OF e(3)]] obtain a' where
    "ReadRecord_loop ext src [] \<lparr>scratch = [], record_out = [], in_fragmented_record = False, prospective_record_offset = 0\<rparr> r s =
      Some (False, a', r', s')" by blast
  then show ?case
    using moved_fields(1) [OF e(2)] by (subst read_all.simps) (simp add: read_record_ahead [OF Nil.prems(1)])
next
  case (Cons d rs)
  let ?F = "fragments ext off True d"
  let ?a = "\<lparr>scratch = [], record_out = [], in_fragmented_record = False, prospective_record_offset = 0\<rparr> :: Assembly"
  note buf = Cons.prems(2) [unfolded log_bytes_Cons]
  show ?case
  proof (cases "length (fst ?F) \<le> m")
    case True
    then obtain a' r' s' where loop: "ReadRecord_loop ext src [] ?a r s = Some (True, a', r', s')" "record_out a' = d"
      and ah: "ahead (snd ?F) r' s'"
      and rest: "buffer r' @ rest s' = take (m - length (fst ?F)) (fst (log_bytes ext (snd ?F) rs))"
      and mv: "moved (r\<lparr>last_record_offset := file_pos r + of_nat (trailer_size off)\<rparr>) r'"
      and pos: "file_pos r' = file_pos r + of_nat (length (fst ?F))"
      using read_fragments [OF Cons.prems(1) buf, of ?a "[]"] by auto
    from Cons.IH [OF ah rest] obtain r'' s'' where "read_all ext src r' s' =
        Some (take (complete_records ext (snd ?F) (m - length (fst ?F)) rs)
          (zip (record_positions ext (file_pos r') (snd ?F) rs) rs), r'', s'')" "reports r'' = reports r'"
      by blast
    then show ?thesis
      using True moved_fields(1,4) [OF mv] loop pos
      by (subst read_all.simps) (simp add: read_record_ahead [OF Cons.prems(1)] LastRecordOffset_def case_prod_beta)
  next
    case False
    then obtain a' r' s' where "ReadRecord_loop ext src [] ?a r s = Some (False, a', r', s')" "moved r r'"
      using read_truncated [OF Cons.prems(1) buf, of ?a "[]"] by auto
    then show ?thesis
      using False moved_fields(1) [of r r']
      by (subst read_all.simps) (simp add: read_record_ahead [OF Cons.prems(1)] case_prod_beta)
  qed
qed

end

section \<open>Termination on any file\<close>

lemma ReportDrop_same [simp]:
  "buffer (ReportDrop n st r) = buffer r" "eof (ReportDrop n st r) = eof r"
  "checksum_on (ReportDrop n st r) = checksum_on r"
  by (simp_all add: ReportDrop_def)

lemma ReportCorruption_same [simp]:
  "buffer (ReportCorruption n m r) = buffer r" "eof (ReportCorruption n m r) = eof r"
  "checksum_on (ReportCorruption n m r) = checksum_on r"
  by (simp_all add: ReportCorruption_def)

lemma parse_shrinks:
  assumes "parse_record ext result r = (t, res, r')" "7 \<le> length (buffer r)"
  shows "length (buffer r') < length (buffer r)"
  using assms by (auto simp: parse_record_def Let_def split: if_splits)

context finite_file
begin

lemma physical_progress:
  assumes "ReadPhysicalRecord ext f result r s = (t, res, r', s')"
  shows "t = kEof \<or> length (buffer r') + length (rest s') < length (buffer r) + length (rest s)"
proof (cases "length (buffer r) < 7")
  case False
  then show ?thesis
    using assms Read_buffered [of r ext f result s] by (auto dest: parse_shrinks split: prod.splits)
next
  case short: True
  show ?thesis
  proof (cases "eof r")
    case True
    then show ?thesis using assms short by (simp add: Read_at_eof)
  next
    case False
    obtain st buf s1 where rd: "SequentialFile_Read f kBlockSize [] s = (st, buf, s1)" by (cases "SequentialFile_Read f kBlockSize [] s")
    define r1 where "r1 = r\<lparr>buffer := buf, end_of_buffer_offset := end_of_buffer_offset r + of_nat (length buf)\<rparr>"
    let ?r = "if length buf < kBlockSize then r1\<lparr>eof := True\<rparr> else r1"
    have unf: "ReadPhysicalRecord ext f result r s = (if status_ok st then ReadPhysicalRecord ext f result ?r s1
        else (kEof, result, (ReportDrop (of_nat kBlockSize) st (r1\<lparr>buffer := []\<rparr>))\<lparr>eof := True\<rparr>, s1))"
      using short False rd by (subst ReadPhysicalRecord.simps) (simp add: r1_def Let_def)
    have buf: "buffer ?r = buf" by (simp add: r1_def)
    consider "\<not> status_ok st" | "status_ok st" "length buf < 7" | "status_ok st" "7 \<le> length buf" by linarith
    then show ?thesis
    proof cases
      case 1
      then show ?thesis using assms by (simp add: unf)
    next
      case 2
      then have "eof ?r" by (simp add: kBlockSize_def)
      then show ?thesis using assms 2 buf Read_at_eof [of ?r ext f result s1] by (simp add: unf)
    next
      case 3
      then have "length buf + length (rest s1) \<le> length (rest s)"
        using read_shrinks [of kBlockSize "[]" s buf s1] rd by (simp add: status_ok_def OK_def)
      moreover have "length (buffer r') < length buf" "s' = s1"
        using assms 3 buf Read_buffered [of ?r ext f result s1] parse_shrinks [of ext result ?r t res r']
        by (auto simp: unf split: prod.splits)
      ultimately show ?thesis by simp
    qed
  qed
qed

lemma loop_returns: "\<exists>res. ReadRecord_loop ext f fr a r s = Some res"
proof (induction "length (buffer r) + length (rest s)" arbitrary: fr a r s rule: less_induct)
  case less
  obtain t fr' r1 s1 where p: "ReadPhysicalRecord ext f fr r s = (t, fr', r1, s1)"
    by (cases "ReadPhysicalRecord ext f fr r s")
  obtain sk r2 where rs: "resync t r1 = (sk, r2)" by (cases "resync t r1")
  obtain ret a2 r3 where as: "assemble t fr' (end_of_buffer_offset r1 - of_nat (length (buffer r1)) - of_nat kHeaderSize -
      of_nat (length fr')) a r2 = (ret, a2, r3)" by (metis prod_cases3)
  have unf: "ReadRecord_loop ext f fr a r s = (if sk then ReadRecord_loop ext f fr' a r2 s1
      else if ret = None then ReadRecord_loop ext f fr' a2 r3 s1 else Some (the ret, a2, r3, s1))"
    by (subst ReadRecord_loop.simps) (simp only: p Let_def case_prod_conv rs as)
  have b2: "buffer r2 = buffer r1" using rs by (auto simp: resync_def split: if_splits)
  have b3: "buffer r3 = buffer r2" using as by (auto simp: assemble_def report_partial_def split: if_splits)
  show ?case
  proof (cases "t = kEof")
    case True
    then have "\<not> sk" "ret = Some False"
      using rs as by (auto simp: resync_def assemble_def kEof_def kMaxRecordType_def split: if_splits)
    then show ?thesis by (auto simp: unf)
  next
    case False
    then have "length (buffer r1) + length (rest s1) < length (buffer r) + length (rest s)"
      using physical_progress [OF p] by simp
    then show ?thesis using less [of r2 s1 fr' a] less [of r3 s1 fr' a2] b2 b3 by (simp add: unf)
  qed
qed

lemma ReadRecord_returns: "\<exists>res. ReadRecord ext f rec scr r s = Some res"
  using loop_returns unfolding ReadRecord_def by (fastforce split: prod.splits)

end

section \<open>Checksums on any file\<close>

definition current_block :: "'s SequentialFile \<Rightarrow> Reader \<Rightarrow> 's \<Rightarrow> bytes" where
  "current_block src r s =
     (if length (buffer r) < 7 \<and> \<not> eof r then fst (snd (SequentialFile_Read src kBlockSize [] s)) else buffer r)"

text \<open>The bytes \<open>hdr @ p\<close> form a fragment of type \<open>t\<close> with a matching checksum.\<close>

definition valid_fragment :: "(u32 \<Rightarrow> bytes \<Rightarrow> u32) \<Rightarrow> bytes \<Rightarrow> u32 \<Rightarrow> bytes \<Rightarrow> bool" where
  "valid_fragment ext hdr t p \<longleftrightarrow> length hdr = 7 \<and> t = scast (hdr ! 6) \<and>
     length p = unat (hdr ! 4) + 256 * unat (hdr ! 5) \<and> ext 0 (hdr ! 6 # p) = Unmask (DecodeFixed32 hdr)"

lemma length_field_unat:
  "unat ((ucast (a :: u8) AND 0xff) OR push_bit 8 (ucast (b :: u8) AND 0xff) :: u32) = unat a + 256 * unat b"
proof -
  let ?n = "unat a + 256 * unat b"
  have "unat a < 256" "unat b < 256" using unsigned_less [of a, where 'a = nat] unsigned_less [of b, where 'a = nat] by simp_all
  then have "?n mod 256 = unat a" "?n div 256 = unat b" "?n < 65536" by auto
  with length_field [of ?n] show ?thesis by (simp add: unat_of_nat del: of_nat_add of_nat_mult)
qed

lemma parse_valid:
  assumes "parse_record ext result r = (t, p, r')" "checksum_on r" "7 \<le> length (buffer r)" "t \<noteq> kEof" "t \<noteq> kBadRecord"
  shows "\<exists>hdr. buffer r = hdr @ p @ buffer r' \<and> valid_fragment ext hdr t p"
proof -
  let ?h = "buffer r"
  let ?len = "unat (?h ! 4) + 256 * unat (?h ! 5)"
  from assms have c: "t = scast (?h ! 6)" "p = take ?len (drop 7 ?h)" "7 + ?len \<le> length ?h"
    "ext 0 (take (1 + ?len) (drop 6 ?h)) = Unmask (DecodeFixed32 ?h)" "buffer r' = drop (7 + ?len) ?h"
    unfolding parse_record_def Let_def length_field_unat by (auto split: if_splits)
  have "drop 6 ?h = ?h ! 6 # drop 7 ?h" using assms(3) Cons_nth_drop_Suc [of 6 ?h] by simp
  then have "take (1 + ?len) (drop 6 ?h) = take 7 ?h ! 6 # p" using c(2) by simp
  moreover have "DecodeFixed32 (take 7 ?h) = DecodeFixed32 ?h" by (simp add: DecodeFixed32_def)
  ultimately have "valid_fragment ext (take 7 ?h) t p" using c assms(3) by (simp add: valid_fragment_def)
  moreover have split: "xs = take 7 xs @ take n (drop 7 xs) @ drop (7 + n) xs" for n and xs :: bytes
    using append_take_drop_id [of n "drop 7 xs"] append_take_drop_id [of 7 xs] by (simp add: add.commute)
  have "?h = take 7 ?h @ p @ buffer r'"
    unfolding c(2,5) by (rule split)
  ultimately show ?thesis by blast
qed

lemma physical_valid:
  assumes "ReadPhysicalRecord ext src result r s = (t, p, r', s')" "checksum_on r" "t \<noteq> kEof" "t \<noteq> kBadRecord"
  shows "\<exists>hdr. current_block src r s = hdr @ p @ buffer r' \<and> valid_fragment ext hdr t p"
proof -
  consider "7 \<le> length (buffer r)" | "length (buffer r) < 7" "eof r" | "length (buffer r) < 7" "\<not> eof r" by linarith
  then show ?thesis
  proof cases
    case 1
    then show ?thesis
      using assms Read_buffered [of r ext src result s] parse_valid [of ext result r t p r']
      by (auto simp: current_block_def split: prod.splits)
  next
    case 2
    then show ?thesis using assms by (simp add: Read_at_eof)
  next
    case 3
    obtain st buf s1 where rd: "SequentialFile_Read src kBlockSize [] s = (st, buf, s1)"
      by (cases "SequentialFile_Read src kBlockSize [] s")
    define r1 where "r1 = r\<lparr>buffer := buf, end_of_buffer_offset := end_of_buffer_offset r + of_nat (length buf)\<rparr>"
    let ?r = "if length buf < kBlockSize then r1\<lparr>eof := True\<rparr> else r1"
    have b: "status_ok st" "ReadPhysicalRecord ext src result ?r s1 = (t, p, r', s')"
      using assms 3 rd by (subst (asm) ReadPhysicalRecord.simps, simp add: r1_def Let_def split: if_splits)+
    have "7 \<le> length buf"
    proof (rule ccontr)
      assume "\<not> 7 \<le> length buf"
      then show False using b(2) assms Read_at_eof [of ?r ext src result s1] by (simp add: r1_def kBlockSize_def)
    qed
    moreover have "buffer ?r = buf" "checksum_on ?r" using assms(2) by (simp_all add: r1_def)
    ultimately show ?thesis
      using b assms(3,4) 3 rd Read_buffered [of ?r ext src result s1] parse_valid [of ext result ?r t p r']
      by (auto simp: current_block_def split: prod.splits)
  qed
qed

end
