(* ===== verification/Log.thy ===== *)
theory Log
  imports Log_writer Log_reader_facts
begin

text \<open>
  The log as a whole.  The in-memory files and the reporter are those of \<^verbatim>\<open>examples/opLogTest/oplog_test.cc\<close>; they
  meet the file contracts, and the writer and the reader are put together over them.
\<close>

section \<open>In-memory files\<close>

definition StringDest :: "bytes WritableFile" where
  "StringDest = \<lparr>WritableFile_Append = \<lambda>data contents. (OK, contents @ data), WritableFile_Close = \<lambda>s. (OK, s),
     WritableFile_Flush = \<lambda>s. (OK, s), WritableFile_Sync = \<lambda>s. (OK, s), WritableFile_delete = \<lambda>s. s\<rparr>"

text \<open>\<open>expects_ok\<close> is false once an \<^verbatim>\<open>EXPECT_TRUE\<close> has failed.\<close>

record StringSource_state =
  src_contents :: bytes
  force_error :: bool
  returned_partial :: bool
  expects_ok :: bool

definition StringSource_new :: "bytes \<Rightarrow> StringSource_state" where
  "StringSource_new c = \<lparr>src_contents = c, force_error = False, returned_partial = False, expects_ok = True\<rparr>"

definition StringSource_Read :: "nat \<Rightarrow> bytes \<Rightarrow> StringSource_state \<Rightarrow> Status \<times> bytes \<times> StringSource_state" where
  "StringSource_Read n result s =
     (let s = s\<lparr>expects_ok := expects_ok s \<and> \<not> returned_partial s\<rparr> in
      if force_error s then (Corruption (ascii ''read error'') [], result, s\<lparr>force_error := False, returned_partial := True\<rparr>)
      else
        let (n, s) = (if length (src_contents s) < n then (length (src_contents s), s\<lparr>returned_partial := True\<rparr>) else (n, s))
        in (OK, take n (src_contents s), s\<lparr>src_contents := drop n (src_contents s)\<rparr>))"

definition StringSource_Skip :: "u64 \<Rightarrow> StringSource_state \<Rightarrow> Status \<times> StringSource_state" where
  "StringSource_Skip n s =
     (if unat n > length (src_contents s)
      then (NotFound (ascii ''in-memory file skipped past end'') [], s\<lparr>src_contents := []\<rparr>)
      else (OK, s\<lparr>src_contents := drop (unat n) (src_contents s)\<rparr>))"

definition StringSource :: "StringSource_state SequentialFile" where
  "StringSource = \<lparr>SequentialFile_Read = StringSource_Read, SequentialFile_Skip = StringSource_Skip,
     SequentialFile_delete = \<lambda>s. s\<rparr>"

interpretation string_dest: append_file StringDest "\<lambda>c. c" "\<lambda>_. True"
  by unfold_locales (simp_all add: StringDest_def)

interpretation string_source: sequential_file StringSource src_contents
    "\<lambda>s. \<not> force_error s \<and> \<not> returned_partial s \<and> expects_ok s"
  by unfold_locales (auto simp: StringSource_def StringSource_Read_def Let_def)

interpretation string_source_finite: finite_file StringSource src_contents
  by unfold_locales
    (auto simp: StringSource_def StringSource_Read_def Let_def Corruption_def Status_new_def OK_def split: if_splits)

text \<open>Any number of records written by one writer, with the statuses returned.\<close>

fun write_all :: "(u32 \<Rightarrow> bytes \<Rightarrow> u32) \<Rightarrow> 's WritableFile \<Rightarrow> bytes list \<Rightarrow> Writer \<Rightarrow> 's \<Rightarrow> (Status list \<times> Writer \<times> 's) option" where
  "write_all ext dest [] w s = Some ([], w, s)"
| "write_all ext dest (d # ds) w s =
     Option.bind (AddRecord ext dest d w s) (\<lambda>(st, w, s).
       Option.bind (write_all ext dest ds w s) (\<lambda>(sts, w, s). Some (st # sts, w, s)))"

lemma write_all_ok:
  assumes "writer_ok ext w"
  shows "\<exists>sts w' s'. write_all ext dest ds w s = Some (sts, w', s') \<and> writer_ok ext w'"
  using assms
proof (induction ds arbitrary: w s)
  case (Cons d ds)
  from AddRecord_loop_ok [OF Cons.prems, of dest True d s] obtain st w1 s1 where
    1: "AddRecord ext dest d w s = Some (st, w1, s1)" and ok: "writer_ok ext w1" by (auto simp: AddRecord_def)
  from Cons.IH [OF ok, of s1] show ?case using 1 by auto
qed simp

context log_writing
begin

lemma write_all_contents:
  assumes "writer_ok ext w" "usable s"
  shows "\<exists>w' s'. write_all ext dest ds w s = Some (replicate (length ds) OK, w', s') \<and> writer_ok ext w' \<and> usable s' \<and>
      contents s' = contents s @ fst (log_bytes ext (nat (block_offset w)) ds) \<and>
      nat (block_offset w') = snd (log_bytes ext (nat (block_offset w)) ds)"
  using assms
proof (induction ds arbitrary: w s)
  case (Cons d ds)
  from AddRecord_contents [OF Cons.prems, of d] obtain w1 s1 where
    1: "AddRecord ext dest d w s = Some (OK, w1, s1)" "writer_ok ext w1" "usable s1"
      "contents s1 = contents s @ fst (fragments ext (nat (block_offset w)) True d)"
      "nat (block_offset w1) = snd (fragments ext (nat (block_offset w)) True d)" by blast
  from Cons.IH [OF 1(2,3)] obtain w2 s2 where
    "write_all ext dest ds w1 s1 = Some (replicate (length ds) OK, w2, s2)" "writer_ok ext w2" "usable s2"
    "contents s2 = contents s1 @ fst (log_bytes ext (nat (block_offset w1)) ds)"
    "nat (block_offset w2) = snd (log_bytes ext (nat (block_offset w1)) ds)" by blast
  then show ?case using 1 by (simp add: log_bytes_Cons del: log_bytes.simps)
qed simp

end

context log_reading
begin

text \<open>Reading a log from its beginning, from a file that holds its first \<open>m\<close> bytes.\<close>

lemma read_new_log:
  assumes "ready s" "rest s = take m (fst (log_bytes ext 0 rs))"
  shows "\<exists>r' s'. read_all ext src (Reader_new rep check 0) s =
      Some (take (complete_records ext 0 m rs) (zip (record_positions ext 0 0 rs) rs), r', s') \<and> reports r' = []"
proof -
  let ?r = "Reader_new rep check 0"
  have pos: "file_pos ?r = 0" "reports ?r = []" "buffer ?r = []" by (simp_all add: file_pos_def Reader_new_def)
  have ah: "ahead kBlockSize ?r s" using assms(1) by (simp add: positioned_def Reader_new_def)
  show ?thesis
  proof (cases rs)
    case Nil
    from read_all_log [OF ah, of m "[]"] show ?thesis using assms(2) by (simp add: Nil pos)
  next
    case (Cons d ds)
    have "buffer ?r @ rest s = take m (fst (log_bytes ext kBlockSize rs))"
      using assms(2) log_bytes_block_end [of rs] Cons by (simp add: pos)
    note read_all_log [OF ah this]
    moreover have "complete_records ext kBlockSize m rs = complete_records ext 0 m rs"
      "record_positions ext 0 kBlockSize rs = record_positions ext 0 0 rs"
      by (simp_all add: Cons fragments_block_end trailer_size_def)
    ultimately show ?thesis by (simp add: pos)
  qed
qed

end

interpretation crc_log: log_writing "Extend_portable addr" StringDest "\<lambda>c. c" "\<lambda>_. True"
  by unfold_locales

interpretation crc_read: log_reading StringSource src_contents
    "\<lambda>s. \<not> force_error s \<and> \<not> returned_partial s \<and> expects_ok s" ext
  for ext
  by unfold_locales

lemma Extend_portable_addr: "Extend_portable a = Extend_portable 0"
  by (simp add: fun_eq_iff extend_portable_division)

section \<open>Properties\<close>

lemma written_log:
  "\<exists>w. write_all (Extend_portable a) StringDest rs (Writer_new (Extend_portable a)) [] =
      Some (replicate (length rs) OK, w, fst (log_bytes (Extend_portable 0) 0 rs))"
  using crc_log.write_all_contents [OF writer_ok_new TrueI, where addr = a and s = "[]" and ds = rs]
  by (auto simp: Writer_new_def Extend_portable_addr [of a])

lemma read_prefix:
  "\<exists>r' s'. read_all (Extend_portable a) StringSource (Reader_new rep check 0)
      (StringSource_new (take m (fst (log_bytes (Extend_portable 0) 0 rs)))) =
    Some (take (complete_records (Extend_portable 0) 0 m rs) (zip (record_positions (Extend_portable 0) 0 0 rs) rs), r', s') \<and>
    reports r' = []"
  unfolding Extend_portable_addr [of a] by (rule crc_read.read_new_log) (simp_all add: StringSource_new_def)






text \<open>C14. With checksums on, a fragment is delivered only if the bytes read, header and payload, carry the right checksum,
  whatever the file holds.\<close>

theorem reader_checks_fragments:
  assumes "ReadPhysicalRecord (Extend_portable a) src result r s = (t, p, r', s')" "checksum_on r"
    and "t \<noteq> kEof" "t \<noteq> kBadRecord"
  shows "\<exists>hdr. current_block src r s = hdr @ p @ buffer r' \<and> valid_fragment (Extend_portable a) hdr t p"
  using assms by (rule physical_valid)

definition sample_reader :: "u8 \<Rightarrow> Reader" where
  "sample_reader tb = (Reader_new True True 0)\<lparr>buffer := raw_frame (Extend_portable 0) tb (ascii ''foo'') @ ascii ''rest''\<rparr>"

lemma sample_parse:
  assumes "scast tb \<noteq> (0 :: u32)"
  shows "parse_record (Extend_portable 0) result (sample_reader tb) =
      (scast tb, ascii ''foo'', (sample_reader tb)\<lparr>buffer := ascii ''rest''\<rparr>)"
  by (rule parse_raw_frame) (simp_all add: sample_reader_def ascii_def Reader_new_def assms)

lemma sample_buffer: "7 \<le> length (buffer (sample_reader tb))"
  by (simp add: sample_reader_def raw_frame_length)

theorem reader_checks_fragments_witness:
  "\<exists>hdr. current_block StringSource (sample_reader 1) (StringSource_new []) = hdr @ ascii ''foo'' @ ascii ''rest'' \<and>
     valid_fragment (Extend_portable 0) hdr 1 (ascii ''foo'')"
proof -
  have "ReadPhysicalRecord (Extend_portable 0) StringSource [] (sample_reader 1) (StringSource_new []) =
      (1, ascii ''foo'', (sample_reader 1)\<lparr>buffer := ascii ''rest''\<rparr>, StringSource_new [])"
    using sample_parse [of 1 "[]"] by (simp add: Read_buffered [OF sample_buffer])
  from reader_checks_fragments [OF this] show ?thesis
    by (simp add: sample_reader_def Reader_new_def kEof_def kBadRecord_def kMaxRecordType_def)
qed

text \<open>C17. A fragment with the undefined type 5 and a valid checksum is taken for the end of the file: the reader stops
  without a report, even if more records follow.\<close>

theorem undefined_type_ends_log:
  assumes "length p < 65536"
  shows "\<exists>r'. ReadRecord (Extend_portable a) src rec scr
       ((Reader_new True check 0)\<lparr>buffer := raw_frame (Extend_portable a) 5 p @ b\<rparr>) s = Some (False, [], [], r', s) \<and>
     reports r' = [] \<and> buffer r' = b"
proof -
  let ?r = "(Reader_new True check 0)\<lparr>buffer := raw_frame (Extend_portable a) 5 p @ b\<rparr>"
  have five: "scast (5 :: u8) = (5 :: u32)" by simp
  have "parse_record (Extend_portable a) [] ?r = (5, p, ?r\<lparr>buffer := b\<rparr>)"
    using parse_raw_frame [of ?r "Extend_portable a" 5 p b "[]"] assms five by (simp add: Reader_new_def)
  then have "ReadPhysicalRecord (Extend_portable a) src [] ?r s = (kEof, p, ?r\<lparr>buffer := b\<rparr>, s)"
    using Read_buffered [of ?r "Extend_portable a" src "[]" s] by (simp add: raw_frame_length kEof_def kMaxRecordType_def)
  then show ?thesis
    by (subst ReadRecord_def, subst ReadRecord_loop.simps)
      (simp add: Reader_new_def resync_def assemble_def kEof_def kMaxRecordType_def)
qed

theorem undefined_type_ends_log_witness:
  "\<exists>r'. ReadRecord (Extend_portable 0) StringSource [] []
      ((Reader_new True True 0)\<lparr>buffer := raw_frame (Extend_portable 0) 5 (ascii ''foo'') @ ascii ''rest''\<rparr>) (StringSource_new []) =
     Some (False, [], [], r', StringSource_new []) \<and> reports r' = [] \<and> buffer r' = ascii ''rest''"
  using undefined_type_ends_log [of "ascii ''foo''"] by (simp add: ascii_def)

end
