(* ===== verification/Cache_heap.thy ===== *)
theory Cache_heap
  imports Slice Hash "HOL-Library.Monad_Syntax"
begin

text \<open>
  \<^verbatim>\<open>util/cache.cc\<close>, part 1: \<^verbatim>\<open>struct LRUHandle\<close> and the memory the cache works on.  The memory has one map per field;
  addresses are naturals, \<open>0\<close> is the null pointer and \<open>live\<close> holds the addresses of allocated handles and of
  the two list heads.  Reading or writing a field at an address that is not live yields \<open>None\<close>, as does a
  failed assertion.  The deleters that have run are recorded in \<open>deleted\<close>, with the key and the value they were given.
\<close>

record heap =
  live :: "nat set"
  handle_value :: "nat \<Rightarrow> nat"
  deleter :: "nat \<Rightarrow> nat"
  next_hash :: "nat \<Rightarrow> nat"
  next_ptr :: "nat \<Rightarrow> nat"
  prev_ptr :: "nat \<Rightarrow> nat"
  charge :: "nat \<Rightarrow> u64"
  key_data :: "nat \<Rightarrow> bytes"
  in_cache :: "nat \<Rightarrow> bool"
  refs :: "nat \<Rightarrow> u32"
  hash :: "nat \<Rightarrow> u32"
  deleted :: "(nat \<times> bytes \<times> nat) list"

definition rd :: "(('x heap_scheme) \<Rightarrow> nat \<Rightarrow> 'b) \<Rightarrow> nat \<Rightarrow> 'x heap_scheme \<Rightarrow> 'b option" where
  "rd f p s = (if p \<in> live s then Some (f s p) else None)"

definition set_next_hash :: "nat \<Rightarrow> nat \<Rightarrow> 'x heap_scheme \<Rightarrow> 'x heap_scheme option" where
  "set_next_hash p v s = (if p \<in> live s then Some (s\<lparr>next_hash := (next_hash s)(p := v)\<rparr>) else None)"

definition set_next :: "nat \<Rightarrow> nat \<Rightarrow> 'x heap_scheme \<Rightarrow> 'x heap_scheme option" where
  "set_next p v s = (if p \<in> live s then Some (s\<lparr>next_ptr := (next_ptr s)(p := v)\<rparr>) else None)"

definition set_prev :: "nat \<Rightarrow> nat \<Rightarrow> 'x heap_scheme \<Rightarrow> 'x heap_scheme option" where
  "set_prev p v s = (if p \<in> live s then Some (s\<lparr>prev_ptr := (prev_ptr s)(p := v)\<rparr>) else None)"

definition set_refs :: "nat \<Rightarrow> u32 \<Rightarrow> 'x heap_scheme \<Rightarrow> 'x heap_scheme option" where
  "set_refs p v s = (if p \<in> live s then Some (s\<lparr>refs := (refs s)(p := v)\<rparr>) else None)"

definition set_in_cache :: "nat \<Rightarrow> bool \<Rightarrow> 'x heap_scheme \<Rightarrow> 'x heap_scheme option" where
  "set_in_cache p v s = (if p \<in> live s then Some (s\<lparr>in_cache := (in_cache s)(p := v)\<rparr>) else None)"

lemmas access_defs = rd_def set_next_hash_def set_next_def set_prev_def set_refs_def set_in_cache_def

text \<open>\<^verbatim>\<open>LRUHandle::key\<close>, with its assertion.\<close>

definition LRUHandle_key :: "nat \<Rightarrow> 'x heap_scheme \<Rightarrow> bytes option" where
  "LRUHandle_key p s = do {
     n \<leftarrow> rd next_ptr p s;
     if n \<noteq> p then rd key_data p s else None }"

end
