(* ===== verification/Handle_table.thy ===== *)
theory Handle_table
  imports Cache_heap
begin

text \<open>
  \<^verbatim>\<open>util/cache.cc\<close>, part 2: \<^verbatim>\<open>class HandleTable\<close>.  A \<^verbatim>\<open>LRUHandle**\<close> is the address of a bucket or of a \<^verbatim>\<open>next_hash\<close>
  field.  The bucket array, its length and the number of entries are added to the memory.
\<close>

record handle_table = heap +
  buckets :: "nat list"
  table_length :: u32
  elems :: u32

datatype handle_ptr = Bucket nat | NextHash nat

definition load :: "handle_ptr \<Rightarrow> 'x handle_table_scheme \<Rightarrow> nat option" where
  "load ptr s = (case ptr of
       Bucket i \<Rightarrow> if i < length (buckets s) then Some (buckets s ! i) else None
     | NextHash a \<Rightarrow> rd next_hash a s)"

definition store :: "handle_ptr \<Rightarrow> nat \<Rightarrow> 'x handle_table_scheme \<Rightarrow> 'x handle_table_scheme option" where
  "store ptr v s = (case ptr of
       Bucket i \<Rightarrow> if i < length (buckets s) then Some (s\<lparr>buckets := (buckets s)[i := v]\<rparr>) else None
     | NextHash a \<Rightarrow> set_next_hash a v s)"

definition bucket_of :: "u32 \<Rightarrow> u32 \<Rightarrow> nat" where
  "bucket_of h len = unat (h AND (len - 1))"

partial_function (option) FindPointer_loop ::
    "bytes \<Rightarrow> u32 \<Rightarrow> handle_ptr \<Rightarrow> 'x handle_table_scheme \<Rightarrow> handle_ptr option" where
  "FindPointer_loop key h ptr s = do {
     p \<leftarrow> load ptr s;
     if p = 0 then Some ptr
     else do {
       ph \<leftarrow> rd hash p s;
       if ph \<noteq> h then FindPointer_loop key h (NextHash p) s
       else do {
         k \<leftarrow> LRUHandle_key p s;
         if \<not> Slice_eq key k then FindPointer_loop key h (NextHash p) s else Some ptr } } }"

definition FindPointer :: "bytes \<Rightarrow> u32 \<Rightarrow> 'x handle_table_scheme \<Rightarrow> handle_ptr option" where
  "FindPointer key h s = FindPointer_loop key h (Bucket (bucket_of h (table_length s))) s"

partial_function (option) grow :: "u32 \<Rightarrow> u32 \<Rightarrow> u32 option" where
  "grow new_length n = (if new_length < n then grow (new_length * 2) n else Some new_length)"

text \<open>The inner loop of \<^verbatim>\<open>Resize\<close>: the chain starting at \<open>h\<close> is moved to the new array.\<close>

partial_function (option) move_chain ::
    "nat \<Rightarrow> u32 \<Rightarrow> nat list \<Rightarrow> u32 \<Rightarrow> 'x handle_table_scheme \<Rightarrow> (nat list \<times> u32 \<times> 'x handle_table_scheme) option" where
  "move_chain h new_length new_list count s =
     (if h = 0 then Some (new_list, count, s)
      else do {
        nxt \<leftarrow> rd next_hash h s;
        hs \<leftarrow> rd hash h s;
        let i = bucket_of hs new_length;
        if i < length new_list then do {
          s \<leftarrow> set_next_hash h (new_list ! i) s;
          move_chain nxt new_length (new_list[i := h]) (count + 1) s }
        else None })"

fun move_buckets ::
    "nat list \<Rightarrow> u32 \<Rightarrow> nat list \<Rightarrow> u32 \<Rightarrow> 'x handle_table_scheme \<Rightarrow> (nat list \<times> u32 \<times> 'x handle_table_scheme) option" where
  "move_buckets [] new_length new_list count s = Some (new_list, count, s)"
| "move_buckets (h # hs) new_length new_list count s = do {
     (new_list, count, s) \<leftarrow> move_chain h new_length new_list count s;
     move_buckets hs new_length new_list count s }"

definition Resize :: "'x handle_table_scheme \<Rightarrow> 'x handle_table_scheme option" where
  "Resize s = do {
     new_length \<leftarrow> grow 4 (elems s);
     (new_list, count, s) \<leftarrow>
       move_buckets (take (unat (table_length s)) (buckets s)) new_length (replicate (unat new_length) 0) 0 s;
     if elems s = count then Some (s\<lparr>buckets := new_list, table_length := new_length\<rparr>) else None }"

definition table_Lookup :: "bytes \<Rightarrow> u32 \<Rightarrow> 'x handle_table_scheme \<Rightarrow> nat option" where
  "table_Lookup key h s = do {
     ptr \<leftarrow> FindPointer key h s;
     load ptr s }"

definition table_Insert :: "nat \<Rightarrow> 'x handle_table_scheme \<Rightarrow> (nat \<times> 'x handle_table_scheme) option" where
  "table_Insert h s = do {
     k \<leftarrow> LRUHandle_key h s;
     hs \<leftarrow> rd hash h s;
     ptr \<leftarrow> FindPointer k hs s;
     old \<leftarrow> load ptr s;
     nxt \<leftarrow> (if old = 0 then Some 0 else rd next_hash old s);
     s \<leftarrow> set_next_hash h nxt s;
     s \<leftarrow> store ptr h s;
     if old = 0 then
       let s = s\<lparr>elems := elems s + 1\<rparr> in
       if elems s > table_length s then map_option (Pair old) (Resize s) else Some (old, s)
     else Some (old, s) }"

definition table_Remove :: "bytes \<Rightarrow> u32 \<Rightarrow> 'x handle_table_scheme \<Rightarrow> (nat \<times> 'x handle_table_scheme) option" where
  "table_Remove key h s = do {
     ptr \<leftarrow> FindPointer key h s;
     result \<leftarrow> load ptr s;
     if result \<noteq> 0 then do {
       nxt \<leftarrow> rd next_hash result s;
       s \<leftarrow> store ptr nxt s;
       Some (result, s\<lparr>elems := elems s - 1\<rparr>) }
     else Some (result, s) }"

section \<open>Chains\<close>

text \<open>\<open>hseg nh p xs q\<close>: following \<^verbatim>\<open>next_hash\<close> from \<open>p\<close> leads through \<open>xs\<close> to \<open>q\<close>.\<close>

primrec hseg :: "(nat \<Rightarrow> nat) \<Rightarrow> nat \<Rightarrow> nat list \<Rightarrow> nat \<Rightarrow> bool" where
  "hseg nh p [] q \<longleftrightarrow> p = q"
| "hseg nh p (x # xs) q \<longleftrightarrow> p = x \<and> x \<noteq> 0 \<and> hseg nh (nh x) xs q"

lemma hseg_append: "hseg nh p (xs @ ys) q \<longleftrightarrow> (\<exists>m. hseg nh p xs m \<and> hseg nh m ys q)"
  by (induction xs arbitrary: p) auto

lemma hseg_fun_upd [simp]: "a \<notin> set xs \<Longrightarrow> hseg (nh(a := v)) p xs q = hseg nh p xs q"
  by (induction xs arbitrary: p) auto

lemma hseg_redirect: "hseg nh p xs q \<Longrightarrow> distinct xs \<Longrightarrow> xs \<noteq> [] \<Longrightarrow> hseg (nh(last xs := v)) p xs v"
proof (induction xs arbitrary: p)
  case (Cons x xs)
  then show ?case by (cases "xs = []") auto
qed simp

text \<open>Where the search in a chain stops: at the first matching handle, or at the end.\<close>

definition matches :: "'x heap_scheme \<Rightarrow> bytes \<Rightarrow> u32 \<Rightarrow> nat \<Rightarrow> bool" where
  "matches s key h x \<longleftrightarrow> hash s x = h \<and> key_data s x = key"

definition ptr_after :: "handle_ptr \<Rightarrow> nat list \<Rightarrow> handle_ptr" where
  "ptr_after ptr xs = (if xs = [] then ptr else NextHash (last xs))"

lemma ptr_after_Cons [simp]: "ptr_after ptr (x # xs) = ptr_after (NextHash x) xs"
  by (simp add: ptr_after_def)

lemma load_ptr_after:
  "load ptr s = Some p \<Longrightarrow> hseg (next_hash s) p xs q \<Longrightarrow> set xs \<subseteq> live s \<Longrightarrow> load (ptr_after ptr xs) s = Some q"
proof (induction xs arbitrary: ptr p)
  case (Cons x xs)
  then have "load (ptr_after (NextHash x) xs) s = Some q" by (intro Cons.IH) (auto simp: load_def rd_def)
  then show ?case by simp
qed (simp add: ptr_after_def)

definition head0 :: "nat list \<Rightarrow> nat" where
  "head0 xs = (case xs of [] \<Rightarrow> 0 | x # _ \<Rightarrow> x)"

lemma FindPointer_chain:
  assumes "load ptr s = Some p" "hseg (next_hash s) p (xs @ ys) 0" "set (xs @ ys) \<subseteq> live s"
    and "\<forall>x\<in>set (xs @ ys). next_ptr s x \<noteq> x" "\<forall>x\<in>set xs. \<not> matches s key h x"
    and "ys = [] \<or> matches s key h (hd ys)"
  shows "FindPointer_loop key h ptr s = Some (ptr_after ptr xs)"
  using assms
proof (induction xs arbitrary: ptr p)
  case Nil
  then show ?case
    by (subst FindPointer_loop.simps, cases ys)
      (auto simp: ptr_after_def rd_def LRUHandle_key_def matches_def)
next
  case (Cons x xs)
  then have p: "p = x" "x \<noteq> 0" "x \<in> live s" "next_ptr s x \<noteq> x" "\<not> matches s key h x" by auto
  have "FindPointer_loop key h (NextHash x) s = Some (ptr_after (NextHash x) xs)"
    using Cons.prems by (intro Cons.IH) (auto simp: load_def rd_def)
  then show ?case
    using p Cons.prems(1) by (subst FindPointer_loop.simps) (auto simp: rd_def LRUHandle_key_def matches_def)
qed

definition spliced :: "nat \<Rightarrow> nat list \<Rightarrow> nat \<Rightarrow> 'x handle_table_scheme \<Rightarrow> 'x handle_table_scheme" where
  "spliced i xs v s = (if xs = [] then s\<lparr>buckets := (buckets s)[i := v]\<rparr> else s\<lparr>next_hash := (next_hash s)(last xs := v)\<rparr>)"

lemma store_ptr_after:
  assumes "i < length (buckets s)" "hseg (next_hash s) (buckets s ! i) xs q" "set xs \<subseteq> live s" "distinct xs"
  shows "store (ptr_after (Bucket i) xs) v s = Some (spliced i xs v s)"
    and "hseg (next_hash (spliced i xs v s)) (buckets (spliced i xs v s) ! i) xs v"
proof -
  have "last xs \<in> live s" if "xs \<noteq> []" using that assms(3) by auto
  then show "store (ptr_after (Bucket i) xs) v s = Some (spliced i xs v s)"
    using assms(1) by (simp add: store_def ptr_after_def set_next_hash_def spliced_def)
  show "hseg (next_hash (spliced i xs v s)) (buckets (spliced i xs v s) ! i) xs v"
    using assms(1) hseg_redirect [OF assms(2,4)] by (simp add: spliced_def)
qed

lemma spliced_same:
  "hash (spliced i xs v s) = hash s" "live (spliced i xs v s) = live s" "table_length (spliced i xs v s) = table_length s"
  "length (buckets (spliced i xs v s)) = length (buckets s)"
  "spliced i xs v s = s\<lparr>next_hash := next_hash (spliced i xs v s), buckets := buckets (spliced i xs v s)\<rparr>"
  "a \<notin> set xs \<Longrightarrow> next_hash (spliced i xs v s) a = next_hash s a"
  "j \<noteq> i \<Longrightarrow> buckets (spliced i xs v s) ! j = buckets s ! j"
  by (auto simp: spliced_def)

lemma hseg_cong: "\<forall>x\<in>set xs. nh x = nh' x \<Longrightarrow> hseg nh p xs q = hseg nh' p xs q"
  by (induction xs arbitrary: p) auto

section \<open>The table\<close>

definition entries :: "nat \<Rightarrow> (nat \<Rightarrow> nat list) \<Rightarrow> nat set" where
  "entries n bs = (\<Union>i<n. set (bs i))"

text \<open>The well-formed table with the chains \<open>bs\<close>.\<close>

definition chains_ok :: "'x handle_table_scheme \<Rightarrow> (nat \<Rightarrow> nat list) \<Rightarrow> bool" where
  "chains_ok s bs \<longleftrightarrow>
     0 < table_length s \<and> length (buckets s) = unat (table_length s) \<and>
     (\<forall>i < length (buckets s). hseg (next_hash s) (buckets s ! i) (bs i) 0 \<and> distinct (bs i) \<and>
        (\<forall>x\<in>set (bs i). bucket_of (hash s x) (table_length s) = i)) \<and>
     entries (length (buckets s)) bs \<subseteq> live s"

definition table_ok :: "'x handle_table_scheme \<Rightarrow> (nat \<Rightarrow> nat list) \<Rightarrow> bool" where
  [inv_simps]: "table_ok s bs \<longleftrightarrow> chains_ok s bs \<and>
     inj_on (\<lambda>x. (hash s x, key_data s x)) (entries (length (buckets s)) bs) \<and>
     elems s = of_nat (card (entries (length (buckets s)) bs))"

abbreviation table_entries :: "'x handle_table_scheme \<Rightarrow> (nat \<Rightarrow> nat list) \<Rightarrow> nat set" where
  "table_entries s bs \<equiv> entries (length (buckets s)) bs"

definition keyable :: "'x heap_scheme \<Rightarrow> nat set \<Rightarrow> bool" where
  "keyable s E \<longleftrightarrow> (\<forall>x\<in>E. next_ptr s x \<noteq> x)"

lemma bucket_of_less: "0 < len \<Longrightarrow> bucket_of h len < unat len"
proof -
  assume "0 < len"
  then have "unat (len - 1) < unat len" by (simp add: unat_minus_one word_gt_0 unat_gt_0)
  moreover have "unat (h AND (len - 1)) \<le> unat (len - 1)" by (simp add: word_and_le1 flip: word_le_nat_alt)
  ultimately show ?thesis by (simp add: bucket_of_def)
qed

lemma finite_entries [simp]: "finite (entries n bs)"
  by (simp add: entries_def)

lemma hseg_nonzero: "hseg nh p xs q \<Longrightarrow> x \<in> set xs \<Longrightarrow> x \<noteq> 0"
  by (induction xs arbitrary: p) auto

lemma hseg_head0: "hseg nh p (xs @ ys) 0 \<Longrightarrow> hseg nh p xs (head0 ys)"
  by (cases ys) (auto simp: hseg_append head0_def)

lemma entries_nonzero: "chains_ok s bs \<Longrightarrow> 0 \<notin> table_entries s bs"
  by (auto simp: chains_ok_def entries_def dest: hseg_nonzero)

lemma entry_bucket:
  assumes "chains_ok s bs" "x \<in> table_entries s bs"
  shows "x \<in> set (bs (bucket_of (hash s x) (table_length s)))"
  using assms by (auto simp: chains_ok_def entries_def)

lemma chains_okD:
  assumes "chains_ok s bs" "i < length (buckets s)"
  shows "hseg (next_hash s) (buckets s ! i) (bs i) 0" "distinct (bs i)" "set (bs i) \<subseteq> live s"
    "\<And>x. x \<in> set (bs i) \<Longrightarrow> bucket_of (hash s x) (table_length s) = i" "set (bs i) \<subseteq> table_entries s bs"
  using assms unfolding chains_ok_def entries_def by blast+

lemma entries_live: "chains_ok s bs \<Longrightarrow> table_entries s bs \<subseteq> live s"
  unfolding chains_ok_def by blast

lemma table_find:
  assumes "chains_ok s bs" "keyable s (table_entries s bs)"
  obtains xs ys where "bs (bucket_of h (table_length s)) = xs @ ys" "bucket_of h (table_length s) < length (buckets s)"
    "FindPointer key h s = Some (ptr_after (Bucket (bucket_of h (table_length s))) xs)"
    "load (ptr_after (Bucket (bucket_of h (table_length s))) xs) s = Some (head0 ys)"
    "ys = [] \<longrightarrow> (\<forall>x\<in>table_entries s bs. \<not> matches s key h x)" "ys \<noteq> [] \<longrightarrow> matches s key h (head0 ys)"
proof -
  let ?i = "bucket_of h (table_length s)"
  define xs ys where "xs = takeWhile (\<lambda>x. \<not> matches s key h x) (bs ?i)" and "ys = dropWhile (\<lambda>x. \<not> matches s key h x) (bs ?i)"
  have split: "bs ?i = xs @ ys" by (simp add: xs_def ys_def)
  have i: "?i < length (buckets s)" using assms(1) bucket_of_less [of "table_length s" h] by (simp add: chains_ok_def)
  then have sub: "set (bs ?i) \<subseteq> table_entries s bs" by (auto simp: entries_def)
  have hseg: "hseg (next_hash s) (buckets s ! ?i) (xs @ ys) 0" using assms(1) i split by (auto simp: chains_ok_def)
  have live: "set (xs @ ys) \<subseteq> live s" and key: "\<forall>x\<in>set (xs @ ys). next_ptr s x \<noteq> x"
    using assms(2) sub chains_okD(3) [OF assms(1) i] unfolding split by (auto simp: keyable_def)
  have ld: "load (Bucket ?i) s = Some (buckets s ! ?i)" using i by (simp add: load_def)
  have no: "\<forall>x\<in>set xs. \<not> matches s key h x" by (auto simp: xs_def dest: set_takeWhileD)
  have yes: "matches s key h (hd ys)" if "ys \<noteq> []" using that hd_dropWhile [of "\<lambda>x. \<not> matches s key h x" "bs ?i"] by (auto simp: ys_def)
  have "FindPointer key h s = Some (ptr_after (Bucket ?i) xs)"
    unfolding FindPointer_def using FindPointer_chain [OF ld hseg live key no] yes by blast
  moreover have "load (ptr_after (Bucket ?i) xs) s = Some (head0 ys)"
    using load_ptr_after [OF ld hseg_head0 [OF hseg]] live by simp
  moreover have "\<forall>x\<in>table_entries s bs. \<not> matches s key h x" if "ys = []"
    using no entry_bucket [OF assms(1)] split that by (auto simp: matches_def)
  ultimately show ?thesis using that [OF split i] yes by (cases ys) (auto simp: head0_def)
qed

text \<open>Operations change the chains, the array and the counters only.\<close>

definition table_frame :: "'x handle_table_scheme \<Rightarrow> 'x handle_table_scheme \<Rightarrow> bool" where
  "table_frame s s' \<longleftrightarrow> s' = s\<lparr>next_hash := next_hash s', buckets := buckets s', table_length := table_length s', elems := elems s'\<rparr>"

lemma table_frameD:
  assumes "table_frame s s'"
  shows "live s' = live s" "hash s' = hash s" "key_data s' = key_data s" "next_ptr s' = next_ptr s" "prev_ptr s' = prev_ptr s"
    "refs s' = refs s" "in_cache s' = in_cache s" "charge s' = charge s" "handle_value s' = handle_value s"
    "deleter s' = deleter s" "deleted s' = deleted s" "handle_table.more s' = handle_table.more s"
  using assms by (subst assms [unfolded table_frame_def], simp)+

lemma table_frame_trans: "table_frame s s1 \<Longrightarrow> table_frame s1 s2 \<Longrightarrow> table_frame s s2"
  unfolding table_frame_def by (cases s; cases s1; cases s2) simp

lemma keyable_frame: "table_frame s s' \<Longrightarrow> keyable s' E = keyable s E"
  by (simp add: keyable_def table_frameD)

lemma matches_frame: "table_frame s s' \<Longrightarrow> matches s' = matches s"
  by (simp add: matches_def table_frameD fun_eq_iff)

lemma table_frame_elems: "table_frame s s' \<Longrightarrow> table_frame s (s'\<lparr>elems := n\<rparr>)"
  unfolding table_frame_def by (cases s; cases s') simp

lemma table_frame_self [simp]: "table_frame s (s\<lparr>next_hash := nh\<rparr>)" "table_frame s s" "table_frame s (s\<lparr>next_hash := nh, buckets := b\<rparr>)"
  "table_frame s (s\<lparr>elems := n\<rparr>)" "table_frame s (s\<lparr>buckets := b, table_length := l\<rparr>)"
  by (simp_all add: table_frame_def)

lemma splice_ok:
  fixes s :: "'x handle_table_scheme"
  assumes ok: "chains_ok s bs" and i: "i < length (buckets s)" and split: "bs i = xs @ ys"
    and nh: "\<forall>x\<in>table_entries s bs. nh x = next_hash s x"
    and zs: "hseg nh v zs 0" "distinct zs" "set xs \<inter> set zs = {}" "set zs \<subseteq> live s"
      "\<forall>z\<in>set zs. bucket_of (hash s z) (table_length s) = i"
  shows "\<exists>s'. store (ptr_after (Bucket i) xs) v (s\<lparr>next_hash := nh\<rparr>) = Some s' \<and> chains_ok s' (bs(i := xs @ zs)) \<and>
    table_frame s s' \<and> length (buckets s') = length (buckets s) \<and> elems s' = elems s \<and> table_length s' = table_length s"
proof -
  have sub: "set (bs j) \<subseteq> table_entries s bs" if "j < length (buckets s)" for j using that by (auto simp: entries_def)
  have seg_nh: "hseg nh p (bs j) q = hseg (next_hash s) p (bs j) q" if "j < length (buckets s)" for j p q
    using nh sub [OF that] by (intro hseg_cong) blast
  have "hseg nh (buckets s ! i) (xs @ ys) 0" using chains_okD(1) [OF ok i] seg_nh [OF i] split by simp
  then have sx: "hseg nh (buckets s ! i) xs (head0 ys)" by (rule hseg_head0)
  have xs: "set xs \<subseteq> live s" "distinct xs" "\<forall>x\<in>set xs. bucket_of (hash s x) (table_length s) = i"
    using chains_okD(2-4) [OF ok i] split by auto
  let ?s1 = "s\<lparr>next_hash := nh\<rparr>"
  define s' where "s' = spliced i xs v ?s1"
  have st: "store (ptr_after (Bucket i) xs) v ?s1 = Some s'" "hseg (next_hash s') (buckets s' ! i) xs v"
    using store_ptr_after [of i ?s1 xs "head0 ys" v] i sx xs by (simp_all add: s'_def)
  have "\<forall>z\<in>set zs. next_hash s' z = nh z" using zs(3) spliced_same(6) [of _ xs i v ?s1] by (auto simp: s'_def)
  then have zseg: "hseg (next_hash s') v zs 0" using zs(1) hseg_cong by metis
  have other: "hseg (next_hash s') (buckets s' ! j) (bs j) 0" if "j < length (buckets s)" "j \<noteq> i" for j
  proof -
    have "set xs \<inter> set (bs j) = {}" using xs(3) chains_okD(4) [OF ok that(1)] that(2) by blast
    then have "hseg (next_hash s') (buckets s ! j) (bs j) 0 = hseg nh (buckets s ! j) (bs j) 0"
      using spliced_same(6) [of _ xs i v ?s1] by (intro hseg_cong) (auto simp: s'_def)
    then show ?thesis
      using seg_nh [OF that(1)] chains_okD(1) [OF ok that(1)] spliced_same(7) [OF that(2), of xs v ?s1] by (simp add: s'_def)
  qed
  have seg_i: "hseg (next_hash s') (buckets s' ! i) (xs @ zs) 0"
    using st(2) zseg by (auto simp: hseg_append)
  have "entries (length (buckets s)) (bs(i := xs @ zs)) \<subseteq> live s"
  proof -
    have "set (bs j) \<subseteq> live s" if "j < length (buckets s)" for j by (rule chains_okD(3) [OF ok that])
    then have "set ((bs(i := xs @ zs)) j) \<subseteq> live s" if "j < length (buckets s)" for j
      using xs(1) zs(4) that by simp
    then show ?thesis unfolding entries_def by blast
  qed
  moreover have "\<forall>j < length (buckets s). hseg (next_hash s') (buckets s' ! j) ((bs(i := xs @ zs)) j) 0 \<and>
      distinct ((bs(i := xs @ zs)) j) \<and> (\<forall>x\<in>set ((bs(i := xs @ zs)) j). bucket_of (hash s x) (table_length s) = j)"
    using other seg_i chains_okD(2,4) [OF ok] xs zs(2,3,5) by auto
  moreover have "0 < table_length s" "length (buckets s) = unat (table_length s)" using ok by (simp_all add: chains_ok_def)
  ultimately have "chains_ok s' (bs(i := xs @ zs))"
    using spliced_same(1-4) [of i xs v ?s1] by (simp add: chains_ok_def s'_def)
  moreover have "table_frame s s'" "elems s' = elems s" by (auto simp: s'_def spliced_def table_frame_def)
  ultimately show ?thesis using st(1) spliced_same(3) [of i xs v ?s1] spliced_same(4) [of i xs v ?s1] by (auto simp: s'_def)
qed

lemma entries_upd:
  assumes "chains_ok s bs" "i < length (buckets s)"
  shows "entries (length (buckets s)) (bs(i := zs)) = table_entries s bs - set (bs i) \<union> set zs"
proof -
  have disj: "j = i" if "j < length (buckets s)" "x \<in> set (bs j)" "x \<in> set (bs i)" for j x
    using that chains_okD(4) [OF assms(1) that(1)] chains_okD(4) [OF assms] by metis
  show ?thesis
  proof (intro set_eqI iffI)
    fix x assume "x \<in> entries (length (buckets s)) (bs(i := zs))"
    then show "x \<in> table_entries s bs - set (bs i) \<union> set zs" using disj by (auto simp: entries_def split: if_splits)
  next
    fix x assume "x \<in> table_entries s bs - set (bs i) \<union> set zs"
    then show "x \<in> entries (length (buckets s)) (bs(i := zs))" using assms(2) by (auto simp: entries_def)
  qed
qed

lemma chains_ok_elems [simp]: "chains_ok (s\<lparr>elems := n\<rparr>) bs = chains_ok s bs"
  by (simp add: chains_ok_def)

lemma table_Lookup_ok:
  assumes "chains_ok s bs" "keyable s (table_entries s bs)"
  obtains x where "table_Lookup key h s = Some x"
    "if x = 0 then \<forall>y\<in>table_entries s bs. \<not> matches s key h y else x \<in> table_entries s bs \<and> matches s key h x"
proof -
  obtain xs ys where f: "bs (bucket_of h (table_length s)) = xs @ ys" "bucket_of h (table_length s) < length (buckets s)"
    "FindPointer key h s = Some (ptr_after (Bucket (bucket_of h (table_length s))) xs)"
    "load (ptr_after (Bucket (bucket_of h (table_length s))) xs) s = Some (head0 ys)"
    "ys = [] \<longrightarrow> (\<forall>x\<in>table_entries s bs. \<not> matches s key h x)" "ys \<noteq> [] \<longrightarrow> matches s key h (head0 ys)"
    by (rule table_find [OF assms, where key = key and h = h])
  have "table_Lookup key h s = Some (head0 ys)" by (simp add: table_Lookup_def f(3,4))
  moreover have "head0 ys \<in> table_entries s bs" "head0 ys \<noteq> 0" if "ys \<noteq> []"
  proof -
    from that have "head0 ys \<in> set (bs (bucket_of h (table_length s)))" by (cases ys) (auto simp: f(1) head0_def)
    then show "head0 ys \<in> table_entries s bs" using chains_okD(5) [OF assms(1) f(2)] by blast
    then show "head0 ys \<noteq> 0" using entries_nonzero [OF assms(1)] by metis
  qed
  ultimately show ?thesis using that [of "head0 ys"] f(5,6) by (cases "ys = []") (auto simp: head0_def)
qed

lemma inj_match:
  assumes "inj_on (\<lambda>x. (hash s x, key_data s x)) E" "x \<in> E" "y \<in> E" "matches s key h x" "matches s key h y"
  shows "x = y"
  using assms by (auto simp: matches_def dest: inj_onD)

lemma table_Remove_ok:
  assumes ok: "table_ok s bs" and key: "keyable s (table_entries s bs)"
  obtains x s' bs' where "table_Remove key h s = Some (x, s')" "table_ok s' bs'" "table_frame s s'"
    "table_entries s' bs' = table_entries s bs - {x}"
    "if x = 0 then \<forall>y\<in>table_entries s bs. \<not> matches s key h y else x \<in> table_entries s bs \<and> matches s key h x"
proof -
  have ch: "chains_ok s bs" using ok by (simp add: table_ok_def)
  let ?i = "bucket_of h (table_length s)"
  obtain xs ys where f: "bs ?i = xs @ ys" "?i < length (buckets s)"
    "FindPointer key h s = Some (ptr_after (Bucket ?i) xs)" "load (ptr_after (Bucket ?i) xs) s = Some (head0 ys)"
    "ys = [] \<longrightarrow> (\<forall>x\<in>table_entries s bs. \<not> matches s key h x)" "ys \<noteq> [] \<longrightarrow> matches s key h (head0 ys)"
    by (rule table_find [OF ch key, where key = key and h = h])
  show ?thesis
  proof (cases ys)
    case Nil
    then show ?thesis
      using that [of 0 s bs] f ok entries_nonzero [OF ch] by (simp add: table_Remove_def head0_def table_frame_def)
  next
    case (Cons x cs)
    note c = chains_okD [OF ch f(2)]
    have x1: "x \<in> table_entries s bs" "x \<in> live s" "matches s key h x"
      using c(3,5) f(1,6) Cons by (auto simp: head0_def)
    then have "x \<noteq> 0" using entries_nonzero [OF ch] by metis
    note x = x1(1,2) this x1(3)
    have "hseg (next_hash s) (next_hash s x) cs 0" using c(1) by (auto simp: f(1) Cons hseg_append)
    moreover have "distinct cs" "set xs \<inter> set cs = {}" "set cs \<subseteq> live s" using c(2,3) by (auto simp: f(1) Cons)
    moreover have "\<forall>z\<in>set cs. bucket_of (hash s z) (table_length s) = ?i" using c(4) by (auto simp: f(1) Cons)
    ultimately obtain s1 where s1: "store (ptr_after (Bucket ?i) xs) (next_hash s x) (s\<lparr>next_hash := next_hash s\<rparr>) = Some s1"
      "chains_ok s1 (bs(?i := xs @ cs))" "table_frame s s1" "length (buckets s1) = length (buckets s)" "elems s1 = elems s"
      using splice_ok [OF ch f(2,1), of "next_hash s" "next_hash s x" cs] by blast
    define s2 where "s2 = s1\<lparr>elems := elems s1 - 1\<rparr>"
    have E: "entries (length (buckets s)) (bs(?i := xs @ cs)) = table_entries s bs - {x}"
      using entries_upd [OF ch f(2)] c(2,5) by (auto simp: f(1) Cons)
    have "chains_ok s2 (bs(?i := xs @ cs))" using s1(2) by (simp add: s2_def)
    moreover have "hash s2 = hash s" "key_data s2 = key_data s" "elems s2 = elems s - 1" "table_frame s s2"
      using s1(5) table_frameD [OF s1(3)] table_frame_elems [OF s1(3)] by (simp_all add: s2_def)
    moreover have "length (buckets s2) = length (buckets s)" using s1(4) by (simp add: s2_def)
    moreover have "card (table_entries s bs - {x}) + 1 = card (table_entries s bs)" using x(1) card_Suc_Diff1 [OF finite_entries x(1)] by simp
    then have "(of_nat (card (table_entries s bs)) :: u32) - 1 = of_nat (card (table_entries s bs - {x}))"
      by (metis add_diff_cancel_right' of_nat_1 of_nat_add)
    ultimately have "table_ok s2 (bs(?i := xs @ cs))" "table_entries s2 (bs(?i := xs @ cs)) = table_entries s bs - {x}"
      using ok E by (auto simp: table_ok_def intro: inj_on_subset)
    moreover have "table_Remove key h s = Some (x, s2)"
      using f(3,4) s1(1) x by (simp add: table_Remove_def Cons head0_def rd_def s2_def)
    ultimately show ?thesis using that [of x s2] x \<open>table_frame s s2\<close> by simp
  qed
qed

section \<open>Resizing\<close>

lemma grow_ok:
  assumes "k \<le> 31" "unat n \<le> 2 ^ 31"
  shows "\<exists>m. grow (2 ^ k) n = Some m \<and> 0 < m"
  using assms
proof (induction "31 - k" arbitrary: k)
  case 0
  then have "unat (2 ^ k :: u32) = 2 ^ 31" by simp
  then have "\<not> 2 ^ k < n" using "0.prems" by (simp add: word_less_nat_alt)
  moreover have "0 < (2 ^ k :: u32)" using 0 by simp
  ultimately show ?case by (subst grow.simps) auto
next
  case (Suc d)
  show ?case
  proof (cases "2 ^ k < n")
    case True
    have "grow (2 ^ k) n = grow (2 ^ Suc k) n" using True by (subst grow.simps) (simp add: mult.commute)
    then show ?thesis using Suc by (metis Suc_diff_Suc diff_Suc_Suc diff_diff_cancel diff_le_self le_antisym not_less_eq_eq)
  next
    case False
    have "0 < (2 ^ k :: u32)" using Suc.prems(1) by (simp add: word_gt_0 exp_eq_zero_iff)
    then show ?thesis using False by (subst grow.simps) auto
  qed
qed

text \<open>The new array during \<^verbatim>\<open>Resize\<close>.\<close>

definition array_ok :: "(nat \<Rightarrow> nat) \<Rightarrow> (nat \<Rightarrow> u32) \<Rightarrow> u32 \<Rightarrow> nat list \<Rightarrow> (nat \<Rightarrow> nat list) \<Rightarrow> bool" where
  "array_ok nh hsh len nl cs \<longleftrightarrow> 0 < len \<and> length nl = unat len \<and>
     (\<forall>i < length nl. hseg nh (nl ! i) (cs i) 0 \<and> distinct (cs i) \<and> (\<forall>x\<in>set (cs i). bucket_of (hsh x) len = i))"

lemma chains_array: "chains_ok s bs \<longleftrightarrow>
    array_ok (next_hash s) (hash s) (table_length s) (buckets s) bs \<and> table_entries s bs \<subseteq> live s"
  by (auto simp: chains_ok_def array_ok_def)

definition only_moved :: "'x handle_table_scheme \<Rightarrow> 'x handle_table_scheme \<Rightarrow> nat set \<Rightarrow> bool" where
  "only_moved s s' A \<longleftrightarrow> s' = s\<lparr>next_hash := next_hash s'\<rparr> \<and> (\<forall>a. a \<notin> A \<longrightarrow> next_hash s' a = next_hash s a)"

lemma only_moved_trans: "only_moved s s1 A \<Longrightarrow> only_moved s1 s2 B \<Longrightarrow> only_moved s s2 (A \<union> B)"
  unfolding only_moved_def by (cases s; cases s1; cases s2) auto

lemma only_movedD:
  assumes "only_moved s s' A"
  shows "live s' = live s" "hash s' = hash s" "elems s' = elems s" "table_frame s s'"
    "\<And>a. a \<notin> A \<Longrightarrow> next_hash s' a = next_hash s a"
proof -
  have e: "s' = s\<lparr>next_hash := next_hash s'\<rparr>" using assms by (simp add: only_moved_def)
  show "live s' = live s" by (subst e) simp
  show "hash s' = hash s" by (subst e) simp
  show "elems s' = elems s" by (subst e) simp
  show "table_frame s s'" by (subst e) simp
qed (use assms in \<open>auto simp: only_moved_def\<close>)

lemma move_chain_ok:
  assumes "hseg (next_hash s) h xs 0" "distinct xs" "set xs \<subseteq> live s" "array_ok (next_hash s) (hash s) len nl cs"
    and "set xs \<inter> entries (length nl) cs = {}"
  shows "\<exists>nl' cs' s'. move_chain h len nl c s = Some (nl', c + of_nat (length xs), s') \<and> only_moved s s' (set xs) \<and>
      array_ok (next_hash s') (hash s) len nl' cs' \<and> length nl' = length nl \<and>
      entries (length nl) cs' = entries (length nl) cs \<union> set xs"
  using assms
proof (induction xs arbitrary: h nl cs c s)
  case Nil
  then show ?case by (subst move_chain.simps) (auto simp: only_moved_def)
next
  case (Cons x xs)
  then have h: "h = x" "x \<noteq> 0" "x \<in> live s" "hseg (next_hash s) (next_hash s x) xs 0" by auto
  let ?i = "bucket_of (hash s x) len"
  let ?s = "s\<lparr>next_hash := (next_hash s)(x := nl ! ?i)\<rparr>"
  let ?nl = "nl[?i := x]" and ?cs = "cs(?i := x # cs ?i)"
  have i: "?i < length nl" using Cons.prems(4) bucket_of_less by (simp add: array_ok_def)
  have fresh: "x \<notin> set (cs j)" if "j < length nl" for j using Cons.prems(5) that by (auto simp: entries_def)
  have arr: "array_ok (next_hash ?s) (hash ?s) len ?nl ?cs"
    unfolding array_ok_def
  proof (intro conjI allI impI)
    fix j assume "j < length ?nl"
    then have j: "j < length nl" by simp
    with Cons.prems(4) have a: "hseg (next_hash s) (nl ! j) (cs j) 0" "distinct (cs j)" "\<forall>y\<in>set (cs j). bucket_of (hash s y) len = j"
      by (simp_all add: array_ok_def)
    show "hseg (next_hash ?s) (?nl ! j) (?cs j) 0" using a(1) fresh [OF j] h(2) i by (cases "j = ?i") auto
    show "distinct (?cs j)" using a(2) fresh [OF j] by auto
    show "\<forall>y\<in>set (?cs j). bucket_of (hash ?s y) len = j" using a(3) by auto
  qed (use Cons.prems(4) in \<open>auto simp: array_ok_def\<close>)
  have ent: "entries (length nl) ?cs = insert x (entries (length nl) cs)" using i by (auto simp: entries_def split: if_splits)
  have step: "move_chain h len nl c s = move_chain (next_hash s x) len ?nl (c + 1) ?s"
    using h i by (subst move_chain.simps) (simp add: rd_def set_next_hash_def Let_def)
  have moved: "only_moved s ?s {x}" by (simp add: only_moved_def)
  have hseg': "hseg (next_hash ?s) (next_hash s x) xs 0" "distinct xs" "set xs \<subseteq> live ?s"
    "set xs \<inter> entries (length ?nl) ?cs = {}"
    using h(4) Cons.prems(2,3,5) ent by auto
  obtain nl' cs' s' where "move_chain (next_hash s x) len ?nl (c + 1) ?s = Some (nl', c + 1 + of_nat (length xs), s')"
    "only_moved ?s s' (set xs)" "array_ok (next_hash s') (hash s) len nl' cs'" "length nl' = length nl"
    "entries (length nl) cs' = insert x (entries (length nl) cs) \<union> set xs"
    using Cons.IH [OF hseg'(1-3) arr hseg'(4), of "c + 1", unfolded length_list_update ent] by auto
  then show ?case
    using only_moved_trans [OF moved, of s' "set xs"]
    by (intro exI [of _ nl'] exI [of _ cs'] exI [of _ s']) (simp add: step algebra_simps)
qed

lemma move_buckets_ok:
  assumes "list_all2 (\<lambda>h b. hseg (next_hash s) h b 0) hs bl" "distinct (concat bl)" "set (concat bl) \<subseteq> live s"
    and "array_ok (next_hash s) (hash s) len nl cs" "set (concat bl) \<inter> entries (length nl) cs = {}"
  shows "\<exists>nl' cs' s'. move_buckets hs len nl c s = Some (nl', c + of_nat (length (concat bl)), s') \<and>
      only_moved s s' (set (concat bl)) \<and> array_ok (next_hash s') (hash s) len nl' cs' \<and> length nl' = length nl \<and>
      entries (length nl) cs' = entries (length nl) cs \<union> set (concat bl)"
  using assms
proof (induction hs arbitrary: bl nl cs c s)
  case Nil
  then show ?case by (auto simp: only_moved_def)
next
  case (Cons h hs)
  then obtain b bl' where bl: "bl = b # bl'" "hseg (next_hash s) h b 0" "list_all2 (\<lambda>h b. hseg (next_hash s) h b 0) hs bl'"
    by (auto simp: list_all2_Cons1)
  have b: "distinct b" "set b \<subseteq> live s" "set b \<inter> entries (length nl) cs = {}" "set b \<inter> set (concat bl') = {}"
    "distinct (concat bl')" "set (concat bl') \<subseteq> live s" "set (concat bl') \<inter> entries (length nl) cs = {}"
    using Cons.prems by (auto simp: bl)
  obtain nl1 cs1 s1 where 1: "move_chain h len nl c s = Some (nl1, c + of_nat (length b), s1)" "only_moved s s1 (set b)"
    "array_ok (next_hash s1) (hash s) len nl1 cs1" "length nl1 = length nl"
    "entries (length nl) cs1 = entries (length nl) cs \<union> set b"
    using move_chain_ok [OF bl(2) b(1,2) Cons.prems(4) b(3), of c] by blast
  note m = only_movedD [OF 1(2)]
  have "hseg (next_hash s1) p b' q = hseg (next_hash s) p b' q" if "b' \<in> set bl'" for p b' q
    using that b(4) m(5) by (intro hseg_cong) auto
  then have segs: "list_all2 (\<lambda>h b. hseg (next_hash s1) h b 0) hs bl'"
    by (intro list.rel_mono_strong [OF bl(3)]) simp
  have pre: "array_ok (next_hash s1) (hash s1) len nl1 cs1" "set (concat bl') \<subseteq> live s1"
    unfolding m(1,2) by (fact 1(3), fact b(6))
  have disj: "set (concat bl') \<inter> entries (length nl1) cs1 = {}"
    unfolding 1(4,5) using b(4,7) by blast
  obtain nl2 cs2 s2 where 2: "move_buckets hs len nl1 (c + of_nat (length b)) s1 =
      Some (nl2, c + of_nat (length b) + of_nat (length (concat bl')), s2)" "only_moved s1 s2 (set (concat bl'))"
    "array_ok (next_hash s2) (hash s1) len nl2 cs2" "length nl2 = length nl1"
    "entries (length nl1) cs2 = entries (length nl1) cs1 \<union> set (concat bl')"
    using Cons.IH [OF segs b(5) pre(2,1) disj, of "c + of_nat (length b)"] by blast
  have "entries (length nl) cs2 = entries (length nl) cs \<union> set (concat bl)" using 1(4,5) 2(5) by (simp add: bl Un_assoc)
  moreover have "only_moved s s2 (set (concat bl))" using only_moved_trans [OF 1(2) 2(2)] by (simp add: bl)
  ultimately show ?case
    using 1(1,4) 2(1,3,4) m(2)
    by (intro exI [of _ nl2] exI [of _ cs2] exI [of _ s2]) (simp add: bl add.assoc)
qed

lemma chains_concat:
  assumes "chains_ok s bs"
  shows "distinct (concat (map bs [0..<length (buckets s)]))" "set (concat (map bs [0..<length (buckets s)])) = table_entries s bs"
    "length (concat (map bs [0..<length (buckets s)])) = card (table_entries s bs)"
proof -
  have "distinct (concat (map bs [0..<n]))" if "n \<le> length (buckets s)" for n
    using that
  proof (induction n)
    case (Suc n)
    have "set (bs n) \<inter> set (bs j) = {}" if "j < n" for j
      using chains_okD(4) [OF assms, of n] chains_okD(4) [OF assms, of j] Suc.prems that by (metis disjoint_iff less_le_trans less_trans Suc_le_lessD nat_neq_iff)
    then have "set (concat (map bs [0..<n])) \<inter> set (bs n) = {}" by fastforce
    then show ?case using Suc chains_okD(2) [OF assms, of n] by simp
  qed simp
  then show d: "distinct (concat (map bs [0..<length (buckets s)]))" by simp
  show e: "set (concat (map bs [0..<length (buckets s)])) = table_entries s bs" by (auto simp: entries_def)
  show "length (concat (map bs [0..<length (buckets s)])) = card (table_entries s bs)"
    using distinct_card [OF d] e by metis
qed

lemma Resize_ok:
  assumes ok: "table_ok s bs" and few: "card (table_entries s bs) \<le> 2 ^ 31"
  shows "\<exists>s' bs'. Resize s = Some s' \<and> table_ok s' bs' \<and> table_frame s s' \<and> table_entries s' bs' = table_entries s bs"
proof -
  have ch: "chains_ok s bs" using ok by (simp add: table_ok_def)
  let ?n = "length (buckets s)"
  have "unat (elems s) \<le> 2 ^ 31" using ok few by (simp add: table_ok_def unat_of_nat)
  then obtain len where len: "grow 4 (elems s) = Some len" "0 < len" using grow_ok [of 2 "elems s"] by auto
  have "list_all2 (\<lambda>h b. hseg (next_hash s) h b 0) (buckets s) (map bs [0..<?n])"
    using chains_okD(1) [OF ch] by (simp add: list_all2_conv_all_nth)
  moreover have "array_ok (next_hash s) (hash s) len (replicate (unat len) 0) (\<lambda>_. [])"
    using len(2) by (simp add: array_ok_def)
  moreover have "set (concat (map bs [0..<?n])) \<inter> entries (length (replicate (unat len) 0 :: nat list)) (\<lambda>_. []) = {}"
    by (simp add: entries_def)
  moreover have "set (concat (map bs [0..<?n])) \<subseteq> live s" unfolding chains_concat(2) [OF ch] by (rule entries_live [OF ch])
  ultimately obtain nl cs s1 where m: "move_buckets (buckets s) len (replicate (unat len) 0) 0 s =
      Some (nl, 0 + of_nat (card (table_entries s bs)), s1)" "only_moved s s1 (table_entries s bs)"
    "array_ok (next_hash s1) (hash s) len nl cs" "length nl = unat len" "entries (unat len) cs = table_entries s bs"
    using move_buckets_ok [OF _ chains_concat(1) [OF ch], of s "buckets s" len "replicate (unat len) 0" "\<lambda>_. []" 0]
    unfolding chains_concat(2,3) [OF ch] by (auto simp: entries_def)
  note d = only_movedD [OF m(2)]
  define s2 where "s2 = s1\<lparr>buckets := nl, table_length := len\<rparr>"
  have "Resize s = Some s2"
    using len(1) m(1) d(3) ok ch by (simp add: Resize_def s2_def table_ok_def chains_ok_def)
  moreover have fr: "table_frame s s2" using table_frame_trans [OF d(4)] by (simp add: s2_def)
  moreover have "table_entries s2 cs = table_entries s bs" using m(4,5) by (simp add: s2_def)
  moreover have "table_ok s2 cs"
    using ok m(3-5) len(2) d(1-3) table_frameD [OF fr] ch
    by (simp add: table_ok_def chains_array s2_def)
  ultimately show ?thesis by blast
qed

lemma table_ok_inserted:
  assumes ok: "table_ok s bs" and h: "h \<notin> table_entries s bs"
    and s': "chains_ok s' bs'" "table_frame s s'" "table_entries s' bs' = insert h (table_entries s bs - {old})"
      "elems s' = of_nat (card (insert h (table_entries s bs - {old})))"
    and old: "if old = 0 then \<forall>y\<in>table_entries s bs. \<not> matches s (key_data s h) (hash s h) y
      else old \<in> table_entries s bs \<and> matches s (key_data s h) (hash s h) old"
  shows "table_ok s' bs'"
proof -
  let ?E = "table_entries s bs"
  have inj: "inj_on (\<lambda>x. (hash s x, key_data s x)) ?E" using ok by (simp add: table_ok_def)
  have "\<forall>y\<in>?E - {old}. \<not> matches s (key_data s h) (hash s h) y"
    using old inj_match [OF inj] by (metis (full_types) DiffE singletonI)
  then have "inj_on (\<lambda>x. (hash s x, key_data s x)) (insert h (?E - {old}))"
    using inj by (auto simp: inj_on_insert matches_def intro: inj_on_subset)
  then show ?thesis using s' table_frameD(2,3) [OF s'(2)] by (simp add: table_ok_def)
qed

lemma table_Insert_ok:
  assumes ok: "table_ok s bs" and key: "keyable s (insert h (table_entries s bs))"
    and h: "h \<notin> table_entries s bs" "h \<in> live s" "h \<noteq> 0" and few: "card (table_entries s bs) < 2 ^ 31"
  shows "\<exists>old s' bs'. table_Insert h s = Some (old, s') \<and> table_ok s' bs' \<and> table_frame s s' \<and>
      table_entries s' bs' = insert h (table_entries s bs - {old}) \<and>
      (if old = 0 then \<forall>y\<in>table_entries s bs. \<not> matches s (key_data s h) (hash s h) y
       else old \<in> table_entries s bs \<and> matches s (key_data s h) (hash s h) old)"
proof -
  have ch: "chains_ok s bs" using ok by (simp add: table_ok_def)
  let ?E = "table_entries s bs" and ?i = "bucket_of (hash s h) (table_length s)"
  have key': "keyable s ?E" "next_ptr s h \<noteq> h" using key by (auto simp: keyable_def)
  obtain xs ys where f: "bs ?i = xs @ ys" "?i < length (buckets s)"
    "FindPointer (key_data s h) (hash s h) s = Some (ptr_after (Bucket ?i) xs)" "load (ptr_after (Bucket ?i) xs) s = Some (head0 ys)"
    "ys = [] \<longrightarrow> (\<forall>x\<in>?E. \<not> matches s (key_data s h) (hash s h) x)" "ys \<noteq> [] \<longrightarrow> matches s (key_data s h) (hash s h) (head0 ys)"
    by (rule table_find [OF ch key'(1), where key = "key_data s h" and h = "hash s h"])
  note c = chains_okD [OF ch f(2)]
  have notin: "h \<notin> set (bs ?i)" using c(5) h(1) by blast
  define zs where "zs = h # tl ys"
  define nxt where "nxt = (if ys = [] then 0 else next_hash s (head0 ys))"
  let ?nh = "(next_hash s)(h := nxt)"
  have "hseg (next_hash s) nxt (tl ys) 0" using c(1) by (cases ys) (auto simp: f(1) hseg_append nxt_def head0_def)
  then have "hseg ?nh h zs 0" using notin h(3) by (cases ys) (auto simp: zs_def f(1))
  moreover have "distinct zs" "set xs \<inter> set zs = {}" "set zs \<subseteq> live s" "\<forall>z\<in>set zs. bucket_of (hash s z) (table_length s) = ?i"
    using c(2-4) notin h(2) by (cases ys; auto simp: zs_def f(1))+
  moreover have "\<forall>x\<in>?E. ?nh x = next_hash s x" using h(1) by auto
  ultimately obtain s1 where s1: "store (ptr_after (Bucket ?i) xs) h (s\<lparr>next_hash := ?nh\<rparr>) = Some s1"
    "chains_ok s1 (bs(?i := xs @ zs))" "table_frame s s1" "length (buckets s1) = length (buckets s)" "elems s1 = elems s"
    using splice_ok [OF ch f(2,1), of ?nh h zs] by blast
  have E: "table_entries s1 (bs(?i := xs @ zs)) = insert h (?E - {head0 ys})"
    using entries_upd [OF ch f(2), of "xs @ zs"] c(2,5) notin entries_nonzero [OF ch] s1(4)
    by (cases ys) (auto simp: f(1) zs_def head0_def)
  have old: "head0 ys \<in> ?E" "head0 ys \<noteq> 0" if "ys \<noteq> []"
  proof -
    show "head0 ys \<in> ?E" using that c(5) by (cases ys) (auto simp: f(1) head0_def)
    then show "head0 ys \<noteq> 0" using entries_nonzero [OF ch] by metis
  qed
  then have cond: "if head0 ys = 0 then \<forall>y\<in>?E. \<not> matches s (key_data s h) (hash s h) y
      else head0 ys \<in> ?E \<and> matches s (key_data s h) (hash s h) (head0 ys)"
    using f(5,6) by (cases "ys = []") (auto simp: head0_def)
  have unf: "table_Insert h s = (if head0 ys = 0 then
        let s2 = s1\<lparr>elems := elems s1 + 1\<rparr> in
        if elems s2 > table_length s2 then map_option (Pair 0) (Resize s2) else Some (0, s2)
      else Some (head0 ys, s1))"
    using f(3,4) s1(1) key'(2) h(2) old c(3)
    by (cases ys) (auto simp: table_Insert_def LRUHandle_key_def rd_def set_next_hash_def nxt_def head0_def f(1))
  show ?thesis
  proof (cases "ys = []")
    case False
    have "card (insert h (?E - {head0 ys})) = card ?E"
      using old(1) [OF False] h(1) card_Suc_Diff1 [OF finite_entries old(1) [OF False]] by simp
    then have "elems s1 = of_nat (card (insert h (?E - {head0 ys})))" using ok s1(5) by (simp add: table_ok_def)
    from table_ok_inserted [OF ok h(1) s1(2,3) E this cond] show ?thesis
      using unf old(2) [OF False] s1(3) E cond by auto
  next
    case True
    define s2 where "s2 = s1\<lparr>elems := elems s1 + 1\<rparr>"
    have z: "head0 ys = 0" using True by (simp add: head0_def)
    have "elems s2 = of_nat (card (insert h (?E - {0})))"
      using ok s1(5) h(1) entries_nonzero [OF ch] by (simp add: s2_def table_ok_def)
    moreover have fr: "table_frame s s2" using table_frame_elems [OF s1(3)] by (simp add: s2_def)
    moreover have E2: "table_entries s2 (bs(?i := xs @ zs)) = insert h (?E - {0})" using E z by (simp add: s2_def)
    moreover have "chains_ok s2 (bs(?i := xs @ zs))" using s1(2) by (simp add: s2_def)
    ultimately have ok2: "table_ok s2 (bs(?i := xs @ zs))"
      using table_ok_inserted [OF ok h(1), of s2 "bs(?i := xs @ zs)" 0] cond z by simp
    have "card (table_entries s2 (bs(?i := xs @ zs))) \<le> 2 ^ 31"
      using few h(1) entries_nonzero [OF ch] by (simp add: E2)
    from Resize_ok [OF ok2 this] obtain s3 bs3 where "Resize s2 = Some s3" "table_ok s3 bs3" "table_frame s2 s3"
      "table_entries s3 bs3 = insert h (?E - {0})" unfolding E2 by blast
    then show ?thesis
      using unf z ok2 fr E2 cond table_frame_trans [OF fr] unfolding s2_def [symmetric] Let_def by (auto split: if_splits)
  qed
qed

end
