(* ===== verification/Lru_cache.thy ===== *)
theory Lru_cache
  imports Handle_table
begin

text \<open>
  \<^verbatim>\<open>util/cache.cc\<close>, part 3: \<^verbatim>\<open>class LRUCache\<close>.  The two list heads \<^verbatim>\<open>lru_\<close> and \<^verbatim>\<open>in_use_\<close> are addresses of the memory.
  The address \<^verbatim>\<open>malloc\<close> returns is an argument of \<open>LRUCache_Insert\<close>.  The mutex makes the operations atomic: they are
  modelled as sequential steps.
\<close>

record lru_cache = handle_table +
  capacity :: u64
  usage :: u64
  lru_head :: nat
  in_use_head :: nat

definition LRU_Remove :: "nat \<Rightarrow> 'x lru_cache_scheme \<Rightarrow> 'x lru_cache_scheme option" where
  "LRU_Remove e s = do {
     n \<leftarrow> rd next_ptr e s;
     p \<leftarrow> rd prev_ptr e s;
     s \<leftarrow> set_prev n p s;
     p \<leftarrow> rd prev_ptr e s;
     n \<leftarrow> rd next_ptr e s;
     set_next p n s }"

definition LRU_Append :: "nat \<Rightarrow> nat \<Rightarrow> 'x lru_cache_scheme \<Rightarrow> 'x lru_cache_scheme option" where
  "LRU_Append lst e s = do {
     s \<leftarrow> set_next e lst s;
     p \<leftarrow> rd prev_ptr lst s;
     s \<leftarrow> set_prev e p s;
     p \<leftarrow> rd prev_ptr e s;
     s \<leftarrow> set_next p e s;
     n \<leftarrow> rd next_ptr e s;
     set_prev n e s }"

definition Ref :: "nat \<Rightarrow> 'x lru_cache_scheme \<Rightarrow> 'x lru_cache_scheme option" where
  "Ref e s = do {
     r \<leftarrow> rd refs e s;
     c \<leftarrow> rd in_cache e s;
     s \<leftarrow> (if r = 1 \<and> c then do {
             s \<leftarrow> LRU_Remove e s;
             LRU_Append (in_use_head s) e s }
           else Some s);
     r \<leftarrow> rd refs e s;
     set_refs e (r + 1) s }"

definition Unref :: "nat \<Rightarrow> 'x lru_cache_scheme \<Rightarrow> 'x lru_cache_scheme option" where
  "Unref e s = do {
     r \<leftarrow> rd refs e s;
     if r > 0 then do {
       s \<leftarrow> set_refs e (r - 1) s;
       r \<leftarrow> rd refs e s;
       c \<leftarrow> rd in_cache e s;
       if r = 0 then
         if \<not> c then do {
           d \<leftarrow> rd deleter e s;
           k \<leftarrow> LRUHandle_key e s;
           v \<leftarrow> rd handle_value e s;
           Some (s\<lparr>deleted := deleted s @ [(d, k, v)], live := live s - {e}\<rparr>) }
         else None
       else if c \<and> r = 1 then do {
         s \<leftarrow> LRU_Remove e s;
         LRU_Append (lru_head s) e s }
       else Some s }
     else None }"

definition FinishErase :: "nat \<Rightarrow> 'x lru_cache_scheme \<Rightarrow> (bool \<times> 'x lru_cache_scheme) option" where
  "FinishErase e s =
     (if e \<noteq> 0 then do {
        c \<leftarrow> rd in_cache e s;
        if c then do {
          s \<leftarrow> LRU_Remove e s;
          s \<leftarrow> set_in_cache e False s;
          ch \<leftarrow> rd charge e s;
          s \<leftarrow> Unref e (s\<lparr>usage := usage s - ch\<rparr>);
          Some (True, s) }
        else None }
      else Some (False, s))"

definition LRUCache_Lookup :: "bytes \<Rightarrow> u32 \<Rightarrow> 'x lru_cache_scheme \<Rightarrow> (nat \<times> 'x lru_cache_scheme) option" where
  "LRUCache_Lookup key h s = do {
     e \<leftarrow> table_Lookup key h s;
     if e \<noteq> 0 then do {
       s \<leftarrow> Ref e s;
       Some (e, s) }
     else Some (e, s) }"

definition LRUCache_Release :: "nat \<Rightarrow> 'x lru_cache_scheme \<Rightarrow> 'x lru_cache_scheme option" where
  "LRUCache_Release handle s = Unref handle s"

definition LRUCache_Erase :: "bytes \<Rightarrow> u32 \<Rightarrow> 'x lru_cache_scheme \<Rightarrow> 'x lru_cache_scheme option" where
  "LRUCache_Erase key h s = do {
     (e, s) \<leftarrow> table_Remove key h s;
     (erased, s) \<leftarrow> FinishErase e s;
     Some s }"

text \<open>The body of the eviction loops: the oldest entry leaves the cache.\<close>

definition evict_oldest :: "nat \<Rightarrow> 'x lru_cache_scheme \<Rightarrow> 'x lru_cache_scheme option" where
  "evict_oldest old s = do {
     r \<leftarrow> rd refs old s;
     if r = 1 then do {
       k \<leftarrow> LRUHandle_key old s;
       h \<leftarrow> rd hash old s;
       (e, s) \<leftarrow> table_Remove k h s;
       (erased, s) \<leftarrow> FinishErase e s;
       if erased then Some s else None }
     else None }"

partial_function (option) evict_loop :: "'x lru_cache_scheme \<Rightarrow> 'x lru_cache_scheme option" where
  "evict_loop s = do {
     old \<leftarrow> rd next_ptr (lru_head s) s;
     if usage s > capacity s \<and> old \<noteq> lru_head s then do {
       s \<leftarrow> evict_oldest old s;
       evict_loop s }
     else Some s }"

partial_function (option) LRUCache_Prune :: "'x lru_cache_scheme \<Rightarrow> 'x lru_cache_scheme option" where
  "LRUCache_Prune s = do {
     old \<leftarrow> rd next_ptr (lru_head s) s;
     if old \<noteq> lru_head s then do {
       s \<leftarrow> evict_oldest old s;
       LRUCache_Prune s }
     else Some s }"

definition new_handle :: "nat \<Rightarrow> bytes \<Rightarrow> u32 \<Rightarrow> nat \<Rightarrow> u64 \<Rightarrow> nat \<Rightarrow> 'x lru_cache_scheme \<Rightarrow> 'x lru_cache_scheme" where
  "new_handle e key h v ch del s =
     s\<lparr>live := insert e (live s), handle_value := (handle_value s)(e := v), deleter := (deleter s)(e := del),
       charge := (charge s)(e := ch), key_data := (key_data s)(e := key), hash := (hash s)(e := h),
       in_cache := (in_cache s)(e := False), refs := (refs s)(e := 1)\<rparr>"

definition LRUCache_Insert ::
    "nat \<Rightarrow> bytes \<Rightarrow> u32 \<Rightarrow> nat \<Rightarrow> u64 \<Rightarrow> nat \<Rightarrow> 'x lru_cache_scheme \<Rightarrow> (nat \<times> 'x lru_cache_scheme) option" where
  "LRUCache_Insert e key h v ch del s0 = do {
     s \<leftarrow> (let s = new_handle e key h v ch del s0 in
       if capacity s > 0 then do {
         r \<leftarrow> rd refs e s;
         s \<leftarrow> set_refs e (r + 1) s;
         s \<leftarrow> set_in_cache e True s;
         s \<leftarrow> LRU_Append (in_use_head s) e s;
         (old, s) \<leftarrow> table_Insert e (s\<lparr>usage := usage s + ch\<rparr>);
         (erased, s) \<leftarrow> FinishErase old s;
         Some s }
       else set_next e 0 s);
     s \<leftarrow> evict_loop s;
     Some (e, s) }"

definition SetCapacity :: "u64 \<Rightarrow> 'x lru_cache_scheme \<Rightarrow> 'x lru_cache_scheme" where
  "SetCapacity c s = s\<lparr>capacity := c\<rparr>"

definition TotalCharge :: "'x lru_cache_scheme \<Rightarrow> u64" where
  "TotalCharge s = usage s"

text \<open>Construction, with the heads at \<open>a\<close> and \<open>b\<close>, and destruction.\<close>

definition LRUCache_new :: "nat \<Rightarrow> nat \<Rightarrow> lru_cache option" where
  "LRUCache_new a b =
     Resize \<lparr>live = {a, b}, handle_value = \<lambda>_. 0, deleter = \<lambda>_. 0, next_hash = \<lambda>_. 0, next_ptr = id, prev_ptr = id,
       charge = \<lambda>_. 0, key_data = \<lambda>_. [], in_cache = \<lambda>_. False, refs = \<lambda>_. 0, hash = \<lambda>_. 0, deleted = [],
       buckets = [], table_length = 0, elems = 0, capacity = 0, usage = 0, lru_head = a, in_use_head = b\<rparr>"

partial_function (option) destroy_loop :: "nat \<Rightarrow> 'x lru_cache_scheme \<Rightarrow> 'x lru_cache_scheme option" where
  "destroy_loop e s =
     (if e \<noteq> lru_head s then do {
        nxt \<leftarrow> rd next_ptr e s;
        c \<leftarrow> rd in_cache e s;
        if c then do {
          s \<leftarrow> set_in_cache e False s;
          r \<leftarrow> rd refs e s;
          if r = 1 then do {
            s \<leftarrow> Unref e s;
            destroy_loop nxt s }
          else None }
        else None }
      else Some s)"

definition LRUCache_destroy :: "'x lru_cache_scheme \<Rightarrow> 'x lru_cache_scheme option" where
  "LRUCache_destroy s = do {
     n \<leftarrow> rd next_ptr (in_use_head s) s;
     if n = in_use_head s then do {
       e \<leftarrow> rd next_ptr (lru_head s) s;
       destroy_loop e s }
     else None }"

section \<open>Circular lists\<close>

primrec links :: "(nat \<Rightarrow> nat) \<Rightarrow> (nat \<Rightarrow> nat) \<Rightarrow> nat \<Rightarrow> nat list \<Rightarrow> nat \<Rightarrow> bool" where
  "links nx pv a [] b \<longleftrightarrow> nx a = b \<and> pv b = a"
| "links nx pv a (x # xs) b \<longleftrightarrow> nx a = x \<and> pv x = a \<and> links nx pv x xs b"

definition ring :: "(nat \<Rightarrow> nat) \<Rightarrow> (nat \<Rightarrow> nat) \<Rightarrow> nat \<Rightarrow> nat list \<Rightarrow> bool" where
  "ring nx pv hh xs \<longleftrightarrow> distinct (hh # xs) \<and> links nx pv hh xs hh"

lemma links_append: "links nx pv a (xs @ y # ys) b \<longleftrightarrow> links nx pv a xs y \<and> links nx pv y ys b"
  by (induction xs arbitrary: a) auto

lemma links_cong:
  "\<forall>z\<in>insert a (set xs). nx z = nx' z \<Longrightarrow> \<forall>z\<in>insert b (set xs). pv z = pv' z \<Longrightarrow> links nx pv a xs b = links nx' pv' a xs b"
  by (induction xs arbitrary: a) auto

lemma links_ends: "links nx pv a xs b \<Longrightarrow> nx (last (a # xs)) = b \<and> pv b = last (a # xs)"
  by (induction xs arbitrary: a) auto

lemma links_retarget:
  assumes "links nx pv a xs b" "distinct (a # xs)" "c \<notin> set xs"
  shows "links (nx(last (a # xs) := c)) (pv(c := last (a # xs))) a xs c"
  using assms
proof (induction xs arbitrary: a)
  case (Cons x xs)
  have "links (nx(last (x # xs) := c)) (pv(c := last (x # xs))) x xs c"
    by (rule Cons.IH) (use Cons.prems in simp_all)
  moreover have "a \<noteq> last (x # xs)" using Cons.prems(2) last_in_set [of "x # xs"] by (metis distinct.simps(2) list.distinct(1))
  moreover define l where "l = last (x # xs)"
  moreover have "last (a # x # xs) = last (x # xs)" by simp
  ultimately show ?case using Cons.prems unfolding l_def [symmetric] by (simp add: fun_upd_def)
qed simp

lemma ring_split:
  assumes "ring nx pv hh (xs @ x # ys)"
  shows "pv x = last (hh # xs)" "nx x = (case ys of [] \<Rightarrow> hh | y # _ \<Rightarrow> y)"
proof -
  have l: "links nx pv hh xs x" "links nx pv x ys hh" using assms by (simp_all add: ring_def links_append)
  show "pv x = last (hh # xs)" using links_ends [OF l(1)] by simp
  show "nx x = (case ys of [] \<Rightarrow> hh | y # _ \<Rightarrow> y)" using l(2) by (cases ys) simp_all
qed

lemma ring_remove:
  assumes "ring nx pv hh (xs @ x # ys)"
  shows "ring (nx(pv x := nx x)) (pv(nx x := pv x)) hh (xs @ ys)"
proof -
  have l: "links nx pv hh xs x" "links nx pv x ys hh" and d: "distinct (hh # xs @ x # ys)"
    using assms by (auto simp: ring_def links_append)
  note e = ring_split [OF assms]
  show ?thesis
  proof (cases ys)
    case Nil
    then show ?thesis using links_retarget [OF l(1), of hh] d e by (simp add: ring_def)
  next
    case (Cons y ys')
    have r: "links (nx(pv x := y)) (pv(y := pv x)) hh xs y" using links_retarget [OF l(1), of y] d e(1) by (simp add: Cons)
    have "pv x \<notin> set (y # ys')"
    proof -
      have "pv x \<in> set (hh # xs)" using e(1) last_in_set [of "hh # xs"] by simp
      then show ?thesis using d by (auto simp: Cons)
    qed
    then have "links (nx(pv x := y)) (pv(y := pv x)) y ys' hh = links nx pv y ys' hh"
      using d by (intro links_cong) (auto simp: Cons)
    then show ?thesis using r l(2) d e(2) by (simp add: ring_def links_append Cons)
  qed
qed

lemma ring_append:
  assumes "ring nx pv hh xs" "e \<notin> set (hh # xs)"
  shows "ring (nx(e := hh, pv hh := e)) (pv(e := pv hh, hh := e)) hh (xs @ [e])"
proof -
  have l: "links nx pv hh xs hh" and d: "distinct (hh # xs)" using assms(1) by (simp_all add: ring_def)
  have p: "pv hh = last (hh # xs)" using links_ends [OF l] by simp
  have "links (nx(pv hh := e)) (pv(e := pv hh)) hh xs e" using links_retarget [OF l d, of e] assms(2) p by simp
  moreover have "links (nx(e := hh, pv hh := e)) (pv(e := pv hh, hh := e)) hh xs e = links (nx(pv hh := e)) (pv(e := pv hh)) hh xs e"
    using assms(2) d by (intro links_cong) auto
  moreover have "pv hh \<noteq> e" using p last_in_set [of "hh # xs"] assms(2) by (metis list.distinct(1))
  ultimately show ?thesis using assms(2) d by (simp add: ring_def links_append)
qed

lemma ring_cong:
  "\<forall>z\<in>insert hh (set xs). nx z = nx' z \<and> pv z = pv' z \<Longrightarrow> ring nx pv hh xs = ring nx' pv' hh xs"
  using links_cong [of hh xs nx nx' hh pv pv'] by (simp add: ring_def)

lemma ring_next_neq:
  assumes "ring nx pv hh xs" "x \<in> set xs"
  shows "nx x \<noteq> x"
proof -
  obtain as bs where "xs = as @ x # bs" using split_list [OF assms(2)] by blast
  then show ?thesis using ring_split(2) [of nx pv hh as x bs] assms(1) by (cases bs) (auto simp: ring_def)
qed

lemma links_range:
  "links nx pv a xs b \<Longrightarrow> nx ` insert a (set xs) \<subseteq> insert b (set xs) \<and> pv ` insert b (set xs) \<subseteq> insert a (set xs)"
proof (induction xs arbitrary: a)
  case (Cons x xs)
  then have "nx ` insert x (set xs) \<subseteq> insert b (set xs)" "pv ` insert b (set xs) \<subseteq> insert x (set xs)" by auto
  then show ?case using Cons.prems by auto
qed simp

lemma ring_in:
  assumes "ring nx pv hh xs" "x \<in> insert hh (set xs)"
  shows "nx x \<in> insert hh (set xs)" "pv x \<in> insert hh (set xs)"
  using assms links_range [of nx pv hh xs hh] unfolding ring_def by blast+

end
