(* ===== verification/Lru_facts.thy ===== *)
theory Lru_facts
  imports Lru_cache
begin

text \<open>
  Correctness of \<^verbatim>\<open>LRUCache\<close>: the two circular lists and the reference counts, the operations on them, and the cache as a
  whole.  \<open>L\<close> is the list of unreferenced entries, oldest first, \<open>U\<close> that of the entries in use, and \<open>bs\<close> the chains of
  the hash table.
\<close>

section \<open>Lists and reference counts\<close>

text \<open>The handles that clients hold and that are no longer in the cache.\<close>

definition outside :: "'x lru_cache_scheme \<Rightarrow> nat list \<Rightarrow> nat list \<Rightarrow> nat set" where
  "outside s L U = live s - {lru_head s, in_use_head s} - set L - set U"

definition lists_ok :: "'x lru_cache_scheme \<Rightarrow> nat list \<Rightarrow> nat list \<Rightarrow> bool" where
  [inv_simps]: "lists_ok s L U \<longleftrightarrow>
     ring (next_ptr s) (prev_ptr s) (lru_head s) L \<and> ring (next_ptr s) (prev_ptr s) (in_use_head s) U \<and>
     distinct (lru_head s # in_use_head s # L @ U) \<and> set (lru_head s # in_use_head s # L @ U) \<subseteq> live s \<and> 0 \<notin> live s \<and>
     (\<forall>e\<in>set L. in_cache s e \<and> refs s e = 1) \<and> (\<forall>e\<in>set U. in_cache s e \<and> 2 \<le> refs s e) \<and>
     (\<forall>e\<in>outside s L U. \<not> in_cache s e \<and> 0 < refs s e \<and> next_ptr s e \<noteq> e)"

text \<open>The list operations leave the table, the keys and the other data of the handles alone.\<close>

definition list_frame :: "'x lru_cache_scheme \<Rightarrow> 'x lru_cache_scheme \<Rightarrow> bool" where
  "list_frame s s' \<longleftrightarrow> s' = s\<lparr>next_ptr := next_ptr s', prev_ptr := prev_ptr s', refs := refs s', in_cache := in_cache s',
     live := live s', deleted := deleted s', usage := usage s'\<rparr>"

lemma list_frame_trans: "list_frame s s1 \<Longrightarrow> list_frame s1 s2 \<Longrightarrow> list_frame s s2"
  unfolding list_frame_def by (cases s; cases s1; cases s2) simp

lemma list_frameD:
  assumes "list_frame s s'"
  shows "next_hash s' = next_hash s" "buckets s' = buckets s" "table_length s' = table_length s" "elems s' = elems s"
    "hash s' = hash s" "key_data s' = key_data s" "charge s' = charge s" "handle_value s' = handle_value s"
    "deleter s' = deleter s" "lru_head s' = lru_head s" "in_use_head s' = in_use_head s" "capacity s' = capacity s"
  using assms by (subst assms [unfolded list_frame_def], simp)+

lemma table_ok_frame:
  assumes "table_ok s bs" "list_frame s s'" "table_entries s bs \<subseteq> live s'"
  shows "table_ok s' bs"
  using assms(1,3) list_frameD [OF assms(2)] by (simp add: table_ok_def chains_array)

definition unlinked :: "nat \<Rightarrow> 'x lru_cache_scheme \<Rightarrow> 'x lru_cache_scheme" where
  "unlinked e s = s\<lparr>next_ptr := (next_ptr s)(prev_ptr s e := next_ptr s e), prev_ptr := (prev_ptr s)(next_ptr s e := prev_ptr s e)\<rparr>"

definition linked :: "nat \<Rightarrow> nat \<Rightarrow> 'x lru_cache_scheme \<Rightarrow> 'x lru_cache_scheme" where
  "linked hh e s = s\<lparr>next_ptr := (next_ptr s)(e := hh, prev_ptr s hh := e), prev_ptr := (prev_ptr s)(e := prev_ptr s hh, hh := e)\<rparr>"

lemma LRU_Remove_eq:
  assumes "e \<in> live s" "next_ptr s e \<in> live s" "prev_ptr s e \<in> live s" "next_ptr s e \<noteq> e"
  shows "LRU_Remove e s = Some (unlinked e s)"
  using assms by (simp add: LRU_Remove_def access_defs unlinked_def)

lemma LRU_Append_eq:
  assumes "e \<in> live s" "hh \<in> live s" "prev_ptr s hh \<in> live s" "hh \<noteq> e" "prev_ptr s hh \<noteq> e"
  shows "LRU_Append hh e s = Some (linked hh e s)"
  using assms by (simp add: LRU_Append_def access_defs linked_def)

lemma lists_okD:
  assumes "lists_ok s L U"
  shows "ring (next_ptr s) (prev_ptr s) (lru_head s) L" "ring (next_ptr s) (prev_ptr s) (in_use_head s) U"
    "distinct (lru_head s # in_use_head s # L @ U)" "set (lru_head s # in_use_head s # L @ U) \<subseteq> live s" "0 \<notin> live s"
    "\<And>e. e \<in> set L \<Longrightarrow> in_cache s e \<and> refs s e = 1" "\<And>e. e \<in> set U \<Longrightarrow> in_cache s e \<and> 2 \<le> refs s e"
    "\<And>e. e \<in> outside s L U \<Longrightarrow> \<not> in_cache s e \<and> 0 < refs s e \<and> next_ptr s e \<noteq> e"
  using assms by (simp_all add: lists_ok_def)

lemma lists_keyable: "lists_ok s L U \<Longrightarrow> keyable s (set L \<union> set U)"
  using ring_next_neq lists_okD(1,2) unfolding keyable_def by blast

lemma removeAll_split: "distinct (as @ e # bs) \<Longrightarrow> removeAll e (as @ e # bs) = as @ bs"
  by (simp add: removeAll_id)

text \<open>Taking an entry out of its list.\<close>

lemma ring_unlink:
  assumes "ring nx pv hh xs" "e \<in> set xs"
  shows "ring (nx(pv e := nx e)) (pv(nx e := pv e)) hh (removeAll e xs)"
proof -
  obtain as bs where xs: "xs = as @ e # bs" using split_list [OF assms(2)] by blast
  then have "removeAll e xs = as @ bs" using assms(1) removeAll_split [of as e bs] by (simp add: ring_def)
  then show ?thesis using ring_remove [of nx pv hh as e bs] assms(1) xs by simp
qed

lemma ring_other:
  assumes "ring nx pv hh xs" "ring nx pv hh' ys" "e \<in> set xs" "set (hh # xs) \<inter> set (hh' # ys) = {}"
  shows "ring (nx(pv e := v)) (pv(nx e := w)) hh' ys"
proof -
  have "nx e \<in> set (hh # xs)" "pv e \<in> set (hh # xs)" using ring_in [OF assms(1), of e] assms(3) by auto
  then show ?thesis using assms(2,4) ring_cong [of hh' ys nx "nx(pv e := v)" pv "pv(nx e := w)"] by fastforce
qed

lemma ring_prev_neq:
  assumes "ring nx pv hh xs" "x \<in> set xs"
  shows "pv x \<noteq> x"
proof -
  obtain as bs where xs: "xs = as @ x # bs" using split_list [OF assms(2)] by blast
  have "last (hh # as) \<in> set (hh # as)" by (rule last_in_set) simp
  then show ?thesis using ring_split(1) [of nx pv hh as x bs] assms(1) by (auto simp: ring_def xs)
qed

lemma neighbours:
  assumes ok: "lists_ok s L U" and e: "e \<in> set L \<union> set U"
  shows "next_ptr s e \<noteq> e" "prev_ptr s e \<noteq> e" "next_ptr s e \<in> set (lru_head s # in_use_head s # L @ U)"
    "prev_ptr s e \<in> set (lru_head s # in_use_head s # L @ U)"
proof -
  note r = lists_okD(1,2) [OF ok]
  show "next_ptr s e \<noteq> e" using e ring_next_neq [OF r(1)] ring_next_neq [OF r(2)] by blast
  show "prev_ptr s e \<noteq> e" using e ring_prev_neq [OF r(1)] ring_prev_neq [OF r(2)] by blast
  show "next_ptr s e \<in> set (lru_head s # in_use_head s # L @ U)"
    using e ring_in(1) [OF r(1), of e] ring_in(1) [OF r(2), of e] by auto
  show "prev_ptr s e \<in> set (lru_head s # in_use_head s # L @ U)"
    using e ring_in(2) [OF r(1), of e] ring_in(2) [OF r(2), of e] by auto
qed

lemma unlink_rings:
  assumes ok: "lists_ok s L U" and e: "e \<in> set L \<union> set U"
  shows "ring (next_ptr (unlinked e s)) (prev_ptr (unlinked e s)) (lru_head s) (removeAll e L)"
    and "ring (next_ptr (unlinked e s)) (prev_ptr (unlinked e s)) (in_use_head s) (removeAll e U)"
proof -
  note d = lists_okD [OF ok]
  have disj: "set (lru_head s # L) \<inter> set (in_use_head s # U) = {}" using d(3) by auto
  show "ring (next_ptr (unlinked e s)) (prev_ptr (unlinked e s)) (lru_head s) (removeAll e L)"
  proof (cases "e \<in> set L")
    case True
    then show ?thesis using ring_unlink [OF d(1)] by (simp add: unlinked_def)
  next
    case False
    then have "removeAll e L = L" "e \<in> set U" using e by auto
    then show ?thesis using ring_other [OF d(2,1)] disj by (simp add: unlinked_def Int_commute)
  qed
  show "ring (next_ptr (unlinked e s)) (prev_ptr (unlinked e s)) (in_use_head s) (removeAll e U)"
  proof (cases "e \<in> set U")
    case True
    then show ?thesis using ring_unlink [OF d(2)] by (simp add: unlinked_def)
  next
    case False
    then have "removeAll e U = U" "e \<in> set L" using e by auto
    then show ?thesis using ring_other [OF d(1,2)] disj by (simp add: unlinked_def)
  qed
qed

lemma unlinked_same [simp]:
  "live (unlinked e s) = live s" "refs (unlinked e s) = refs s" "in_cache (unlinked e s) = in_cache s"
  "lru_head (unlinked e s) = lru_head s" "in_use_head (unlinked e s) = in_use_head s"
  "z \<noteq> prev_ptr s e \<Longrightarrow> next_ptr (unlinked e s) z = next_ptr s z"
  by (simp_all add: unlinked_def)

lemma linked_same [simp]:
  "live (linked hh e s) = live s" "refs (linked hh e s) = refs s" "in_cache (linked hh e s) = in_cache s"
  "lru_head (linked hh e s) = lru_head s" "in_use_head (linked hh e s) = in_use_head s"
  "z \<noteq> prev_ptr s hh \<Longrightarrow> z \<noteq> e \<Longrightarrow> next_ptr (linked hh e s) z = next_ptr s z"
  by (simp_all add: linked_def)

lemma unlink_ok:
  assumes ok: "lists_ok s L U" and e: "e \<in> set L \<union> set U"
  shows "LRU_Remove e s = Some (unlinked e s)"
    and "lists_ok ((unlinked e s)\<lparr>in_cache := (in_cache s)(e := False)\<rparr>) (removeAll e L) (removeAll e U)"
proof -
  note d = lists_okD [OF ok] and n = neighbours [OF ok e]
  have in_lists: "e \<in> set (lru_head s # in_use_head s # L @ U)" using e by auto
  show "LRU_Remove e s = Some (unlinked e s)"
    by (rule LRU_Remove_eq [OF subsetD [OF d(4) in_lists] subsetD [OF d(4) n(3)] subsetD [OF d(4) n(4)] n(1)])
  let ?s = "(unlinked e s)\<lparr>in_cache := (in_cache s)(e := False)\<rparr>"
  have out: "outside ?s (removeAll e L) (removeAll e U) = insert e (outside s L U)"
    using e d(3) subsetD [OF d(4) in_lists] by (auto simp: outside_def)
  have eh: "0 < refs s e" using e d(6) [of e] d(7) [of e] by (auto simp: word_gt_0)
  have "\<not> in_cache ?s x \<and> 0 < refs ?s x \<and> next_ptr ?s x \<noteq> x" if "x \<in> outside ?s (removeAll e L) (removeAll e U)" for x
  proof (cases "x = e")
    case True
    then show ?thesis using n(1,2) eh by simp
  next
    case False
    then have x: "x \<in> outside s L U" using that unfolding out by simp
    then have "x \<noteq> prev_ptr s e" using n(4) by (auto simp: outside_def)
    then show ?thesis using False d(8) [OF x] by simp
  qed
  then show "lists_ok ?s (removeAll e L) (removeAll e U)"
    using unlink_rings [OF assms] d(3-7) by (auto simp: lists_ok_def distinct_removeAll)
qed

text \<open>Putting a handle at the end of a list, as its newest element.\<close>

lemma link_rings:
  assumes ok: "lists_ok s L U" and e: "e \<in> outside s L U" and hh: "hh = lru_head s \<and> xs = L \<and> kk = in_use_head s \<and> ys = U \<or>
      hh = in_use_head s \<and> xs = U \<and> kk = lru_head s \<and> ys = L"
  shows "LRU_Append hh e s = Some (linked hh e s)"
    and "ring (next_ptr (linked hh e s)) (prev_ptr (linked hh e s)) hh (xs @ [e])"
    and "ring (next_ptr (linked hh e s)) (prev_ptr (linked hh e s)) kk ys" "prev_ptr s hh \<in> set (hh # xs)"
proof -
  note d = lists_okD [OF ok]
  have r: "ring (next_ptr s) (prev_ptr s) hh xs" "ring (next_ptr s) (prev_ptr s) kk ys"
    "set (hh # xs) \<inter> set (kk # ys) = {}" "set (hh # xs) \<subseteq> live s" "e \<notin> set (hh # xs)" "e \<notin> set (kk # ys)" "e \<in> live s"
    using hh d(1-4) e by (auto simp: outside_def)
  show p: "prev_ptr s hh \<in> set (hh # xs)" using ring_in(2) [OF r(1), of hh] by simp
  have "hh \<in> live s" "hh \<noteq> e" using r(4,5) by auto
  moreover have "prev_ptr s hh \<noteq> e" using p r(5) by blast
  ultimately show "LRU_Append hh e s = Some (linked hh e s)"
    using LRU_Append_eq [OF r(7) _ subsetD [OF r(4) p]] by simp
  show "ring (next_ptr (linked hh e s)) (prev_ptr (linked hh e s)) hh (xs @ [e])"
    using ring_append [OF r(1,5)] by (simp add: linked_def)
  have "ring (next_ptr (linked hh e s)) (prev_ptr (linked hh e s)) kk ys = ring (next_ptr s) (prev_ptr s) kk ys"
    using p r(3,6) by (intro ring_cong) (auto simp: linked_def)
  then show "ring (next_ptr (linked hh e s)) (prev_ptr (linked hh e s)) kk ys" using r(2) by simp
qed

definition marked :: "nat \<Rightarrow> bool \<Rightarrow> u32 \<Rightarrow> 'x lru_cache_scheme \<Rightarrow> 'x lru_cache_scheme" where
  "marked e c r s = s\<lparr>in_cache := (in_cache s)(e := c), refs := (refs s)(e := r)\<rparr>"

lemma marked_same [simp]:
  "live (marked e c r s) = live s" "next_ptr (marked e c r s) = next_ptr s" "prev_ptr (marked e c r s) = prev_ptr s"
  "lru_head (marked e c r s) = lru_head s" "in_use_head (marked e c r s) = in_use_head s"
  "in_cache (marked e c r s) = (in_cache s)(e := c)" "refs (marked e c r s) = (refs s)(e := r)"
  by (simp_all add: marked_def)

lemma link_ok:
  assumes ok: "lists_ok s L U" and e: "e \<in> outside s L U"
  shows "LRU_Append (lru_head s) e (marked e True 1 s) = Some (linked (lru_head s) e (marked e True 1 s))"
    and "lists_ok (linked (lru_head s) e (marked e True 1 s)) (L @ [e]) U"
    and "2 \<le> r \<Longrightarrow> LRU_Append (in_use_head s) e (marked e True r s) = Some (linked (in_use_head s) e (marked e True r s))"
    and "2 \<le> r \<Longrightarrow> lists_ok (linked (in_use_head s) e (marked e True r s)) L (U @ [e])"
proof -
  note d = lists_okD [OF ok]
  note l = link_rings [OF ok e, of "lru_head s" L "in_use_head s" U] and u = link_rings [OF ok e, of "in_use_head s" U "lru_head s" L]
  have app: "LRU_Append hh e (marked e True r s) = Some (linked hh e (marked e True r s))"
    if "hh \<in> live s" "prev_ptr s hh \<in> live s" "hh \<noteq> e" "prev_ptr s hh \<noteq> e" for hh r
    using LRU_Append_eq [of e "marked e True r s" hh] that e by (simp add: outside_def)
  have eo: "e \<notin> set (lru_head s # in_use_head s # L @ U)" "e \<in> live s" using e by (auto simp: outside_def)
  have sub: "set (lru_head s # L) \<subseteq> live s" "set (in_use_head s # U) \<subseteq> live s" using d(4) by auto
  have pl: "prev_ptr s (lru_head s) \<in> set (lru_head s # L)" and pu: "prev_ptr s (in_use_head s) \<in> set (in_use_head s # U)"
    using l(4) u(4) by auto
  show "LRU_Append (lru_head s) e (marked e True 1 s) = Some (linked (lru_head s) e (marked e True 1 s))"
    using app [of "lru_head s"] subsetD [OF sub(1) pl] sub(1) eo pl by auto
  show "LRU_Append (in_use_head s) e (marked e True r s) = Some (linked (in_use_head s) e (marked e True r s))"
    using app [of "in_use_head s"] subsetD [OF sub(2) pu] sub(2) eo pu by auto
  have ptr: "next_ptr (linked hh e (marked e True r s)) = next_ptr (linked hh e s)"
    "prev_ptr (linked hh e (marked e True r s)) = prev_ptr (linked hh e s)" for hh r by (simp_all add: linked_def)
  have out: "outside (linked hh e (marked e True r s)) (L @ [e]) U = outside s L U - {e}"
    "outside (linked hh e (marked e True r s)) L (U @ [e]) = outside s L U - {e}" for hh r by (auto simp: outside_def)
  have nx: "next_ptr (linked hh e s) x \<noteq> x" if "x \<in> outside s L U - {e}" "prev_ptr s hh \<notin> outside s L U" for x hh
    using that d(8) [of x] linked_same(6) [of x s hh e] by force
  have po: "prev_ptr s (lru_head s) \<notin> outside s L U" "prev_ptr s (in_use_head s) \<notin> outside s L U"
    using pl pu by (auto simp: outside_def)
  have dist: "distinct (lru_head s # in_use_head s # (L @ [e]) @ U)" "distinct (lru_head s # in_use_head s # L @ (U @ [e]))"
    using d(3) eo(1) by auto
  have outside_ok: "\<forall>x\<in>outside s L U - {e}. \<not> in_cache s x \<and> 0 < refs s x" using d(8) by blast
  show "lists_ok (linked (lru_head s) e (marked e True 1 s)) (L @ [e]) U"
    unfolding lists_ok_def ptr out
    using l(2,3) dist(1) d(4-7) eo outside_ok nx [OF _ po(1)] by auto
  show "lists_ok (linked (in_use_head s) e (marked e True r s)) L (U @ [e])" if "2 \<le> r"
    unfolding lists_ok_def ptr out
    using u(2,3) dist(2) d(4-7) eo outside_ok nx [OF _ po(2)] that by auto
qed

text \<open>Dropping a reference: to a handle outside the cache, or to an entry in use.\<close>

lemma Unref_outside:
  assumes ok: "lists_ok s L U" and e: "e \<in> outside s L U"
  shows "\<exists>s'. Unref e s = Some s' \<and> lists_ok s' L U \<and> list_frame s s' \<and> usage s' = usage s \<and> refs s' = (refs s)(e := refs s e - 1) \<and>
      (if refs s e = 1 then live s' = live s - {e} \<and> deleted s' = deleted s @ [(deleter s e, key_data s e, handle_value s e)]
       else live s' = live s \<and> deleted s' = deleted s)"
proof -
  note d = lists_okD [OF ok]
  have o: "\<not> in_cache s e" "0 < refs s e" "next_ptr s e \<noteq> e" using d(8) [OF e] by auto
  have live: "e \<in> live s" using e by (simp add: outside_def)
  define s1 where "s1 = s\<lparr>refs := (refs s)(e := refs s e - 1)\<rparr>"
  show ?thesis
  proof (cases "refs s e = 1")
    case True
    define s2 where "s2 = s1\<lparr>deleted := deleted s @ [(deleter s e, key_data s e, handle_value s e)], live := live s - {e}\<rparr>"
    have "Unref e s = Some s2"
      using True live o by (simp add: Unref_def access_defs LRUHandle_key_def s1_def s2_def)
    moreover have "lists_ok s2 L U"
      using ok e by (auto simp: lists_ok_def outside_def s1_def s2_def)
    moreover have "list_frame s s2" by (simp add: s1_def s2_def list_frame_def)
    ultimately show ?thesis using True by (auto simp: s1_def s2_def)
  next
    case False
    then have "refs s e - 1 \<noteq> 0" by simp
    then have "Unref e s = Some s1" using live o by (simp add: Unref_def access_defs s1_def)
    moreover have "lists_ok s1 L U"
      using ok e \<open>refs s e - 1 \<noteq> 0\<close> by (auto simp: lists_ok_def outside_def s1_def word_gt_0)
    moreover have "list_frame s s1" by (simp add: s1_def list_frame_def)
    ultimately show ?thesis using False by (auto simp: s1_def)
  qed
qed

lemma outside_unlinked:
  assumes "lists_ok s L U" "e \<in> set L \<union> set U"
  shows "e \<in> outside ((unlinked e s)\<lparr>in_cache := (in_cache s)(e := False)\<rparr>) (removeAll e L) (removeAll e U)"
  using assms lists_okD(3,4) [OF assms(1)] by (auto simp: outside_def)

lemma unlink_marked:
  assumes ok: "lists_ok s L U" and e: "e \<in> set L \<union> set U"
  shows "LRU_Remove e (s\<lparr>refs := r\<rparr>) = Some (unlinked e (s\<lparr>refs := r\<rparr>))"
  using neighbours [OF assms] lists_okD(4) [OF ok] e by (intro LRU_Remove_eq) auto

lemma in_cache_idem: "in_cache s e \<Longrightarrow> (in_cache s)(e := True) = in_cache s"
  by (simp add: fun_upd_idem)

lemma refs_minus_one: "2 \<le> (r :: u32) \<Longrightarrow> r \<noteq> 2 \<Longrightarrow> r - 1 \<noteq> 0 \<and> r - 1 \<noteq> 1 \<and> 2 \<le> r - 1"
  unfolding word_le_nat_alt word_unat_eq_iff by (auto simp: unat_sub word_le_nat_alt)

lemma refs_plus_one:
  assumes "2 \<le> (r :: u32)" "r \<noteq> - 1"
  shows "r \<noteq> 1 \<and> 2 \<le> r + 1"
proof -
  have "unat (r + 1) = unat r + 1" using assms(2) by (metis unatSuc add.commute eq_neg_iff_add_eq_0 Suc_eq_plus1)
  then show ?thesis using assms(1) by (auto simp: word_le_nat_alt)
qed

lemma Unref_in_use:
  assumes ok: "lists_ok s L U" and e: "e \<in> set U"
  shows "\<exists>s'. Unref e s = Some s' \<and> list_frame s s' \<and> usage s' = usage s \<and> live s' = live s \<and> deleted s' = deleted s \<and>
      refs s' = (refs s)(e := refs s e - 1) \<and> (if refs s e = 2 then lists_ok s' (L @ [e]) (removeAll e U) else lists_ok s' L U)"
proof -
  note d = lists_okD [OF ok]
  have u: "in_cache s e" "2 \<le> refs s e" "e \<in> live s" using d(4,7) e by auto
  have nL: "removeAll e L = L" using d(3) e by (intro removeAll_id) auto
  define s1 where "s1 = s\<lparr>refs := (refs s)(e := refs s e - 1)\<rparr>"
  have pos: "0 < refs s e" by (rule less_le_trans [OF _ u(2)]) simp
  show ?thesis
  proof (cases "refs s e = 2")
    case True
    let ?t = "(unlinked e s)\<lparr>in_cache := (in_cache s)(e := False)\<rparr>"
    have t: "lists_ok ?t L (removeAll e U)" using unlink_ok(2) [OF ok, of e] e nL by simp
    have eo: "e \<in> outside ?t L (removeAll e U)" using outside_unlinked [OF ok, of e] e nL by simp
    have eq: "marked e True 1 ?t = unlinked e s1"
      using True by (simp add: marked_def unlinked_def s1_def in_cache_idem [OF u(1)])
    have "LRU_Remove e s1 = Some (unlinked e s1)" unfolding s1_def using unlink_marked [OF ok] e by simp
    moreover have "LRU_Append (lru_head s) e (unlinked e s1) = Some (linked (lru_head s) e (unlinked e s1))"
      using link_ok(1) [OF t eo] unfolding eq by simp
    ultimately have "Unref e s = Some (linked (lru_head s) e (unlinked e s1))"
      using True u by (simp add: Unref_def access_defs s1_def)
    moreover have "lists_ok (linked (lru_head s) e (unlinked e s1)) (L @ [e]) (removeAll e U)"
      using link_ok(2) [OF t eo] unfolding eq by simp
    moreover have "list_frame s (linked (lru_head s) e (unlinked e s1))" by (simp add: linked_def unlinked_def s1_def list_frame_def)
    ultimately show ?thesis using True by (simp add: linked_def unlinked_def s1_def)
  next
    case False
    have "refs s e - 1 \<noteq> 0" "refs s e - 1 \<noteq> 1" "2 \<le> refs s e - 1"
      using refs_minus_one [OF u(2) False] by simp_all
    then have "Unref e s = Some s1" using u pos by (simp add: Unref_def access_defs s1_def)
    moreover have "lists_ok s1 L U"
      using ok e \<open>2 \<le> refs s e - 1\<close> d(3) by (auto simp: lists_ok_def outside_def s1_def)
    moreover have "list_frame s s1" by (simp add: s1_def list_frame_def)
    ultimately show ?thesis using False by (auto simp: s1_def)
  qed
qed

lemma Ref_ok:
  assumes ok: "lists_ok s L U" and e: "e \<in> set L \<union> set U" and max: "refs s e \<noteq> - 1"
  shows "\<exists>s'. Ref e s = Some s' \<and> list_frame s s' \<and> usage s' = usage s \<and> live s' = live s \<and> deleted s' = deleted s \<and>
      refs s' = (refs s)(e := refs s e + 1) \<and> lists_ok s' (removeAll e L) (if e \<in> set L then U @ [e] else U)"
proof (cases "e \<in> set L")
  case True
  note d = lists_okD [OF ok]
  have l: "in_cache s e" "refs s e = 1" "e \<in> live s" using d(4,6) True by auto
  have nU: "removeAll e U = U" using d(3) True by (intro removeAll_id) auto
  let ?t = "(unlinked e s)\<lparr>in_cache := (in_cache s)(e := False)\<rparr>"
  have t: "lists_ok ?t (removeAll e L) U" using unlink_ok(2) [OF ok e] nU by simp
  have eo: "e \<in> outside ?t (removeAll e L) U" using outside_unlinked [OF ok e] nU by simp
  let ?s2 = "linked (in_use_head s) e (unlinked e s)"
  have eq: "linked (in_use_head s) e (marked e True 2 ?t) = ?s2\<lparr>refs := (refs s)(e := 2)\<rparr>"
    by (simp add: marked_def unlinked_def linked_def in_cache_idem [OF l(1)])
  have "LRU_Append (in_use_head s) e (unlinked e s) = Some ?s2"
  proof -
    have "prev_ptr (unlinked e s) (in_use_head s) \<in> set (in_use_head s # U)"
      using link_rings(4) [OF t eo, of "in_use_head s" U "lru_head s" "removeAll e L"] by simp
    moreover have "set (in_use_head s # U) \<subseteq> live s" "e \<notin> set (in_use_head s # U)" using d(3,4) True by auto
    ultimately have "prev_ptr (unlinked e s) (in_use_head s) \<in> live s" "prev_ptr (unlinked e s) (in_use_head s) \<noteq> e"
      "in_use_head s \<in> live s" "in_use_head s \<noteq> e" by auto
    then show ?thesis using l(3) by (intro LRU_Append_eq) simp_all
  qed
  then have "Ref e s = Some (?s2\<lparr>refs := (refs s)(e := 2)\<rparr>)"
    using unlink_ok(1) [OF ok e] l by (simp add: Ref_def access_defs)
  moreover have "lists_ok (?s2\<lparr>refs := (refs s)(e := 2)\<rparr>) (removeAll e L) (U @ [e])"
    using link_ok(4) [OF t eo, of 2] eq by simp
  moreover have "list_frame s (?s2\<lparr>refs := (refs s)(e := 2)\<rparr>)" by (simp add: linked_def unlinked_def list_frame_def)
  ultimately show ?thesis using True l by (simp add: linked_def unlinked_def)
next
  case False
  note d = lists_okD [OF ok]
  have u: "in_cache s e" "2 \<le> refs s e" "e \<in> live s" "e \<in> set U" using d(4,7) False e by auto
  define s1 where "s1 = s\<lparr>refs := (refs s)(e := refs s e + 1)\<rparr>"
  have "refs s e \<noteq> 1" "2 \<le> refs s e + 1"
    using refs_plus_one [OF u(2) max] by simp_all
  then have "Ref e s = Some s1" using u by (simp add: Ref_def access_defs s1_def)
  moreover have "lists_ok s1 (removeAll e L) U"
    using ok False u d(3) \<open>2 \<le> refs s e + 1\<close> by (auto simp: lists_ok_def outside_def s1_def)
  moreover have "list_frame s s1" by (simp add: s1_def list_frame_def)
  ultimately show ?thesis using False by (auto simp: s1_def)
qed

end
