(* ===== verification/Lru_ops.thy ===== *)
theory Lru_ops
  imports Lru_facts
begin

text \<open>
  The invariant of \<^verbatim>\<open>LRUCache\<close> and the effect of each operation on it: the table holds exactly the entries of the two
  lists, and the usage is the sum of their charges (a sum of \<^verbatim>\<open>size_t\<close> values, hence modulo \<open>2^64\<close>).
\<close>

section \<open>The invariant\<close>

definition cache_ok :: "'x lru_cache_scheme \<Rightarrow> (nat \<Rightarrow> nat list) \<Rightarrow> nat list \<Rightarrow> nat list \<Rightarrow> bool" where
  [inv_simps]: "cache_ok s bs L U \<longleftrightarrow> table_ok s bs \<and> table_entries s bs = set L \<union> set U \<and> lists_ok s L U \<and>
     usage s = (\<Sum>e\<in>set L \<union> set U. charge s e) \<and> finite (live s)"

lemma cache_okD:
  assumes "cache_ok s bs L U"
  shows "table_ok s bs" "table_entries s bs = set L \<union> set U" "lists_ok s L U"
    "usage s = (\<Sum>e\<in>set L \<union> set U. charge s e)" "finite (live s)" "keyable s (table_entries s bs)" "chains_ok s bs"
  using assms lists_keyable [of s L U] by (auto simp: cache_ok_def table_ok_def)

text \<open>The operations never change the data of a handle, the list heads or the capacity.\<close>

definition data_frame :: "'x lru_cache_scheme \<Rightarrow> 'x lru_cache_scheme \<Rightarrow> bool" where
  "data_frame s s' \<longleftrightarrow> hash s' = hash s \<and> key_data s' = key_data s \<and> charge s' = charge s \<and>
     handle_value s' = handle_value s \<and> deleter s' = deleter s \<and> lru_head s' = lru_head s \<and>
     in_use_head s' = in_use_head s \<and> capacity s' = capacity s"

lemma data_frame_refl [simp]: "data_frame s s"
  by (simp add: data_frame_def)

lemma data_frame_trans [trans]: "data_frame s s1 \<Longrightarrow> data_frame s1 s2 \<Longrightarrow> data_frame s s2"
  by (simp add: data_frame_def)

lemma data_frame_list: "list_frame s s' \<Longrightarrow> data_frame s s'"
  using list_frameD [of s s'] by (simp add: data_frame_def)

lemma table_frame_cache:
  fixes s s' :: "'x lru_cache_scheme"
  assumes "table_frame s s'"
  shows "capacity s' = capacity s" "usage s' = usage s" "lru_head s' = lru_head s" "in_use_head s' = in_use_head s"
  using assms by (subst assms [unfolded table_frame_def], simp)+

lemma data_frame_table: "table_frame s s' \<Longrightarrow> data_frame s s'"
  using table_frameD [of s s'] table_frame_cache [of s s'] by (simp add: data_frame_def)

lemma lists_ok_table: "table_frame s s' \<Longrightarrow> lists_ok s' L U = lists_ok s L U"
  using table_frameD [of s s'] table_frame_cache [of s s'] by (simp add: lists_ok_def outside_def)

lemma lists_ok_usage [simp]: "lists_ok (s\<lparr>usage := u\<rparr>) L U = lists_ok s L U"
  by (simp add: lists_ok_def outside_def)

text \<open>What the deleter of a handle is given.\<close>

definition deletion :: "'x lru_cache_scheme \<Rightarrow> nat \<Rightarrow> nat \<times> bytes \<times> nat" where
  "deletion s e = (deleter s e, key_data s e, handle_value s e)"

lemma deletion_frame: "data_frame s s' \<Longrightarrow> deletion s' = deletion s"
  by (simp add: data_frame_def deletion_def fun_eq_iff)

section \<open>Leaving the cache\<close>

text \<open>What happens to the handle \<open>e\<close> when the cache drops its reference to it.\<close>

definition dropped :: "nat \<Rightarrow> 'x lru_cache_scheme \<Rightarrow> 'x lru_cache_scheme \<Rightarrow> bool" where
  "dropped e s s' \<longleftrightarrow> refs s' = (refs s)(e := refs s e - 1) \<and>
     (if refs s e = 1 then live s' = live s - {e} \<and> deleted s' = deleted s @ [deletion s e]
      else live s' = live s \<and> deleted s' = deleted s)"

lemma FinishErase_ok:
  assumes ok: "lists_ok s L U" and e: "e \<in> set L \<union> set U"
  shows "\<exists>s'. FinishErase e s = Some (True, s') \<and> lists_ok s' (removeAll e L) (removeAll e U) \<and> list_frame s s' \<and>
      usage s' = usage s - charge s e \<and> dropped e s s'"
proof -
  note d = lists_okD [OF ok]
  have c: "in_cache s e" "e \<in> live s" using d(4,6,7) e by auto
  then have "e \<noteq> 0" using d(5) by metis
  define t where "t = (unlinked e s)\<lparr>in_cache := (in_cache s)(e := False), usage := usage s - charge s e\<rparr>"
  have t_eq: "t = (unlinked e s)\<lparr>in_cache := (in_cache s)(e := False)\<rparr>\<lparr>usage := usage s - charge s e\<rparr>" by (simp add: t_def)
  have t: "lists_ok t (removeAll e L) (removeAll e U)" unfolding t_eq lists_ok_usage by (rule unlink_ok(2) [OF assms])
  have eo: "e \<in> outside t (removeAll e L) (removeAll e U)" using outside_unlinked [OF assms] by (simp add: t_eq outside_def)
  have fr: "list_frame s t" by (simp add: t_def unlinked_def list_frame_def)
  have same: "refs t = refs s" "live t = live s" "deleted t = deleted s" by (simp_all add: t_def unlinked_def)
  obtain s' where s': "Unref e t = Some s'" "lists_ok s' (removeAll e L) (removeAll e U)" "list_frame t s'" "usage s' = usage t"
    "refs s' = (refs t)(e := refs t e - 1)"
    "if refs t e = 1 then live s' = live t - {e} \<and> deleted s' = deleted t @ [(deleter t e, key_data t e, handle_value t e)]
       else live s' = live t \<and> deleted s' = deleted t"
    using Unref_outside [OF t eo] by blast
  have "FinishErase e s = Some (True, s')"
    using unlink_ok(1) [OF assms] c \<open>e \<noteq> 0\<close> s'(1) by (simp add: FinishErase_def access_defs t_def unlinked_def)
  moreover have "dropped e s s'"
    using s'(5,6) same list_frameD(6,8,9) [OF fr] by (simp add: dropped_def deletion_def)
  moreover have "usage s' = usage s - charge s e" using s'(4) by (simp add: t_def)
  ultimately show ?thesis using s'(2) list_frame_trans [OF fr s'(3)] by blast
qed

text \<open>Taking a key out of the table and finishing its erasure, as \<^verbatim>\<open>Erase\<close> and the eviction loops do.\<close>

definition removed :: "nat \<Rightarrow> 'x lru_cache_scheme \<Rightarrow> 'x lru_cache_scheme \<Rightarrow> bool" where
  "removed x s s' \<longleftrightarrow> (if x = 0 then refs s' = refs s \<and> live s' = live s \<and> deleted s' = deleted s else dropped x s s')"

lemma dropped_table: "table_frame s s1 \<Longrightarrow> dropped x s1 s' = dropped x s s'"
  using table_frameD [of s s1] by (simp add: dropped_def deletion_def)

lemma zero_not_listed: "lists_ok s L U \<Longrightarrow> 0 \<notin> set L \<union> set U"
  using lists_okD(4,5) [of s L U] by auto

text \<open>After the table has let go of \<open>x\<close>, dropping \<open>x\<close> restores the invariant.\<close>

lemma erase_restores:
  assumes t: "table_ok s bs" "table_entries s bs = (set L \<union> set U) - {x}" and l: "lists_ok s L U"
    and u: "usage s = (\<Sum>e\<in>set L \<union> set U. charge s e)" and fin: "finite (live s)" and x: "x = 0 \<or> x \<in> set L \<union> set U"
  shows "\<exists>s'. FinishErase x s = Some (x \<noteq> 0, s') \<and> cache_ok s' bs (removeAll x L) (removeAll x U) \<and> list_frame s s' \<and>
      removed x s s'"
proof (cases "x = 0")
  case True
  have "removeAll 0 L = L" "removeAll 0 U = U" "(set L \<union> set U) - {0} = set L \<union> set U"
    using zero_not_listed [OF l] by (auto intro!: removeAll_id)
  then show ?thesis
    using True assms by (intro exI [of _ s]) (simp add: FinishErase_def cache_ok_def removed_def list_frame_def)
next
  case False
  then have x: "x \<in> set L \<union> set U" using x by simp
  obtain s' where s': "FinishErase x s = Some (True, s')" "lists_ok s' (removeAll x L) (removeAll x U)" "list_frame s s'"
    "usage s' = usage s - charge s x" "dropped x s s'"
    using FinishErase_ok [OF l x] by blast
  have E: "set (removeAll x L) \<union> set (removeAll x U) = (set L \<union> set U) - {x}" by auto
  have liv: "live s - {x} \<subseteq> live s'" "live s' \<subseteq> live s" using s'(5) by (auto simp: dropped_def split: if_splits)
  have "table_entries s bs \<subseteq> live s'" using t(2) lists_okD(4) [OF l] liv(1) by auto
  then have "table_ok s' bs" by (rule table_ok_frame [OF t(1) s'(3)])
  moreover have "usage s' = (\<Sum>e\<in>set (removeAll x L) \<union> set (removeAll x U). charge s' e)"
    unfolding E list_frameD(7) [OF s'(3)] using s'(4) u x by (simp add: sum_diff1)
  moreover have "table_entries s' bs = set (removeAll x L) \<union> set (removeAll x U)"
    unfolding E using t(2) list_frameD(2) [OF s'(3)] by simp
  ultimately have "cache_ok s' bs (removeAll x L) (removeAll x U)"
    using s'(2) finite_subset [OF liv(2) fin] unfolding cache_ok_def by blast
  then show ?thesis using False s' by (auto simp: removed_def)
qed

lemma remove_key_ok:
  assumes "cache_ok s bs L U"
  obtains x s1 s' bs' where "table_Remove key h s = Some (x, s1)" "FinishErase x s1 = Some (x \<noteq> 0, s')"
    "cache_ok s' bs' (removeAll x L) (removeAll x U)" "data_frame s s'" "removed x s s'"
    "if x = 0 then \<forall>y\<in>set L \<union> set U. \<not> matches s key h y else x \<in> set L \<union> set U \<and> matches s key h x"
proof -
  note c = cache_okD [OF assms]
  obtain x s1 bs1 where r: "table_Remove key h s = Some (x, s1)" "table_ok s1 bs1" "table_frame s s1"
    "table_entries s1 bs1 = table_entries s bs - {x}"
    "if x = 0 then \<forall>y\<in>table_entries s bs. \<not> matches s key h y else x \<in> table_entries s bs \<and> matches s key h x"
    by (rule table_Remove_ok [OF c(1,6), where key = key and h = h])
  note fr = table_frameD [OF r(3)] table_frame_cache [OF r(3)]
  have pre: "lists_ok s1 L U" "usage s1 = (\<Sum>e\<in>set L \<union> set U. charge s1 e)" "finite (live s1)"
    "x = 0 \<or> x \<in> set L \<union> set U" "table_entries s1 bs1 = (set L \<union> set U) - {x}"
    using c r(4,5) fr lists_ok_table [OF r(3)] by (auto split: if_splits)
  obtain s' where s': "FinishErase x s1 = Some (x \<noteq> 0, s')" "cache_ok s' bs1 (removeAll x L) (removeAll x U)" "list_frame s1 s'"
    "removed x s1 s'"
    using erase_restores [OF r(2) pre(5,1-4)] by blast
  have "removed x s s'" using s'(4) fr(1,6,11) dropped_table [OF r(3)] by (cases "x = 0") (simp_all add: removed_def)
  moreover have "data_frame s s'" using data_frame_trans [OF data_frame_table [OF r(3)] data_frame_list [OF s'(3)]] .
  ultimately show thesis using that [OF r(1) s'(1,2)] r(5) unfolding c(2) by blast
qed

section \<open>The operations\<close>

text \<open>A change of the lists alone keeps the rest of the invariant.\<close>

lemma cache_ok_lists:
  assumes ok: "cache_ok s bs L U" and s': "lists_ok s' L' U'" "list_frame s s'" "usage s' = usage s" "live s' \<subseteq> live s"
    and E: "set L' \<union> set U' = set L \<union> set U"
  shows "cache_ok s' bs L' U'"
proof -
  note c = cache_okD [OF ok]
  have "table_entries s bs \<subseteq> live s'" using c(2) lists_okD(4) [OF s'(1)] E by auto
  from table_ok_frame [OF c(1) s'(2) this] show ?thesis
    using c s' E list_frameD(2,7) [OF s'(2)] finite_subset [OF s'(4) c(5)] by (simp add: cache_ok_def)
qed

lemma Lookup_ok:
  assumes ok: "cache_ok s bs L U" and max: "\<forall>y\<in>set L \<union> set U. refs s y \<noteq> - 1"
  obtains x s' where "LRUCache_Lookup key h s = Some (x, s')"
    "cache_ok s' bs (removeAll x L) (if x \<in> set L then U @ [x] else U)" "data_frame s s'" "live s' = live s" "deleted s' = deleted s"
    "refs s' = (if x = 0 then refs s else (refs s)(x := refs s x + 1))"
    "if x = 0 then \<forall>y\<in>set L \<union> set U. \<not> matches s key h y else x \<in> set L \<union> set U \<and> matches s key h x"
proof -
  note c = cache_okD [OF ok]
  obtain x where x: "table_Lookup key h s = Some x"
    "if x = 0 then \<forall>y\<in>table_entries s bs. \<not> matches s key h y else x \<in> table_entries s bs \<and> matches s key h x"
    by (rule table_Lookup_ok [OF c(7,6), where key = key and h = h])
  show thesis
  proof (cases "x = 0")
    case True
    have "removeAll 0 L = L" using zero_not_listed [OF c(3)] by (intro removeAll_id) auto
    then show thesis using that [of 0 s] True x c(2) ok zero_not_listed [OF c(3)] by (simp add: LRUCache_Lookup_def)
  next
    case False
    then have xe: "x \<in> set L \<union> set U" using x(2) c(2) by simp
    obtain s' where s': "Ref x s = Some s'" "list_frame s s'" "usage s' = usage s" "live s' = live s" "deleted s' = deleted s"
      "refs s' = (refs s)(x := refs s x + 1)" "lists_ok s' (removeAll x L) (if x \<in> set L then U @ [x] else U)"
      using Ref_ok [OF c(3) xe] max xe by blast
    have "cache_ok s' bs (removeAll x L) (if x \<in> set L then U @ [x] else U)"
      using s'(4) xe by (intro cache_ok_lists [OF ok s'(7,2,3)]) auto
    then show thesis using that [of x s'] False x c(2) s' data_frame_list [OF s'(2)] by (simp add: LRUCache_Lookup_def)
  qed
qed

text \<open>\<open>Release\<close>: an entry in use that loses its last client goes to the young end of the LRU list; a handle that is no
  longer in the cache is deleted with its last reference.\<close>

lemma Release_ok:
  assumes ok: "cache_ok s bs L U" and e: "e \<in> live s - {lru_head s, in_use_head s} - set L"
  obtains s' where "LRUCache_Release e s = Some s'"
    "if e \<in> set U \<and> refs s e = 2 then cache_ok s' bs (L @ [e]) (removeAll e U) else cache_ok s' bs L U"
    "data_frame s s'" "refs s' = (refs s)(e := refs s e - 1)"
    "if refs s e = 1 then live s' = live s - {e} \<and> deleted s' = deleted s @ [deletion s e] else live s' = live s \<and> deleted s' = deleted s"
proof (cases "e \<in> set U")
  case True
  note c = cache_okD [OF ok]
  have "refs s e \<noteq> 1" using lists_okD(7) [OF c(3) True] by (auto simp: word_le_nat_alt)
  obtain s' where s': "Unref e s = Some s'" "list_frame s s'" "usage s' = usage s" "live s' = live s" "deleted s' = deleted s"
    "refs s' = (refs s)(e := refs s e - 1)" "if refs s e = 2 then lists_ok s' (L @ [e]) (removeAll e U) else lists_ok s' L U"
    using Unref_in_use [OF c(3) True] by blast
  have E: "set (L @ [e]) \<union> set (removeAll e U) = set L \<union> set U" using True by auto
  have "if e \<in> set U \<and> refs s e = 2 then cache_ok s' bs (L @ [e]) (removeAll e U) else cache_ok s' bs L U"
    using s'(4,7) E True cache_ok_lists [OF ok _ s'(2,3), of "L @ [e]" "removeAll e U"] cache_ok_lists [OF ok _ s'(2,3), of L U]
    by (simp split: if_splits)
  then show thesis using that [of s'] s' data_frame_list [OF s'(2)] \<open>refs s e \<noteq> 1\<close> by (simp add: LRUCache_Release_def)
next
  case False
  note c = cache_okD [OF ok]
  have eo: "e \<in> outside s L U" using False e by (simp add: outside_def)
  obtain s' where s': "Unref e s = Some s'" "lists_ok s' L U" "list_frame s s'" "usage s' = usage s" "refs s' = (refs s)(e := refs s e - 1)"
    "if refs s e = 1 then live s' = live s - {e} \<and> deleted s' = deleted s @ [(deleter s e, key_data s e, handle_value s e)]
       else live s' = live s \<and> deleted s' = deleted s"
    using Unref_outside [OF c(3) eo] by blast
  have "cache_ok s' bs L U"
    using s'(6) by (intro cache_ok_lists [OF ok s'(2,3,4)]) (auto split: if_splits)
  then show thesis using that [of s'] s' False data_frame_list [OF s'(3)] by (simp add: LRUCache_Release_def deletion_def)
qed

lemma Erase_ok:
  assumes "cache_ok s bs L U"
  obtains x s' bs' where "LRUCache_Erase key h s = Some s'" "cache_ok s' bs' (removeAll x L) (removeAll x U)" "data_frame s s'"
    "removed x s s'"
    "if x = 0 then \<forall>y\<in>set L \<union> set U. \<not> matches s key h y else x \<in> set L \<union> set U \<and> matches s key h x"
proof -
  obtain x s1 s' bs' where r: "table_Remove key h s = Some (x, s1)" "FinishErase x s1 = Some (x \<noteq> 0, s')"
    "cache_ok s' bs' (removeAll x L) (removeAll x U)" "data_frame s s'" "removed x s s'"
    "if x = 0 then \<forall>y\<in>set L \<union> set U. \<not> matches s key h y else x \<in> set L \<union> set U \<and> matches s key h x"
    by (rule remove_key_ok [OF assms])
  then show thesis by (intro that [of s' bs' x]) (simp_all add: LRUCache_Erase_def)
qed

text \<open>One round of an eviction loop deletes the oldest entry.\<close>

lemma evict_oldest_ok:
  assumes ok: "cache_ok s bs (x # L) U"
  obtains s' bs' where "next_ptr s (lru_head s) = x" "x \<noteq> lru_head s" "lru_head s \<in> live s" "evict_oldest x s = Some s'"
    "cache_ok s' bs' L U" "data_frame s s'" "live s' = live s - {x}" "deleted s' = deleted s @ [deletion s x]"
    "refs s' = (refs s)(x := 0)"
proof -
  note c = cache_okD [OF ok] and l = lists_okD [OF cache_okD(3) [OF ok]]
  have x: "next_ptr s (lru_head s) = x" "x \<noteq> lru_head s" "lru_head s \<in> live s" "x \<in> live s" "refs s x = 1" "next_ptr s x \<noteq> x"
    using l(1,3,4) l(6) [of x] ring_next_neq [OF l(1), of x] by (auto simp: ring_def)
  obtain y s1 s' bs' where r: "table_Remove (key_data s x) (hash s x) s = Some (y, s1)" "FinishErase y s1 = Some (y \<noteq> 0, s')"
    "cache_ok s' bs' (removeAll y (x # L)) (removeAll y U)" "data_frame s s'" "removed y s s'"
    "if y = 0 then \<forall>z\<in>set (x # L) \<union> set U. \<not> matches s (key_data s x) (hash s x) z
      else y \<in> set (x # L) \<union> set U \<and> matches s (key_data s x) (hash s x) y"
    by (rule remove_key_ok [OF ok])
  have "matches s (key_data s x) (hash s x) x" by (simp add: matches_def)
  then have y: "y = x" "y \<noteq> 0"
    using r(6) c(1,2) inj_match [of s "table_entries s bs" y x "key_data s x" "hash s x"] by (auto simp: table_ok_def split: if_splits)
  have "removeAll x (x # L) = L" "removeAll x U = U" using l(3) by (auto intro!: removeAll_id)
  moreover have "evict_oldest x s = Some s'" using r(1,2) x y by (simp add: evict_oldest_def rd_def LRUHandle_key_def)
  ultimately show thesis
    using that [of s' bs'] x r(3-5) y by (simp add: removed_def dropped_def)
qed

text \<open>What eviction leaves of the LRU list \<open>L\<close>: the oldest entries go, one by one, as long as the usage \<open>u\<close> exceeds the
  capacity.\<close>

fun survivors :: "u64 \<Rightarrow> (nat \<Rightarrow> u64) \<Rightarrow> u64 \<Rightarrow> nat list \<Rightarrow> nat list" where
  "survivors cap ch u [] = []"
| "survivors cap ch u (x # xs) = (if u > cap then survivors cap ch (u - ch x) xs else x # xs)"

definition evicted :: "u64 \<Rightarrow> (nat \<Rightarrow> u64) \<Rightarrow> u64 \<Rightarrow> nat list \<Rightarrow> nat list" where
  "evicted cap ch u xs = take (length xs - length (survivors cap ch u xs)) xs"

lemma length_survivors: "length (survivors cap ch u xs) \<le> length xs"
  by (induction cap ch u xs rule: survivors.induct) auto

lemma evicted_simps [simp]:
  "evicted cap ch u [] = []"
  "evicted cap ch u (x # xs) = (if u > cap then x # evicted cap ch (u - ch x) xs else [])"
  using length_survivors [of cap ch "u - ch x" xs] by (simp_all add: evicted_def Suc_diff_le)

lemma evicted_survivors: "evicted cap ch u xs @ survivors cap ch u xs = xs"
  by (induction cap ch u xs rule: survivors.induct) auto

text \<open>The effect of evicting the entries \<open>xs\<close>.\<close>

definition evicting :: "nat list \<Rightarrow> 'x lru_cache_scheme \<Rightarrow> 'x lru_cache_scheme \<Rightarrow> bool" where
  "evicting xs s s' \<longleftrightarrow> data_frame s s' \<and> live s' = live s - set xs \<and> deleted s' = deleted s @ map (deletion s) xs \<and>
     (\<forall>y. y \<notin> set xs \<longrightarrow> refs s' y = refs s y)"

lemma evicting_Nil [simp]: "evicting [] s s"
  by (simp add: evicting_def)

lemma evicting_Cons:
  assumes "data_frame s s1" "live s1 = live s - {x}" "deleted s1 = deleted s @ [deletion s x]" "refs s1 = (refs s)(x := 0)"
    and "evicting xs s1 s'"
  shows "evicting (x # xs) s s'"
  using assms data_frame_trans [OF assms(1)] deletion_frame [OF assms(1)] by (auto simp: evicting_def)

lemma evict_loop_ok:
  assumes "cache_ok s bs L U"
  shows "\<exists>s' bs'. evict_loop s = Some s' \<and> cache_ok s' bs' (survivors (capacity s) (charge s) (usage s) L) U \<and>
      evicting (evicted (capacity s) (charge s) (usage s) L) s s' \<and>
      (survivors (capacity s) (charge s) (usage s) L = [] \<or> usage s' \<le> capacity s)"
  using assms
proof (induction L arbitrary: s bs)
  case Nil
  have "next_ptr s (lru_head s) = lru_head s" "lru_head s \<in> live s"
    using lists_okD(1,4) [OF cache_okD(3) [OF Nil]] by (auto simp: ring_def)
  then show ?case using Nil by (subst evict_loop.simps) (auto simp: rd_def)
next
  case (Cons x L)
  obtain s1 bs1 where e: "next_ptr s (lru_head s) = x" "x \<noteq> lru_head s" "lru_head s \<in> live s" "evict_oldest x s = Some s1"
    "cache_ok s1 bs1 L U" "data_frame s s1" "live s1 = live s - {x}" "deleted s1 = deleted s @ [deletion s x]"
    "refs s1 = (refs s)(x := 0)"
    by (rule evict_oldest_ok [OF Cons.prems])
  show ?case
  proof (cases "usage s > capacity s")
    case True
    have f: "capacity s1 = capacity s" "charge s1 = charge s" using e(6) by (simp_all add: data_frame_def)
    have "x \<notin> set L \<union> set U" using lists_okD(3) [OF cache_okD(3) [OF Cons.prems]] by auto
    then have "usage s1 = usage s - charge s x"
      using cache_okD(4) [OF e(5)] cache_okD(4) [OF Cons.prems] f(2) by simp
    then obtain s' bs' where s': "evict_loop s1 = Some s'"
      "cache_ok s' bs' (survivors (capacity s) (charge s) (usage s) (x # L)) U"
      "evicting (evicted (capacity s) (charge s) (usage s - charge s x) L) s1 s'"
      "survivors (capacity s) (charge s) (usage s) (x # L) = [] \<or> usage s' \<le> capacity s"
      using Cons.IH [OF e(5)] f True by auto
    have "evicting (evicted (capacity s) (charge s) (usage s) (x # L)) s s'"
      using evicting_Cons [OF e(6-9) s'(3)] True by simp
    moreover have "evict_loop s = Some s'" using True e(1-4) s'(1) by (subst evict_loop.simps) (simp add: rd_def)
    ultimately show ?thesis using s'(2,4) by blast
  next
    case False
    then show ?thesis using e(1-3) Cons.prems by (subst evict_loop.simps) (auto simp: rd_def)
  qed
qed

lemma Prune_ok:
  assumes "cache_ok s bs L U"
  shows "\<exists>s' bs'. LRUCache_Prune s = Some s' \<and> cache_ok s' bs' [] U \<and> evicting L s s'"
  using assms
proof (induction L arbitrary: s bs)
  case Nil
  have "next_ptr s (lru_head s) = lru_head s" "lru_head s \<in> live s"
    using lists_okD(1,4) [OF cache_okD(3) [OF Nil]] by (auto simp: ring_def)
  then show ?case using Nil by (subst LRUCache_Prune.simps) (auto simp: rd_def)
next
  case (Cons x L)
  obtain s1 bs1 where e: "next_ptr s (lru_head s) = x" "x \<noteq> lru_head s" "lru_head s \<in> live s" "evict_oldest x s = Some s1"
    "cache_ok s1 bs1 L U" "data_frame s s1" "live s1 = live s - {x}" "deleted s1 = deleted s @ [deletion s x]"
    "refs s1 = (refs s)(x := 0)"
    by (rule evict_oldest_ok [OF Cons.prems])
  obtain s' bs' where s': "LRUCache_Prune s1 = Some s'" "cache_ok s' bs' [] U" "evicting L s1 s'" using Cons.IH [OF e(5)] by blast
  have "LRUCache_Prune s = Some s'" using e(1-4) s'(1) by (subst LRUCache_Prune.simps) (simp add: rd_def)
  then show ?case using s'(2) evicting_Cons [OF e(6-9) s'(3)] by blast
qed

section \<open>Insertion\<close>

text \<open>The freshly allocated handle, its \<^verbatim>\<open>next\<close> pointer cleared.\<close>

definition fresh_state :: "nat \<Rightarrow> bytes \<Rightarrow> u32 \<Rightarrow> nat \<Rightarrow> u64 \<Rightarrow> nat \<Rightarrow> 'x lru_cache_scheme \<Rightarrow> 'x lru_cache_scheme" where
  "fresh_state e key h v ch del s = (new_handle e key h v ch del s)\<lparr>next_ptr := (next_ptr s)(e := 0)\<rparr>"

lemma fresh_state_sel [simp]:
  "live (fresh_state e key h v ch del s) = insert e (live s)" "refs (fresh_state e key h v ch del s) = (refs s)(e := 1)"
  "in_cache (fresh_state e key h v ch del s) = (in_cache s)(e := False)" "hash (fresh_state e key h v ch del s) = (hash s)(e := h)"
  "key_data (fresh_state e key h v ch del s) = (key_data s)(e := key)" "charge (fresh_state e key h v ch del s) = (charge s)(e := ch)"
  "handle_value (fresh_state e key h v ch del s) = (handle_value s)(e := v)"
  "deleter (fresh_state e key h v ch del s) = (deleter s)(e := del)" "deleted (fresh_state e key h v ch del s) = deleted s"
  "next_ptr (fresh_state e key h v ch del s) = (next_ptr s)(e := 0)" "prev_ptr (fresh_state e key h v ch del s) = prev_ptr s"
  "lru_head (fresh_state e key h v ch del s) = lru_head s" "in_use_head (fresh_state e key h v ch del s) = in_use_head s"
  "capacity (fresh_state e key h v ch del s) = capacity s" "usage (fresh_state e key h v ch del s) = usage s"
  "next_hash (fresh_state e key h v ch del s) = next_hash s" "buckets (fresh_state e key h v ch del s) = buckets s"
  "table_length (fresh_state e key h v ch del s) = table_length s" "elems (fresh_state e key h v ch del s) = elems s"
  by (simp_all add: fresh_state_def new_handle_def)

lemma chains_live: "chains_ok s bs \<Longrightarrow> i < length (buckets s) \<Longrightarrow> x \<in> set (bs i) \<Longrightarrow> x \<in> live s"
  using chains_okD(3) by blast

lemma fresh_ok:
  assumes ok: "cache_ok s bs L U" and e: "e \<notin> live s" "e \<noteq> 0"
  shows "cache_ok (fresh_state e key h v ch del s) bs L U" "e \<in> outside (fresh_state e key h v ch del s) L U"
proof -
  note c = cache_okD [OF ok] and l = lists_okD [OF cache_okD(3) [OF ok]]
  let ?s = "fresh_state e key h v ch del s"
  have notin: "e \<notin> set L" "e \<notin> set U" "e \<noteq> lru_head s" "e \<noteq> in_use_head s" "e \<notin> table_entries s bs"
    using e(1) l(4) c(2) by auto
  have ring: "ring (next_ptr ?s) (prev_ptr ?s) (lru_head s) L" "ring (next_ptr ?s) (prev_ptr ?s) (in_use_head s) U"
    using ring_cong [of "lru_head s" L "next_ptr ?s" "next_ptr s" "prev_ptr ?s" "prev_ptr s"]
      ring_cong [of "in_use_head s" U "next_ptr ?s" "next_ptr s" "prev_ptr ?s" "prev_ptr s"] l(1,2) notin by auto
  have out: "outside ?s L U = insert e (outside s L U)" using notin by (auto simp: outside_def)
  have "\<forall>x\<in>outside s L U. x \<noteq> e" using e(1) by (auto simp: outside_def)
  then have outs: "\<forall>x\<in>outside ?s L U. \<not> in_cache ?s x \<and> 0 < refs ?s x \<and> next_ptr ?s x \<noteq> x"
    unfolding out using l(8) e(2) by auto
  have "lists_ok ?s L U"
    unfolding lists_ok_def using ring l(3-7) notin outs e(2) by auto
  moreover have "chains_ok ?s bs"
    using c(7) chains_live [OF c(7)] e(1) by (auto simp: chains_ok_def)
  moreover have "inj_on (\<lambda>x. (hash ?s x, key_data ?s x)) (table_entries s bs)"
    using c(1) notin(5) by (auto simp: table_ok_def inj_on_def)
  moreover have "(\<Sum>x\<in>set L \<union> set U. charge ?s x) = (\<Sum>x\<in>set L \<union> set U. charge s x)"
    using notin(1,2) by (intro sum.cong) auto
  ultimately show "cache_ok ?s bs L U"
    using c(1,2,4,5) unfolding cache_ok_def table_ok_def by simp
  show "e \<in> outside ?s L U" by (simp add: out)
qed

text \<open>The handle in the cache: linked, marked, counted, and not yet in the table.\<close>

definition entered :: "nat \<Rightarrow> u64 \<Rightarrow> 'x lru_cache_scheme \<Rightarrow> 'x lru_cache_scheme" where
  "entered e ch s = (linked (in_use_head s) e (marked e True 2 s))\<lparr>usage := usage s + ch\<rparr>"

lemma entered_frame: "list_frame s (entered e ch s)"
  by (simp add: entered_def list_frame_def linked_def marked_def)

lemma entered_sel [simp]:
  "live (entered e ch s) = live s" "refs (entered e ch s) = (refs s)(e := 2)" "deleted (entered e ch s) = deleted s"
  "usage (entered e ch s) = usage s + ch" "in_cache (entered e ch s) = (in_cache s)(e := True)"
  by (simp_all add: entered_def linked_def marked_def)

lemma enter_ok:
  assumes ok: "cache_ok s bs L U" and e: "e \<in> outside s L U" "charge s e = ch" and few: "card (set L \<union> set U) < 2 ^ 31"
  obtains old t' s' bs' where "table_Insert e (entered e ch s) = Some (old, t')" "FinishErase old t' = Some (old \<noteq> 0, s')"
    "cache_ok s' bs' (removeAll old L) (removeAll old U @ [e])" "data_frame s s'" "removed old (entered e ch s) s'"
    "if old = 0 then \<forall>y\<in>set L \<union> set U. \<not> matches s (key_data s e) (hash s e) y
      else old \<in> set L \<union> set U \<and> matches s (key_data s e) (hash s e) old"
proof -
  note c = cache_okD [OF ok] and l = lists_okD [OF cache_okD(3) [OF ok]]
  let ?t = "entered e ch s"
  note fr = list_frameD [OF entered_frame [of s e ch]]
  have eE: "e \<notin> set L \<union> set U" "e \<in> live s" "e \<noteq> 0" using e(1) l(5) by (auto simp: outside_def intro: ccontr)
  have lt: "lists_ok ?t L (U @ [e])" using link_ok(4) [OF c(3) e(1), of 2] by (simp add: entered_def)
  have tt: "table_ok ?t bs" using entries_live [OF c(7)] by (intro table_ok_frame [OF c(1) entered_frame]) simp
  have Et: "table_entries ?t bs = set L \<union> set U" using c(2) fr(2) by simp
  have pre: "keyable ?t (insert e (table_entries ?t bs))" "e \<notin> table_entries ?t bs" "e \<in> live ?t" "card (table_entries ?t bs) < 2 ^ 31"
    using lists_keyable [OF lt] eE few Et by simp_all
  obtain old t' bs' where i: "table_Insert e ?t = Some (old, t')" "table_ok t' bs'" "table_frame ?t t'"
    "table_entries t' bs' = insert e (table_entries ?t bs - {old})"
    "if old = 0 then \<forall>y\<in>table_entries ?t bs. \<not> matches ?t (key_data ?t e) (hash ?t e) y
       else old \<in> table_entries ?t bs \<and> matches ?t (key_data ?t e) (hash ?t e) old"
    using table_Insert_ok [OF tt pre(1-3) eE(3) pre(4)] by blast
  have same: "matches ?t = matches s" using fr(5,6) by (simp add: matches_def fun_eq_iff)
  note old = i(5) [unfolded Et fr(5,6) same]
  have oe: "old \<noteq> e" "old = 0 \<or> old \<in> set L \<union> set (U @ [e])" using old eE by (auto split: if_splits)
  note ft = table_frameD [OF i(3)] table_frame_cache [OF i(3)]
  have "table_entries t' bs' = (set L \<union> set (U @ [e])) - {old}" using i(4) Et oe(1) by auto
  moreover have "lists_ok t' L (U @ [e])" using lt lists_ok_table [OF i(3)] by simp
  moreover have "usage t' = (\<Sum>x\<in>set L \<union> set (U @ [e]). charge t' x)"
    using c(4) eE(1) e(2) fr(7) ft by (simp add: add.commute)
  moreover have "finite (live t')" using c(5) ft(1) by simp
  ultimately obtain s' where s': "FinishErase old t' = Some (old \<noteq> 0, s')" "cache_ok s' bs' (removeAll old L) (removeAll old (U @ [e]))"
    "list_frame t' s'" "removed old t' s'"
    using erase_restores [OF i(2) _ _ _ _ oe(2)] by blast
  have "data_frame s s'"
    using data_frame_list [OF entered_frame] data_frame_table [OF i(3)] data_frame_list [OF s'(3)] data_frame_trans by blast
  moreover have "removed old ?t s'" using s'(4) ft(1,6,11) dropped_table [OF i(3)] by (cases "old = 0") (simp_all add: removed_def)
  moreover have "cache_ok s' bs' (removeAll old L) (removeAll old U @ [e])" using s'(2) oe(1) by simp
  ultimately show thesis using that [OF i(1) s'(1)] old by blast
qed

text \<open>With caching on, \<open>Insert\<close> replaces the entry of the same key, if any, and evicts from the old end of the LRU list.\<close>

lemma insert_unfold:
  assumes ok: "cache_ok s bs L U" and e: "e \<notin> live s" "e \<noteq> 0"
  shows "LRUCache_Insert e key h v ch del s = (if capacity s > 0
     then do { (old, s1) \<leftarrow> table_Insert e (entered e ch (fresh_state e key h v ch del s));
               (erased, s1) \<leftarrow> FinishErase old s1;
               s' \<leftarrow> evict_loop s1; Some (e, s') }
     else do { s' \<leftarrow> evict_loop (fresh_state e key h v ch del s); Some (e, s') })"
proof -
  note l = lists_okD [OF cache_okD(3) [OF ok]]
  have "prev_ptr s (in_use_head s) \<in> set (in_use_head s # U)" using ring_in(2) [OF l(2)] by simp
  then have p: "prev_ptr s (in_use_head s) \<in> live s" "in_use_head s \<in> live s" using l(4) by auto
  then have n: "prev_ptr s (in_use_head s) \<noteq> e" "in_use_head s \<noteq> e" using e(1) by auto
  let ?n = "new_handle e key h v ch del s"
  have sel: "live ?n = insert e (live s)" "in_use_head ?n = in_use_head s" "prev_ptr ?n = prev_ptr s" "refs ?n = (refs s)(e := 1)"
    "capacity ?n = capacity s" "next_ptr ?n = next_ptr s" "in_cache ?n = (in_cache s)(e := False)" "usage ?n = usage s"
    by (simp_all add: new_handle_def)
  have m: "?n\<lparr>refs := (refs s)(e := 2), in_cache := (in_cache s)(e := True)\<rparr> = marked e True 2 ?n" by (simp add: marked_def sel)
  have "LRU_Append (in_use_head s) e (marked e True 2 ?n) = Some (linked (in_use_head s) e (marked e True 2 ?n))"
    using p n by (intro LRU_Append_eq) (simp_all add: sel)
  moreover have "(linked (in_use_head s) e (marked e True 2 ?n))\<lparr>usage := usage s + ch\<rparr> = entered e ch (fresh_state e key h v ch del s)"
    by (simp add: entered_def fresh_state_def linked_def marked_def new_handle_def)
  moreover have "usage (linked (in_use_head s) e (marked e True 2 ?n)) = usage s" by (simp add: linked_def marked_def sel)
  ultimately show ?thesis
    by (simp add: LRUCache_Insert_def Let_def access_defs sel m fresh_state_def [symmetric] split_def)
qed

text \<open>What an insertion that replaces \<open>old\<close> (\<open>0\<close> for none) and evicts \<open>xs\<close> does to the memory.\<close>

definition inserted_over :: "nat \<Rightarrow> nat \<Rightarrow> nat list \<Rightarrow> nat list \<Rightarrow> 'x lru_cache_scheme \<Rightarrow> 'x lru_cache_scheme \<Rightarrow> bool" where
  "inserted_over e old L xs s s' \<longleftrightarrow>
     live s' = insert e (live s) - (if old \<in> set L then {old} else {}) - set xs \<and>
     deleted s' = deleted s @ (if old \<in> set L then [deletion s old] else []) @ map (deletion s) xs \<and>
     (\<forall>y. y \<notin> set xs \<longrightarrow> refs s' y = (if y = e then 2 else if y = old \<and> old \<noteq> 0 then refs s y - 1 else refs s y))"

lemma survivors_cong: "\<forall>x\<in>set xs. ch x = ch' x \<Longrightarrow> survivors cap ch u xs = survivors cap ch' u xs"
  by (induction cap ch u xs rule: survivors.induct) auto

lemma evicted_cong: "\<forall>x\<in>set xs. ch x = ch' x \<Longrightarrow> evicted cap ch u xs = evicted cap ch' u xs"
  using survivors_cong [of xs ch ch' cap u] by (simp add: evicted_def)

lemma evicted_subset: "set (evicted cap ch u xs) \<subseteq> set xs"
  by (auto simp: evicted_def dest: in_set_takeD)

lemma Insert_on:
  assumes ok: "cache_ok s bs L U" and e: "e \<notin> live s" "e \<noteq> 0" and few: "card (live s) < 2 ^ 31" and on: "capacity s > 0"
    and f_def: "f = fresh_state e key h v ch del s"
  obtains old s' bs' where "LRUCache_Insert e key h v ch del s = Some (e, s')"
    "cache_ok s' bs' (survivors (capacity s) (charge s) (usage s + ch - (if old = 0 then 0 else charge s old)) (removeAll old L))
       (removeAll old U @ [e])"
    "data_frame f s'"
    "inserted_over e old L (evicted (capacity s) (charge s) (usage s + ch - (if old = 0 then 0 else charge s old)) (removeAll old L)) s s'"
    "if old = 0 then \<forall>y\<in>set L \<union> set U. \<not> matches s key h y else old \<in> set L \<union> set U \<and> matches s key h old"
    "survivors (capacity s) (charge s) (usage s + ch - (if old = 0 then 0 else charge s old)) (removeAll old L) = [] \<or> usage s' \<le> capacity s"
proof -
  note c = cache_okD [OF ok] and l = lists_okD [OF cache_okD(3) [OF ok]]
  note f = fresh_ok [OF ok e, of key h v ch del, folded f_def]
  have E: "set L \<union> set U \<subseteq> live s" "e \<notin> set L \<union> set U" using l(4) e(1) by auto
  have cardE: "card (set L \<union> set U) < 2 ^ 31" using card_mono [OF c(5) E(1)] few by simp
  have fe: "charge f e = ch" "key_data f e = key" "hash f e = h" by (simp_all add: f_def)
  obtain old t' s1 bs1 where i: "table_Insert e (entered e ch f) = Some (old, t')" "FinishErase old t' = Some (old \<noteq> 0, s1)"
    "cache_ok s1 bs1 (removeAll old L) (removeAll old U @ [e])" "data_frame f s1" "removed old (entered e ch f) s1"
    "if old = 0 then \<forall>y\<in>set L \<union> set U. \<not> matches f (key_data f e) (hash f e) y
      else old \<in> set L \<union> set U \<and> matches f (key_data f e) (hash f e) old"
    by (rule enter_ok [OF f fe(1) cardE])
  have mt: "matches f key h y = matches s key h y" "deletion f y = deletion s y" "charge f y = charge s y"
    if "y \<noteq> e" for y using that by (simp_all add: matches_def deletion_def f_def)
  have old: "if old = 0 then \<forall>y\<in>set L \<union> set U. \<not> matches s key h y else old \<in> set L \<union> set U \<and> matches s key h old"
    using i(6) E(2) mt(1) unfolding fe by metis
  have oe: "old \<noteq> e" using old E(2) e(2) by metis
  obtain s' bs' where s': "evict_loop s1 = Some s'"
    "cache_ok s' bs' (survivors (capacity s1) (charge s1) (usage s1) (removeAll old L)) (removeAll old U @ [e])"
    "evicting (evicted (capacity s1) (charge s1) (usage s1) (removeAll old L)) s1 s'"
    "survivors (capacity s1) (charge s1) (usage s1) (removeAll old L) = [] \<or> usage s' \<le> capacity s1"
    using evict_loop_ok [OF i(3)] by blast
  have cap: "capacity s1 = capacity s" "charge s1 = charge f" using i(4) by (simp_all add: data_frame_def f_def)
  have dE: "set (removeAll old L) \<union> set (removeAll old U @ [e]) = insert e ((set L \<union> set U) - {old})" using oe by auto
  have sumE: "(\<Sum>x\<in>(set L \<union> set U) - {old}. charge f x) = usage s - (if old = 0 then 0 else charge s old)"
  proof -
    have "(\<Sum>x\<in>(set L \<union> set U) - {old}. charge f x) = (\<Sum>x\<in>(set L \<union> set U) - {old}. charge s x)"
      using E(2) mt(3) by (intro sum.cong) (auto intro!: mt(3))
    then show ?thesis using old zero_not_listed [OF c(3)] c(4) by (auto simp: sum_diff1 split: if_splits)
  qed
  define u where "u = usage s + ch - (if old = 0 then 0 else charge s old)"
  have us: "usage s1 = u"
    using cache_okD(4) [OF i(3)] E(2) sumE fe(1) unfolding dE cap(2) by (simp add: u_def)
  have eqL: "\<forall>x\<in>set (removeAll old L). charge f x = charge s x"
  proof
    fix x assume "x \<in> set (removeAll old L)"
    then have "x \<noteq> e" using E(2) by auto
    then show "charge f x = charge s x" by (rule mt(3))
  qed
  note surv = s'(2-4) [unfolded cap us survivors_cong [OF eqL] evicted_cong [OF eqL]]
  let ?ev = "evicted (capacity s) (charge s) u (removeAll old L)"
  have evL: "set ?ev \<subseteq> set L - {old}" using evicted_subset [of "capacity s" "charge s" u "removeAll old L"] by auto
  have "data_frame f s'" using surv(2) data_frame_trans [OF i(4)] by (simp add: evicting_def)
  moreover have "LRUCache_Insert e key h v ch del s = Some (e, s')"
    using insert_unfold [OF ok e, of key h v ch del] i(1,2) s'(1) on by (simp add: f_def)
  moreover have "inserted_over e old L ?ev s s'"
  proof -
    have refs_old: "refs s old = 1 \<longleftrightarrow> old \<in> set L" if "old \<noteq> 0"
    proof -
      have "old \<in> set L \<or> old \<in> set U" using that old by auto
      then show ?thesis using l(6) [of old] l(7) [of old] by (auto simp: word_le_nat_alt)
    qed
    have "deletion (entered e ch f) old = deletion s old"
      using mt(2) [OF oe] deletion_frame [OF data_frame_list [OF entered_frame [of f e ch]]] by simp
    then have s1: "refs s1 = (if old = 0 then (refs s)(e := 2) else (refs s)(e := 2, old := refs s old - 1))"
      "live s1 = insert e (live s) - (if old \<in> set L then {old} else {})"
      "deleted s1 = deleted s @ (if old \<in> set L then [deletion s old] else [])"
      using i(5) refs_old oe zero_not_listed [OF c(3)] by (auto simp: removed_def dropped_def f_def split: if_splits)
    have "map (deletion s1) ?ev = map (deletion s) ?ev"
      using evL E(2) deletion_frame [OF i(4)] by (auto intro!: mt(2))
    then show ?thesis using surv(2) s1 oe by (auto simp: evicting_def inserted_over_def)
  qed
  ultimately show thesis using that [of s' bs' old] surv(1,3) old unfolding u_def by blast
qed

text \<open>With capacity \<open>0\<close> nothing is cached: the handle belongs to its client alone.\<close>

lemma Insert_off:
  assumes ok: "cache_ok s bs L U" and e: "e \<notin> live s" "e \<noteq> 0" and off: "capacity s = 0"
    and f_def: "f = fresh_state e key h v ch del s"
  obtains s' bs' where "LRUCache_Insert e key h v ch del s = Some (e, s')"
    "cache_ok s' bs' (survivors 0 (charge s) (usage s) L) U" "e \<in> outside s' (survivors 0 (charge s) (usage s) L) U"
    "data_frame f s'" "evicting (evicted 0 (charge s) (usage s) L) f s'"
proof -
  note f = fresh_ok [OF ok e, of key h v ch del, folded f_def]
  have eL: "e \<notin> set L" using f(2) by (simp add: outside_def)
  have cong: "\<forall>x\<in>set L. charge f x = charge s x" using eL by (auto simp: f_def)
  have sel: "capacity f = 0" "usage f = usage s" using off by (simp_all add: f_def)
  obtain s' bs' where s': "evict_loop f = Some s'" "cache_ok s' bs' (survivors 0 (charge s) (usage s) L) U"
    "evicting (evicted 0 (charge s) (usage s) L) f s'"
    using evict_loop_ok [OF f(1)] unfolding sel survivors_cong [OF cong] evicted_cong [OF cong] by blast
  have "data_frame f s'" "live s' = live f - set (evicted 0 (charge s) (usage s) L)" using s'(3) by (simp_all add: evicting_def)
  moreover have "set (survivors 0 (charge s) (usage s) L) \<subseteq> set L"
    using evicted_survivors [of 0 "charge s" "usage s" L] by (metis set_append sup_ge2)
  ultimately have "e \<in> outside s' (survivors 0 (charge s) (usage s) L) U"
    using f(2) eL evicted_subset [of 0 "charge s" "usage s" L] by (auto simp: outside_def data_frame_def)
  then show thesis
    using that [of s' bs'] s' insert_unfold [OF ok e, of key h v ch del] off \<open>data_frame f s'\<close> by (simp add: f_def)
qed

section \<open>Construction and destruction\<close>

lemma new_ok:
  assumes "a \<noteq> b" "a \<noteq> 0" "b \<noteq> 0"
  obtains s where "LRUCache_new a b = Some s" "cache_ok s (\<lambda>_. []) [] []" "live s = {a, b}" "lru_head s = a" "in_use_head s = b"
    "deleted s = []" "capacity s = 0" "refs s = (\<lambda>_. 0)"
proof -
  have "grow 4 0 = Some 4" by (subst grow.simps) simp
  then have "LRUCache_new a b = Some \<lparr>live = {a, b}, handle_value = \<lambda>_. 0, deleter = \<lambda>_. 0, next_hash = \<lambda>_. 0, next_ptr = id, prev_ptr = id,
       charge = \<lambda>_. 0, key_data = \<lambda>_. [], in_cache = \<lambda>_. False, refs = \<lambda>_. 0, hash = \<lambda>_. 0, deleted = [],
       buckets = replicate 4 0, table_length = 4, elems = 0, capacity = 0, usage = 0, lru_head = a, in_use_head = b\<rparr>"
    (is "_ = Some ?s")
    by (simp add: LRUCache_new_def Resize_def)
  moreover have "cache_ok ?s (\<lambda>_. []) [] []"
    using assms by (auto simp: cache_ok_def table_ok_def chains_ok_def lists_ok_def outside_def ring_def entries_def word_less_nat_alt)
  ultimately show thesis by (intro that [of ?s]) simp_all
qed

text \<open>The destructor's loop runs the deleter of every entry of the LRU list, oldest first.\<close>

lemma links_hseg: "links nx pv a xs b \<Longrightarrow> 0 \<notin> set xs \<Longrightarrow> hseg nx (nx a) xs b"
  by (induction xs arbitrary: a) auto

lemma destroy_loop_ok:
  assumes "hseg (next_ptr s) e L (lru_head s)" "distinct (lru_head s # L)"
    and "\<forall>x\<in>set L. in_cache s x \<and> refs s x = 1 \<and> x \<in> live s \<and> next_ptr s x \<noteq> x"
  shows "\<exists>s'. destroy_loop e s = Some s' \<and> live s' = live s - set L \<and> deleted s' = deleted s @ map (deletion s) L"
  using assms
proof (induction L arbitrary: e s)
  case Nil
  then show ?case by (subst destroy_loop.simps) simp
next
  case (Cons x L)
  then have x: "e = x" "x \<noteq> lru_head s" "in_cache s x" "refs s x = 1" "x \<in> live s" "next_ptr s x \<noteq> x" by auto
  define s1 where "s1 = s\<lparr>in_cache := (in_cache s)(x := False), refs := (refs s)(x := 0),
    deleted := deleted s @ [deletion s x], live := live s - {x}\<rparr>"
  have step: "destroy_loop e s = destroy_loop (next_ptr s x) s1"
    using x by (subst destroy_loop.simps) (simp add: access_defs Unref_def LRUHandle_key_def s1_def deletion_def)
  have "hseg (next_ptr s1) (next_ptr s x) L (lru_head s1)" "distinct (lru_head s1 # L)"
    "\<forall>y\<in>set L. in_cache s1 y \<and> refs s1 y = 1 \<and> y \<in> live s1 \<and> next_ptr s1 y \<noteq> y"
    using Cons.prems by (auto simp: s1_def)
  from Cons.IH [OF this] obtain s' where "destroy_loop (next_ptr s x) s1 = Some s'" "live s' = live s1 - set L"
    "deleted s' = deleted s1 @ map (deletion s1) L" by blast
  moreover have "deletion s1 = deletion s" by (simp add: s1_def deletion_def fun_eq_iff)
  ultimately show ?case using step by (auto simp: s1_def)
qed

lemma destroy_ok:
  assumes ok: "cache_ok s bs L []"
  shows "\<exists>s'. LRUCache_destroy s = Some s' \<and> live s' = live s - set L \<and> deleted s' = deleted s @ map (deletion s) L"
proof -
  note l = lists_okD [OF cache_okD(3) [OF ok]]
  have heads: "next_ptr s (in_use_head s) = in_use_head s" "in_use_head s \<in> live s" "lru_head s \<in> live s"
    using l(2,4) by (auto simp: ring_def)
  have "hseg (next_ptr s) (next_ptr s (lru_head s)) L (lru_head s)"
    using l(1) zero_not_listed [OF cache_okD(3) [OF ok]] by (intro links_hseg [of _ "prev_ptr s"]) (auto simp: ring_def)
  moreover have "\<forall>x\<in>set L. in_cache s x \<and> refs s x = 1 \<and> x \<in> live s \<and> next_ptr s x \<noteq> x"
    using l(4,6) ring_next_neq [OF l(1)] by auto
  ultimately show ?thesis
    using destroy_loop_ok [of s "next_ptr s (lru_head s)" L] heads l(3) by (simp add: LRUCache_destroy_def rd_def)
qed

end
