(* ===== verification/Lru_client.thy ===== *)
theory Lru_client
  imports Lru_ops "HOL-Library.Multiset"
begin

text \<open>
  \<^verbatim>\<open>LRUCache\<close> and its clients.  A configuration is the cache, the number of times each handle is held by clients and
  the list of what has been inserted so far.  The contract of \<^verbatim>\<open>include/cache.h\<close> is a step relation: a client releases
  only handles it holds, and memory is finite.
\<close>

type_synonym deletions = "(nat \<times> bytes \<times> nat) list"

inductive cache_step :: "lru_cache \<times> (nat \<Rightarrow> nat) \<times> deletions \<Rightarrow> lru_cache \<times> (nat \<Rightarrow> nat) \<times> deletions \<Rightarrow> bool" where
  insert_step: "e \<notin> live s \<Longrightarrow> e \<noteq> 0 \<Longrightarrow> card (live s) < 2 ^ 31 \<Longrightarrow> LRUCache_Insert e key h v ch del s = Some (e', s') \<Longrightarrow>
    cache_step (s, H, I) (s', H(e' := Suc (H e')), I @ [(del, key, v)])"
| lookup_step: "(\<And>y. H y < 2 ^ 32 - 2) \<Longrightarrow> LRUCache_Lookup key h s = Some (e, s') \<Longrightarrow>
    cache_step (s, H, I) (s', if e = 0 then H else H(e := Suc (H e)), I)"
| release_step: "H e > 0 \<Longrightarrow> LRUCache_Release e s = Some s' \<Longrightarrow> cache_step (s, H, I) (s', H(e := H e - 1), I)"
| erase_step: "LRUCache_Erase key h s = Some s' \<Longrightarrow> cache_step (s, H, I) (s', H, I)"
| prune_step: "LRUCache_Prune s = Some s' \<Longrightarrow> cache_step (s, H, I) (s', H, I)"
| capacity_step: "cache_step (s, H, I) (SetCapacity c s, H, I)"

inductive cache_reach :: "lru_cache \<times> (nat \<Rightarrow> nat) \<times> deletions \<Rightarrow> bool" where
  start: "a \<noteq> b \<Longrightarrow> a \<noteq> 0 \<Longrightarrow> b \<noteq> 0 \<Longrightarrow> LRUCache_new a b = Some s \<Longrightarrow> cache_reach (s, \<lambda>_. 0, [])"
| step: "cache_reach c \<Longrightarrow> cache_step c c' \<Longrightarrow> cache_reach c'"

section \<open>The client invariant\<close>

definition handles :: "'x lru_cache_scheme \<Rightarrow> nat set" where
  "handles s = live s - {lru_head s, in_use_head s}"

text \<open>The reference count of a handle counts its holders, and the cache if it is in one of the lists.\<close>

definition counted :: "'x lru_cache_scheme \<Rightarrow> (nat \<Rightarrow> nat) \<Rightarrow> nat set \<Rightarrow> bool" where
  "counted s H E \<longleftrightarrow> (\<forall>e. if e \<in> handles s then unat (refs s e) = H e + (if e \<in> E then 1 else 0) else H e = 0)"

text \<open>What has been deleted, together with what is still to be deleted.\<close>

definition ledger :: "'x lru_cache_scheme \<Rightarrow> (nat \<times> bytes \<times> nat) multiset" where
  "ledger s = mset (deleted s) + image_mset (deletion s) (mset_set (handles s))"

definition client_ok :: "lru_cache \<times> (nat \<Rightarrow> nat) \<times> deletions \<Rightarrow> (nat \<Rightarrow> nat list) \<Rightarrow> nat list \<Rightarrow> nat list \<Rightarrow> bool" where
  "client_ok c bs L U \<longleftrightarrow> (case c of (s, H, I) \<Rightarrow>
     cache_ok s bs L U \<and> counted s H (set L \<union> set U) \<and> mset I = ledger s)"

lemma handles_split: "lists_ok s L U \<Longrightarrow> handles s = outside s L U \<union> set L \<union> set U"
  using lists_okD(3,4) [of s L U] by (auto simp: handles_def outside_def)

lemma finite_handles: "cache_ok s bs L U \<Longrightarrow> finite (handles s)"
  by (simp add: handles_def cache_ok_def)

lemma handles_frame: "data_frame s s' \<Longrightarrow> live s' = live s - D \<Longrightarrow> handles s' = handles s - D"
  by (auto simp: handles_def data_frame_def)

lemma ledger_drop:
  assumes "data_frame s s'" "live s' = live s - set xs" "deleted s' = deleted s @ map (deletion s) xs"
    and "distinct xs" "set xs \<subseteq> handles s" "finite (handles s)"
  shows "ledger s' = ledger s"
proof -
  have "mset_set (handles s) = mset_set (set xs) + mset_set (handles s - set xs)"
    using assms(5,6) by (subst mset_set_Union [symmetric]) (auto simp: Un_absorb1 intro: finite_subset)
  then show ?thesis
    using assms(3,4) handles_frame [OF assms(1,2)] deletion_frame [OF assms(1)] by (simp add: ledger_def mset_set_set)
qed

lemma ledger_same: "data_frame s s' \<Longrightarrow> live s' = live s \<Longrightarrow> deleted s' = deleted s \<Longrightarrow> ledger s' = ledger s"
  using deletion_frame [of s s'] by (simp add: ledger_def handles_def data_frame_def)

lemma ledger_fresh:
  assumes "e \<notin> live s" "finite (handles s)" "e \<noteq> lru_head s" "e \<noteq> in_use_head s"
  shows "ledger (fresh_state e key h v ch del s) = ledger s + {#(del, key, v)#}"
proof -
  have h: "handles (fresh_state e key h v ch del s) = insert e (handles s)" "e \<notin> handles s"
    using assms by (auto simp: handles_def)
  have "image_mset (deletion (fresh_state e key h v ch del s)) (mset_set (handles s)) = image_mset (deletion s) (mset_set (handles s))"
    using assms(2) h(2) by (intro image_mset_cong) (auto simp: deletion_def)
  moreover have "deletion (fresh_state e key h v ch del s) e = (del, key, v)" by (simp add: deletion_def)
  ultimately show ?thesis using h assms(2) by (simp add: ledger_def)
qed

lemma countedD:
  assumes "counted s H E"
  shows "e \<in> handles s \<Longrightarrow> unat (refs s e) = H e + (if e \<in> E then 1 else 0)" "e \<notin> handles s \<Longrightarrow> H e = 0"
  using assms unfolding counted_def by (metis (full_types))+

section \<open>Every legal operation returns and keeps the invariant\<close>

lemma client_okD:
  assumes "client_ok (s, H, I) bs L U"
  shows "cache_ok s bs L U" "counted s H (set L \<union> set U)" "mset I = ledger s" "finite (handles s)" "handles s = outside s L U \<union> set L \<union> set U"
    "lists_ok s L U"
  using assms finite_handles [of s bs L U] handles_split [OF cache_okD(3), of s bs L U] cache_okD(3) [of s bs L U]
  by (auto simp: client_ok_def)

text \<open>No reference count is about to wrap around.\<close>

lemma unsaturated:
  assumes ok: "client_ok (s, H, I) bs L U" and H: "\<forall>y. H y < 2 ^ 32 - 2"
  shows "\<forall>y\<in>set L \<union> set U. refs s y \<noteq> - 1"
proof
  note c = client_okD [OF ok]
  fix y assume y: "y \<in> set L \<union> set U"
  have "unat (refs s y) < 2 ^ 32 - 1" using countedD(1) [OF c(2), of y] y c(5) H [rule_format, of y] by auto
  moreover have "unat (- 1 :: u32) = 2 ^ 32 - 1" by (simp add: unsigned_minus_1_eq_mask mask_eq_exp_minus_1)
  ultimately show "refs s y \<noteq> - 1" by (metis less_irrefl)
qed

lemma lookup_client:
  assumes ok: "client_ok (s, H, I) bs L U" and H: "\<forall>y. H y < 2 ^ 32 - 2"
  shows "\<exists>x s' L' U'. LRUCache_Lookup key h s = Some (x, s') \<and> client_ok (s', if x = 0 then H else H(x := Suc (H x)), I) bs L' U'"
proof -
  note c = client_okD [OF ok]
  note max = unsaturated [OF ok H]
  obtain x s' where s': "LRUCache_Lookup key h s = Some (x, s')"
    "cache_ok s' bs (removeAll x L) (if x \<in> set L then U @ [x] else U)" "data_frame s s'" "live s' = live s" "deleted s' = deleted s"
    "refs s' = (if x = 0 then refs s else (refs s)(x := refs s x + 1))"
    "if x = 0 then \<forall>y\<in>set L \<union> set U. \<not> matches s key h y else x \<in> set L \<union> set U \<and> matches s key h x"
    by (rule Lookup_ok [OF c(1) max])
  have E: "set (removeAll x L) \<union> set (if x \<in> set L then U @ [x] else U) = set L \<union> set U"
    using s'(7) zero_not_listed [OF c(6)] by auto
  have hd: "handles s' = handles s" using s'(3,4) by (simp add: handles_def data_frame_def)
  have "unat (refs s x + 1) = Suc (unat (refs s x))" if "x \<noteq> 0"
    using max that s'(7) by (metis unatSuc add.commute eq_neg_iff_add_eq_0)
  then have "counted s' (if x = 0 then H else H(x := Suc (H x))) (set L \<union> set U)"
    using countedD [OF c(2)] s'(6,7) c(5) hd by (auto simp: counted_def)
  then have "client_ok (s', if x = 0 then H else H(x := Suc (H x)), I) bs (removeAll x L) (if x \<in> set L then U @ [x] else U)"
    using s'(2) E c(3) ledger_same [OF s'(3-5)] by (simp add: client_ok_def)
  then show ?thesis using s'(1) by blast
qed

lemma held_outside:
  assumes ok: "client_ok (s, H, I) bs L U" and H: "H e > 0"
  shows "e \<in> live s - {lru_head s, in_use_head s} - set L"
proof -
  note c = client_okD [OF ok]
  have eh: "e \<in> handles s" using countedD(2) [OF c(2), of e] H by auto
  have "e \<notin> set L" using countedD(1) [OF c(2) eh] H lists_okD(6) [OF c(6), of e] by auto
  then show ?thesis using eh by (simp add: handles_def)
qed

lemma release_client:
  assumes ok: "client_ok (s, H, I) bs L U" and H: "H e > 0"
  shows "\<exists>s' L' U'. LRUCache_Release e s = Some s' \<and> client_ok (s', H(e := H e - 1), I) bs L' U'"
proof -
  note c = client_okD [OF ok] and l = lists_okD [OF client_okD(6) [OF ok]]
  note el = held_outside [OF ok H]
  then have eh: "e \<in> handles s" by (simp add: handles_def)
  note r = countedD(1) [OF c(2) eh]
  obtain s' where s': "LRUCache_Release e s = Some s'"
    "if e \<in> set U \<and> refs s e = 2 then cache_ok s' bs (L @ [e]) (removeAll e U) else cache_ok s' bs L U"
    "data_frame s s'" "refs s' = (refs s)(e := refs s e - 1)"
    "if refs s e = 1 then live s' = live s - {e} \<and> deleted s' = deleted s @ [deletion s e] else live s' = live s \<and> deleted s' = deleted s"
    by (rule Release_ok [OF c(1) el])
  obtain L' U' where ok': "cache_ok s' bs L' U'" "set L' \<union> set U' = set L \<union> set U"
  proof (cases "e \<in> set U \<and> refs s e = 2")
    case True
    then show ?thesis using that [of "L @ [e]" "removeAll e U"] s'(2) by auto
  next
    case False
    then show ?thesis using that [of L U] s'(2) by auto
  qed
  have pos: "refs s e \<noteq> 0" using r H by auto
  then have dec: "unat (refs s e - 1) = unat (refs s e) - 1" by (rule unat_minus_one)
  have hd: "handles s' = handles s - (if refs s e = 1 then {e} else {})" using s'(3,5) by (auto simp: handles_def data_frame_def split: if_splits)
  have one: "refs s e = 1 \<Longrightarrow> H e = 1 \<and> e \<notin> set L \<union> set U" using r H by (auto split: if_splits)
  have "counted s' (H(e := H e - 1)) (set L \<union> set U)"
    unfolding counted_def
  proof
    fix y
    show "if y \<in> handles s' then unat (refs s' y) = (H(e := H e - 1)) y + (if y \<in> set L \<union> set U then 1 else 0)
      else (H(e := H e - 1)) y = 0"
      using countedD [OF c(2), of y] hd one s'(4) dec r H by (cases "y = e") auto
  qed
  moreover have "ledger s' = ledger s"
    using s'(5) ledger_drop [OF s'(3), of "[e]"] ledger_same [OF s'(3)] eh c(4) by (auto split: if_splits)
  ultimately have "client_ok (s', H(e := H e - 1), I) bs L' U'" using ok' c(3) by (simp add: client_ok_def)
  then show ?thesis using s'(1) by blast
qed

lemma unheld: "client_ok (s, H, I) bs L U \<Longrightarrow> e \<in> set L \<Longrightarrow> H e = 0"
  using countedD(1) [OF client_okD(2), of s H I bs L U e] lists_okD(6) [OF client_okD(6), of s H I bs L U e]
    client_okD(5) [of s H I bs L U] by auto

text \<open>Evicting entries of the LRU list.\<close>

lemma evicting_client:
  assumes ok: "client_ok (s, H, I) bs (xs @ L) U" and s': "evicting xs s s'" "cache_ok s' bs' L U"
  shows "client_ok (s', H, I) bs' L U"
proof -
  note c = client_okD [OF ok]
  have e: "data_frame s s'" "live s' = live s - set xs" "deleted s' = deleted s @ map (deletion s) xs"
    "\<And>y. y \<notin> set xs \<Longrightarrow> refs s' y = refs s y" using s'(1) by (auto simp: evicting_def)
  have xs: "distinct xs" "set xs \<subseteq> handles s" "set xs \<inter> (set L \<union> set U) = {}"
    using lists_okD(3) [OF c(6)] c(5) by auto
  have hd: "handles s' = handles s - set xs" by (rule handles_frame [OF e(1,2)])
  have "counted s' H (set L \<union> set U)"
    unfolding counted_def
  proof
    fix y
    show "if y \<in> handles s' then unat (refs s' y) = H y + (if y \<in> set L \<union> set U then 1 else 0) else H y = 0"
      using countedD [OF c(2), of y] unheld [OF ok, of y] hd e(4) [of y] by auto
  qed
  then show ?thesis using s'(2) c(3) ledger_drop [OF e(1-3) xs(1,2) c(4)] by (simp add: client_ok_def)
qed

lemma prune_client:
  assumes ok: "client_ok (s, H, I) bs L U"
  shows "\<exists>s' bs'. LRUCache_Prune s = Some s' \<and> client_ok (s', H, I) bs' [] U"
  using Prune_ok [OF client_okD(1) [OF ok]] evicting_client [of s H I bs L "[]" U] ok by auto

text \<open>Dropping one entry from the cache.\<close>

lemma removed_client:
  assumes ok: "client_ok (s, H, I) bs L U" and x: "x = 0 \<or> x \<in> set L \<union> set U"
    and s': "removed x s s'" "data_frame s s'" "cache_ok s' bs' (removeAll x L) (removeAll x U)"
  shows "client_ok (s', H, I) bs' (removeAll x L) (removeAll x U)"
proof (cases "x = 0")
  case True
  note c = client_okD [OF ok]
  have same: "refs s' = refs s" "live s' = live s" "deleted s' = deleted s" using s'(1) True by (simp_all add: removed_def)
  have E: "set (removeAll x L) \<union> set (removeAll x U) = set L \<union> set U" using zero_not_listed [OF c(6)] True by auto
  have "handles s' = handles s" using s'(2) same(2) by (simp add: handles_def data_frame_def)
  then have "counted s' H (set L \<union> set U)" using c(2) same(1) by (simp add: counted_def)
  then show ?thesis
    using s'(3) c(3) ledger_same [OF s'(2) same(2,3)] unfolding client_ok_def E by simp
next
  case False
  note c = client_okD [OF ok] and l = lists_okD [OF client_okD(6) [OF ok]]
  have xE: "x \<in> set L \<union> set U" "x \<in> handles s" using x False c(5) by auto
  have E: "set (removeAll x L) \<union> set (removeAll x U) = set L \<union> set U - {x}" by auto
  have d: "refs s' = (refs s)(x := refs s x - 1)"
    "if refs s x = 1 then live s' = live s - {x} \<and> deleted s' = deleted s @ [deletion s x] else live s' = live s \<and> deleted s' = deleted s"
    using s'(1) False by (simp_all add: removed_def dropped_def)
  note r = countedD(1) [OF c(2) xE(2)]
  have "refs s x \<noteq> 0" using r xE(1) by auto
  then have dec: "unat (refs s x - 1) = unat (refs s x) - 1" by (rule unat_minus_one)
  have hd: "handles s' = handles s - (if refs s x = 1 then {x} else {})" using s'(2) d(2) by (auto simp: handles_def data_frame_def split: if_splits)
  have one: "refs s x = 1 \<Longrightarrow> H x = 0" using r xE(1) by auto
  have "counted s' H (set L \<union> set U - {x})"
    unfolding counted_def
  proof
    fix y
    show "if y \<in> handles s' then unat (refs s' y) = H y + (if y \<in> set L \<union> set U - {x} then 1 else 0) else H y = 0"
      using countedD [OF c(2), of y] hd one d(1) dec r xE(1) by (cases "y = x") auto
  qed
  moreover have "ledger s' = ledger s"
    using d(2) ledger_drop [OF s'(2), of "[x]"] ledger_same [OF s'(2)] xE(2) c(4) by (auto split: if_splits)
  ultimately show ?thesis using s'(3) c(3) unfolding client_ok_def E by simp
qed

lemma erase_client:
  assumes ok: "client_ok (s, H, I) bs L U"
  shows "\<exists>s' bs' L' U'. LRUCache_Erase key h s = Some s' \<and> client_ok (s', H, I) bs' L' U'"
proof -
  obtain x s' bs' where r: "LRUCache_Erase key h s = Some s'" "cache_ok s' bs' (removeAll x L) (removeAll x U)" "data_frame s s'"
    "removed x s s'" "if x = 0 then \<forall>y\<in>set L \<union> set U. \<not> matches s key h y else x \<in> set L \<union> set U \<and> matches s key h x"
    by (rule Erase_ok [OF client_okD(1) [OF ok]])
  then show ?thesis using removed_client [OF ok _ r(4,3,2)] by (metis (full_types))
qed

text \<open>Insertion.\<close>

lemma fresh_client:
  assumes ok: "client_ok (s, H, I) bs L U" and e: "e \<notin> live s" "e \<noteq> 0"
  shows "client_ok (fresh_state e key h v ch del s, H(e := Suc (H e)), I @ [(del, key, v)]) bs L U" "H e = 0"
    "handles (fresh_state e key h v ch del s) = insert e (handles s)" "e \<notin> handles s" "e \<notin> set L \<union> set U"
proof -
  note c = client_okD [OF ok] and l = lists_okD [OF client_okD(6) [OF ok]]
  let ?f = "fresh_state e key h v ch del s"
  have ne: "e \<noteq> lru_head s" "e \<noteq> in_use_head s" "e \<notin> set L \<union> set U" using l(4) e(1) by auto
  show h: "handles ?f = insert e (handles s)" "e \<notin> handles s" using e(1) ne by (auto simp: handles_def)
  show He: "H e = 0" by (rule countedD(2) [OF c(2) h(2)])
  show "e \<notin> set L \<union> set U" by (fact ne(3))
  have "counted ?f (H(e := Suc (H e))) (set L \<union> set U)"
    unfolding counted_def
  proof
    fix y
    show "if y \<in> handles ?f then unat (refs ?f y) = (H(e := Suc (H e))) y + (if y \<in> set L \<union> set U then 1 else 0)
      else (H(e := Suc (H e))) y = 0"
      using countedD [OF c(2), of y] h He ne(3) by (cases "y = e") auto
  qed
  then show "client_ok (?f, H(e := Suc (H e)), I @ [(del, key, v)]) bs L U"
    using fresh_ok(1) [OF c(1) e] ledger_fresh [OF e(1) c(4) ne(1,2)] c(3) by (simp add: client_ok_def)
qed

lemma insert_client_off:
  assumes ok: "client_ok (s, H, I) bs L U" and e: "e \<notin> live s" "e \<noteq> 0" and off: "capacity s = 0"
  shows "\<exists>s' bs' L' U'. LRUCache_Insert e key h v ch del s = Some (e, s') \<and>
    client_ok (s', H(e := Suc (H e)), I @ [(del, key, v)]) bs' L' U'"
proof -
  note f = fresh_client(1) [OF ok e, where key = key and h = h and v = v and ch = ch and del = del]
  obtain s' bs' where s': "LRUCache_Insert e key h v ch del s = Some (e, s')"
    "cache_ok s' bs' (survivors 0 (charge s) (usage s) L) U" "e \<in> outside s' (survivors 0 (charge s) (usage s) L) U"
    "data_frame (fresh_state e key h v ch del s) s'" "evicting (evicted 0 (charge s) (usage s) L) (fresh_state e key h v ch del s) s'"
    by (rule Insert_off [OF client_okD(1) [OF ok] e off refl])
  have "client_ok (s', H(e := Suc (H e)), I @ [(del, key, v)]) bs' (survivors 0 (charge s) (usage s) L) U"
    by (rule evicting_client [OF _ s'(5,2)]) (use f in \<open>simp add: evicted_survivors\<close>)
  then show ?thesis using s'(1) by blast
qed

lemma inserted_counts:
  assumes ok: "client_ok (s, H, I) bs L U" and e: "e \<notin> live s" "e \<noteq> 0" and sets: "set ev \<union> set L' = set L - {old}"
    and oe: "old \<noteq> e" "old \<noteq> 0 \<Longrightarrow> old \<in> set L \<union> set U"
    and hd: "handles s' = insert e (handles s) - ((if old \<in> set L then {old} else {}) \<union> set ev)"
    and refs: "\<And>y. y \<notin> set ev \<Longrightarrow> refs s' y = (if y = e then 2 else if y = old \<and> old \<noteq> 0 then refs s y - 1 else refs s y)"
  shows "counted s' (H(e := Suc (H e))) (set L' \<union> set (removeAll old U @ [e]))"
  unfolding counted_def
proof
  note c = client_okD [OF ok] and l = lists_okD [OF client_okD(6) [OF ok]] and fe = fresh_client(2,4,5) [OF ok e]
  define X where "X = (if old \<in> set L then {old} else {}) \<union> set ev"
  have hd: "handles s' = insert e (handles s) - X" and X: "X \<subseteq> set L" using hd sets by (auto simp: X_def)
  fix y
  have sub: "set ev \<subseteq> set L" "e \<notin> set ev" using sets fe(3) by auto
  have zero: "0 \<notin> handles s" using l(5) by (simp add: handles_def)
  consider "y = e" | "y \<in> X" | "y = 0" | "y = old" "y \<in> set U" "y \<noteq> 0" "y \<notin> X" | "y \<noteq> e" "y \<noteq> old" "y \<notin> set ev"
    using oe(2) by (cases "old \<in> set L") (auto simp: X_def)
  then show "if y \<in> handles s' then unat (refs s' y) = (H(e := Suc (H e))) y + (if y \<in> set L' \<union> set (removeAll old U @ [e]) then 1 else 0)
    else (H(e := Suc (H e))) y = 0"
  proof cases
    case 1
    then show ?thesis using refs [of e] sub(2) hd X fe by auto
  next
    case 2
    then show ?thesis using unheld [OF ok, of y] X fe(3) hd by auto
  next
    case 3
    then show ?thesis using zero hd e(2) countedD(2) [OF c(2), of 0] by auto
  next
    case 4
    then have y: "y \<notin> set L" "y \<in> handles s" using l(3) c(5) by auto
    then have u: "unat (refs s y) = H y + 1" using countedD(1) [OF c(2), of y] 4 by simp
    then have "unat (refs s y - 1) = H y" by (subst unat_minus_one) auto
    moreover have "y \<notin> set L'" using sets y by auto
    ultimately show ?thesis using 4 y hd refs [of y] oe(1) by (auto simp: X_def)
  next
    case 5
    then have "y \<in> set L' \<union> set (removeAll old U @ [e]) \<longleftrightarrow> y \<in> set L \<union> set U" "y \<in> handles s' \<longleftrightarrow> y \<in> handles s"
      "refs s' y = refs s y" using sets hd refs by (auto simp: X_def)
    then show ?thesis using 5 countedD [OF c(2), of y] by simp
  qed
qed

lemma insert_client_on:
  assumes ok: "client_ok (s, H, I) bs L U" and e: "e \<notin> live s" "e \<noteq> 0" "card (live s) < 2 ^ 31" and on: "capacity s > 0"
  shows "\<exists>s' bs' L' U'. LRUCache_Insert e key h v ch del s = Some (e, s') \<and>
    client_ok (s', H(e := Suc (H e)), I @ [(del, key, v)]) bs' L' U'"
proof -
  note c = client_okD [OF ok] and l = lists_okD [OF client_okD(6) [OF ok]]
  define f where "f = fresh_state e key h v ch del s"
  note f = fresh_client(1,3) [OF ok e(1,2), where key = key and h = h and v = v and ch = ch and del = del, folded f_def]
    and fe = fresh_client(2,4,5) [OF ok e(1,2)]
  note fc = client_okD [OF f(1)]
  obtain old s' bs' where i: "LRUCache_Insert e key h v ch del s = Some (e, s')"
    "cache_ok s' bs' (survivors (capacity s) (charge s) (usage s + ch - (if old = 0 then 0 else charge s old)) (removeAll old L))
       (removeAll old U @ [e])" "data_frame f s'"
    "inserted_over e old L (evicted (capacity s) (charge s) (usage s + ch - (if old = 0 then 0 else charge s old)) (removeAll old L)) s s'"
    "if old = 0 then \<forall>y\<in>set L \<union> set U. \<not> matches s key h y else old \<in> set L \<union> set U \<and> matches s key h old"
    "survivors (capacity s) (charge s) (usage s + ch - (if old = 0 then 0 else charge s old)) (removeAll old L) = [] \<or> usage s' \<le> capacity s"
    by (rule Insert_on [OF c(1) e on f_def])
  define L' ev where "L' = survivors (capacity s) (charge s) (usage s + ch - (if old = 0 then 0 else charge s old)) (removeAll old L)"
    and "ev = evicted (capacity s) (charge s) (usage s + ch - (if old = 0 then 0 else charge s old)) (removeAll old L)"
  define xs where "xs = (if old \<in> set L then [old] else []) @ ev"
  have split: "ev @ L' = removeAll old L" by (simp add: ev_def L'_def evicted_survivors)
  then have sets: "set ev \<union> set L' = set L - {old}" by (metis set_append set_removeAll)
  have d: "distinct (ev @ L')" unfolding split using l(3) by (simp add: distinct_removeAll)
  then have xs: "distinct xs" "set xs \<subseteq> set L" using sets by (auto simp: xs_def)
  have oe: "old \<noteq> e" "old \<noteq> 0 \<Longrightarrow> old \<in> set L \<union> set U" using i(5) fe(3) e(2) by (auto split: if_splits)
  have live: "live s' = live f - set xs" and del: "deleted s' = deleted f @ map (deletion f) xs"
    and refs: "\<And>y. y \<notin> set ev \<Longrightarrow> refs s' y = (if y = e then 2 else if y = old \<and> old \<noteq> 0 then refs s y - 1 else refs s y)"
  proof -
    have "map (deletion s) xs = map (deletion f) xs" using xs(2) fe(3) by (auto simp: f_def deletion_def)
    then have ds: "deleted s @ (if old \<in> set L then [deletion s old] else []) @ map (deletion s) ev = deleted f @ map (deletion f) xs"
      by (simp add: xs_def f_def split: if_splits)
    show "deleted s' = deleted f @ map (deletion f) xs" using i(4) ds by (simp add: inserted_over_def ev_def)
    show "live s' = live f - set xs" using i(4) by (auto simp: inserted_over_def ev_def xs_def f_def)
    show "\<And>y. y \<notin> set ev \<Longrightarrow> refs s' y = (if y = e then 2 else if y = old \<and> old \<noteq> 0 then refs s y - 1 else refs s y)"
      using i(4) by (simp add: inserted_over_def ev_def)
  qed
  have hd: "handles s' = insert e (handles s) - set xs" using handles_frame [OF i(3) live] f(2) by simp
  have xh: "set xs \<subseteq> handles f" using xs(2) fc(5) by blast
  have "counted s' (H(e := Suc (H e))) (set L' \<union> set (removeAll old U @ [e]))"
    using oe(2) refs hd by (intro inserted_counts [OF ok e(1,2) sets oe(1)]) (auto simp: xs_def)
  then have "client_ok (s', H(e := Suc (H e)), I @ [(del, key, v)]) bs' L' (removeAll old U @ [e])"
    using i(2) fc(3) ledger_drop [OF i(3) live del xs(1) xh fc(4)] by (simp add: client_ok_def L'_def)
  then show ?thesis using i(1) by blast
qed

lemma insert_client:
  assumes "client_ok (s, H, I) bs L U" "e \<notin> live s" "e \<noteq> 0" "card (live s) < 2 ^ 31"
  shows "\<exists>s' bs' L' U'. LRUCache_Insert e key h v ch del s = Some (e, s') \<and>
    client_ok (s', H(e := Suc (H e)), I @ [(del, key, v)]) bs' L' U'"
  using insert_client_on [OF assms] insert_client_off [OF assms(1-3)] by (cases "capacity s = 0") (auto simp: word_gt_0)

lemma deletion_capacity [simp]: "deletion (s\<lparr>capacity := c\<rparr>) = deletion s"
  by (simp add: deletion_def fun_eq_iff)

lemma capacity_client: "client_ok (SetCapacity c s, H, I) bs L U = client_ok (s, H, I) bs L U"
  by (simp add: client_ok_def SetCapacity_def cache_ok_def table_ok_def chains_ok_def lists_ok_def outside_def
      counted_def ledger_def handles_def)

lemma start_client:
  assumes "a \<noteq> b" "a \<noteq> 0" "b \<noteq> 0" "LRUCache_new a b = Some s"
  shows "client_ok (s, \<lambda>_. 0, []) (\<lambda>_. []) [] []"
proof -
  obtain s' where "LRUCache_new a b = Some s'" "cache_ok s' (\<lambda>_. []) [] []" "live s' = {a, b}" "lru_head s' = a" "in_use_head s' = b"
    "deleted s' = []" "capacity s' = 0" "refs s' = (\<lambda>_. 0)" by (rule new_ok [OF assms(1-3)])
  then show ?thesis using assms(4) by (simp add: client_ok_def counted_def ledger_def handles_def)
qed

lemma step_client:
  assumes "cache_step c c'" "client_ok c bs L U"
  shows "\<exists>bs' L' U'. client_ok c' bs' L' U'"
  using assms
proof cases
  case (insert_step e s key h v ch del e' s' H I)
  then show ?thesis using insert_client [of s H I bs L U e key h v ch del] assms(2) by auto
next
  case (lookup_step H key h s e s' I)
  then show ?thesis using lookup_client [of s H I bs L U key h] assms(2) by auto blast+
next
  case (release_step H e s s' I)
  then show ?thesis using release_client [of s H I bs L U e] assms(2) by auto
next
  case (erase_step key h s s' H I)
  then show ?thesis using erase_client [of s H I bs L U key h] assms(2) by auto
next
  case (prune_step s s' H I)
  then show ?thesis using prune_client [of s H I bs L U] assms(2) by auto
next
  case (capacity_step s H I c)
  then show ?thesis using capacity_client [of c s H I bs L U] assms(2) by auto
qed

lemma reach_client: "cache_reach c \<Longrightarrow> \<exists>bs L U. client_ok c bs L U"
proof (induction rule: cache_reach.induct)
  case (start a b s)
  then show ?case using start_client by blast
next
  case (step c c')
  then show ?case using step_client by blast
qed

section \<open>Properties of the cache\<close>

text \<open>C18. In every state a client can reach within its contract, each call returns: no assertion of the cache fails, no
  freed or null handle is touched, and every loop ends.\<close>

theorem cache_never_fails:
  assumes "cache_reach (s, H, I)"
  shows "(\<forall>e key h v ch del. e \<notin> live s \<and> e \<noteq> 0 \<and> card (live s) < 2 ^ 31 \<longrightarrow> (\<exists>s'. LRUCache_Insert e key h v ch del s = Some (e, s'))) \<and>
    (\<forall>key h. (\<forall>y. H y < 2 ^ 32 - 2) \<longrightarrow> (\<exists>x s'. LRUCache_Lookup key h s = Some (x, s'))) \<and>
    (\<forall>e. H e > 0 \<longrightarrow> (\<exists>s'. LRUCache_Release e s = Some s')) \<and>
    (\<forall>key h. \<exists>s'. LRUCache_Erase key h s = Some s') \<and> (\<exists>s'. LRUCache_Prune s = Some s')"
proof -
  obtain bs L U where ok: "client_ok (s, H, I) bs L U" using reach_client [OF assms] by blast
  show ?thesis
    using insert_client [OF ok] lookup_client [OF ok] release_client [OF ok] erase_client [OF ok] prune_client [OF ok] by blast
qed

text \<open>C19. The reference count of a handle is the number of times clients hold it, plus one while it is in the cache;
  a handle that is held is never freed; the usage is the sum of the charges of the entries in the cache.\<close>

theorem cache_accounting:
  assumes "cache_reach (s, H, I)"
  shows "(\<forall>e \<in> live s - {lru_head s, in_use_head s}. unat (refs s e) = H e + (if in_cache s e then 1 else 0)) \<and>
    (\<forall>e. H e > 0 \<longrightarrow> e \<in> live s - {lru_head s, in_use_head s}) \<and>
    TotalCharge s = (\<Sum>e | e \<in> live s - {lru_head s, in_use_head s} \<and> in_cache s e. charge s e)"
proof -
  obtain bs L U where ok: "client_ok (s, H, I) bs L U" using reach_client [OF assms] by blast
  note c = client_okD [OF ok] and l = lists_okD [OF client_okD(6) [OF ok]]
  have ic: "in_cache s e \<longleftrightarrow> e \<in> set L \<union> set U" if "e \<in> handles s" for e
    using that c(5) l(6) [of e] l(7) [of e] l(8) [of e] by blast
  then have set: "{e. e \<in> handles s \<and> in_cache s e} = set L \<union> set U" using c(5) by blast
  have "\<forall>e\<in>handles s. unat (refs s e) = H e + (if in_cache s e then 1 else 0)" using countedD(1) [OF c(2)] ic by simp
  moreover have "\<forall>e. H e > 0 \<longrightarrow> e \<in> handles s" using countedD(2) [OF c(2)] by fastforce
  moreover have "TotalCharge s = (\<Sum>e | e \<in> handles s \<and> in_cache s e. charge s e)"
    unfolding set TotalCharge_def by (rule cache_okD(4) [OF c(1)])
  ultimately show ?thesis unfolding handles_def by blast
qed

text \<open>Once the clients have released all their handles the cache can be destroyed: its destructor returns, every
  handle is freed, and each value ever inserted has been given to its deleter, with its key, exactly once.\<close>

lemma destroy_deletes_all:
  assumes "cache_reach (s, H, I)" "\<forall>e. H e = 0"
  shows "\<exists>s'. LRUCache_destroy s = Some s' \<and> live s' = {lru_head s, in_use_head s} \<and> mset (deleted s') = mset I"
proof -
  obtain bs L U where ok: "client_ok (s, H, I) bs L U" using reach_client [OF assms(1)] by blast
  note c = client_okD [OF ok] and l = lists_okD [OF client_okD(6) [OF ok]]
  have "U = []"
  proof (rule ccontr)
    assume "U \<noteq> []"
    then obtain e where e: "e \<in> set U" by (cases U) auto
    then show False using countedD(1) [OF c(2), of e] c(5) assms(2) l(7) [OF e] by (auto simp: word_le_nat_alt)
  qed
  moreover have "outside s L U = {}"
  proof (rule ccontr)
    assume "outside s L U \<noteq> {}"
    then obtain e where e: "e \<in> outside s L U" by blast
    then have "e \<notin> set L \<union> set U" by (auto simp: outside_def)
    then show False using countedD(1) [OF c(2), of e] c(5) e assms(2) l(8) [OF e] by (auto simp: word_less_nat_alt)
  qed
  ultimately have hL: "handles s = set L" using c(5) by simp
  obtain s' where s': "LRUCache_destroy s = Some s'" "live s' = live s - set L" "deleted s' = deleted s @ map (deletion s) L"
    using destroy_ok [of s bs L] c(1) \<open>U = []\<close> by blast
  have "live s - set L = {lru_head s, in_use_head s}" using hL l(3,4) by (auto simp: handles_def)
  moreover have "mset (deleted s') = mset I"
    using s'(3) c(3) hL l(3) by (simp add: ledger_def mset_set_set)
  ultimately show ?thesis using s' by blast
qed

text \<open>The entries of the cache, in terms of the fields alone.\<close>

lemma cached_iff:
  assumes "cache_ok s bs L U"
  shows "x \<in> set L \<union> set U \<longleftrightarrow> x \<in> live s - {lru_head s, in_use_head s} \<and> in_cache s x"
proof -
  note l = lists_okD [OF cache_okD(3) [OF assms]]
  show ?thesis using l(3,4) l(6) [of x] l(7) [of x] l(8) [of x] by (auto simp: outside_def)
qed

text \<open>\<open>Lookup\<close> returns the entry of the cache with the given key and hash, and null exactly if there is none; the handle
  returned is counted as held once more and everything stored with it is unchanged.\<close>

theorem lookup_finds:
  assumes "cache_reach (s, H, I)" "\<forall>y. H y < 2 ^ 32 - 2"
  shows "\<exists>x s'. LRUCache_Lookup key h s = Some (x, s') \<and>
    (if \<exists>y \<in> live s - {lru_head s, in_use_head s}. in_cache s y \<and> hash s y = h \<and> key_data s y = key
     then x \<in> live s' \<and> in_cache s' x \<and> hash s x = h \<and> key_data s x = key \<and> refs s' x = refs s x + 1 \<and> deletion s' x = deletion s x
     else x = 0)"
proof -
  obtain bs L U where ok: "client_ok (s, H, I) bs L U" using reach_client [OF assms(1)] by blast
  note c = client_okD [OF ok]
  obtain x s' where s': "LRUCache_Lookup key h s = Some (x, s')"
    "cache_ok s' bs (removeAll x L) (if x \<in> set L then U @ [x] else U)" "data_frame s s'"
    "refs s' = (if x = 0 then refs s else (refs s)(x := refs s x + 1))"
    "if x = 0 then \<forall>y\<in>set L \<union> set U. \<not> matches s key h y else x \<in> set L \<union> set U \<and> matches s key h x"
    by (rule Lookup_ok [OF c(1) unsaturated [OF ok assms(2)]])
  show ?thesis
  proof (cases "x = 0")
    case True
    then show ?thesis using s'(1,5) cached_iff [OF c(1)] by (intro exI [of _ x] exI [of _ s']) (auto simp: matches_def)
  next
    case False
    then have x: "x \<in> set L \<union> set U" "matches s key h x" using s'(5) by auto
    then have "x \<in> set (removeAll x L) \<union> set (if x \<in> set L then U @ [x] else U)" by auto
    then have "x \<in> live s'" "in_cache s' x" using cached_iff [OF s'(2), of x] by auto
    moreover have "\<exists>y \<in> live s - {lru_head s, in_use_head s}. in_cache s y \<and> hash s y = h \<and> key_data s y = key"
      using cached_iff [OF c(1), of x] x by (auto simp: matches_def)
    ultimately show ?thesis using s'(1,4) False x deletion_frame [OF s'(3)] by (auto simp: matches_def)
  qed
qed

text \<open>C20. \<open>Insert\<close> replaces the entry with the same key and hash, if there is one, and then evicts the oldest entries of the LRU
  list, oldest first, exactly until the usage fits the capacity or no unreferenced entry is left; the deleters run in that
  order.\<close>

theorem insert_evicts_oldest:
  assumes "cache_reach (s, H, I)" "e \<notin> live s" "e \<noteq> 0" "card (live s) < 2 ^ 31" "capacity s > 0"
  shows "\<exists>s' L old. LRUCache_Insert e key h v ch del s = Some (e, s') \<and> ring (next_ptr s) (prev_ptr s) (lru_head s) L \<and>
    (let u = usage s + ch - (if old = 0 then 0 else charge s old);
         L' = survivors (capacity s) (charge s) u (removeAll old L) in
     ring (next_ptr s') (prev_ptr s') (lru_head s') L' \<and> (L' = [] \<or> usage s' \<le> capacity s) \<and>
     deleted s' = deleted s @ (if old \<in> set L then [deletion s old] else []) @
       map (deletion s) (evicted (capacity s) (charge s) u (removeAll old L))) \<and>
    (if \<exists>y \<in> live s - {lru_head s, in_use_head s}. in_cache s y \<and> hash s y = h \<and> key_data s y = key
     then in_cache s old \<and> hash s old = h \<and> key_data s old = key else old = 0)"
proof -
  obtain bs L U where ok: "client_ok (s, H, I) bs L U" using reach_client [OF assms(1)] by blast
  note c = client_okD [OF ok]
  obtain old s' bs' where i: "LRUCache_Insert e key h v ch del s = Some (e, s')"
    "cache_ok s' bs' (survivors (capacity s) (charge s) (usage s + ch - (if old = 0 then 0 else charge s old)) (removeAll old L))
       (removeAll old U @ [e])" "data_frame (fresh_state e key h v ch del s) s'"
    "inserted_over e old L (evicted (capacity s) (charge s) (usage s + ch - (if old = 0 then 0 else charge s old)) (removeAll old L)) s s'"
    "if old = 0 then \<forall>y\<in>set L \<union> set U. \<not> matches s key h y else old \<in> set L \<union> set U \<and> matches s key h old"
    "survivors (capacity s) (charge s) (usage s + ch - (if old = 0 then 0 else charge s old)) (removeAll old L) = [] \<or> usage s' \<le> capacity s"
    by (rule Insert_on [OF c(1) assms(2-5) refl])
  have "if \<exists>y \<in> live s - {lru_head s, in_use_head s}. in_cache s y \<and> hash s y = h \<and> key_data s y = key
     then in_cache s old \<and> hash s old = h \<and> key_data s old = key else old = 0"
    using i(5) cached_iff [OF c(1)] by (auto simp: matches_def split: if_splits)
  then show ?thesis
    using i(1,4,6) lists_okD(1) [OF cache_okD(3) [OF i(2)]] lists_okD(1) [OF c(6)]
    by (intro exI [of _ s'] exI [of _ L] exI [of _ old]) (simp add: Let_def inserted_over_def)
qed

text \<open>With caching on, what was just inserted is found by the next \<open>Lookup\<close> of its key and hash.\<close>

theorem insert_lookup:
  assumes "cache_reach (s, H, I)" "e \<notin> live s" "e \<noteq> 0" "card (live s) < 2 ^ 31" "capacity s > 0" "\<forall>y. H y < 2 ^ 32 - 2"
  shows "\<exists>s' s''. LRUCache_Insert e key h v ch del s = Some (e, s') \<and> LRUCache_Lookup key h s' = Some (e, s'') \<and>
    handle_value s'' e = v \<and> key_data s'' e = key \<and> charge s'' e = ch"
proof -
  obtain bs L U where ok: "client_ok (s, H, I) bs L U" using reach_client [OF assms(1)] by blast
  define f where "f = fresh_state e key h v ch del s"
  obtain old s' bs' where i: "LRUCache_Insert e key h v ch del s = Some (e, s')"
    "cache_ok s' bs' (survivors (capacity s) (charge s) (usage s + ch - (if old = 0 then 0 else charge s old)) (removeAll old L))
       (removeAll old U @ [e])" (is "cache_ok s' bs' ?L ?U") "data_frame f s'"
    by (rule Insert_on [OF client_okD(1) [OF ok] assms(2-5) f_def])
  obtain bs1 L1 U1 where ok1: "client_ok (s', H(e := Suc (H e)), I @ [(del, key, v)]) bs1 L1 U1"
    using insert_client [OF ok assms(2-4), of key h v ch del] i(1) by auto
  have "\<forall>y. (H(e := Suc (H e))) y < 2 ^ 32 - 2" using assms(6) fresh_client(2) [OF ok assms(2,3)] by auto
  note un = unsaturated [OF ok1 this]
  have E: "set L1 \<union> set U1 = set ?L \<union> set ?U" using cached_iff [OF client_okD(1) [OF ok1]] cached_iff [OF i(2)] by blast
  obtain x s'' where s'': "LRUCache_Lookup key h s' = Some (x, s'')" "data_frame s' s''"
    "if x = 0 then \<forall>y\<in>set ?L \<union> set ?U. \<not> matches s' key h y else x \<in> set ?L \<union> set ?U \<and> matches s' key h x"
    by (rule Lookup_ok [OF i(2) un [unfolded E]])
  have df: "data_frame f s''" by (rule data_frame_trans [OF i(3) s''(2)])
  have me: "matches s' key h e" "e \<in> set ?L \<union> set ?U" using i(3) by (auto simp: data_frame_def matches_def f_def)
  then have "x \<in> set ?L \<union> set ?U" "matches s' key h x" using s''(3) by (auto split: if_splits)
  then have "x = e"
    using inj_match [of s' "table_entries s' bs'" x e key h] cache_okD(1,2) [OF i(2)] me by (auto simp: table_ok_def)
  then show ?thesis using i(1) s''(1) df by (auto simp: data_frame_def f_def)
qed

section \<open>A run\<close>

text \<open>A cache of capacity 1 with one entry that its client still holds, and the same cache after the client has released it.\<close>

lemma sample_run:
  obtains s s' where "cache_reach (s, (\<lambda>_. 0)(3 := Suc 0), [(7, [97], 5)])" "LRUCache_Release 3 s = Some s'"
    "cache_reach (s', \<lambda>_. 0, [(7, [97], 5)])" "live s' = {1, 2, 3}" "capacity s' = 1"
proof -
  obtain s0 where s0: "LRUCache_new 1 2 = Some s0" "cache_ok s0 (\<lambda>_. []) [] []" "live s0 = {1, 2}" "lru_head s0 = 1" "in_use_head s0 = 2"
    "deleted s0 = []" "capacity s0 = 0" "refs s0 = (\<lambda>_. 0)" by (rule new_ok [of 1 2]) auto
  define s1 where "s1 = SetCapacity 1 s0"
  have r0: "cache_reach (s0, \<lambda>_. 0, [])" by (rule cache_reach.start [OF _ _ _ s0(1)]) simp_all
  have r1: "cache_reach (s1, \<lambda>_. 0, [])" unfolding s1_def by (rule cache_reach.step [OF r0 capacity_step])
  have s1: "live s1 = {1, 2}" "capacity s1 = 1" by (simp_all add: s1_def SetCapacity_def s0)
  have "client_ok (s1, \<lambda>_. 0, []) (\<lambda>_. []) [] []"
    using start_client [OF _ _ _ s0(1)] capacity_client [of 1 s0] by (simp add: s1_def)
  note ok = client_okD(1) [OF this]
  obtain old s bs where i: "LRUCache_Insert 3 [97] 0 5 1 7 s1 = Some (3, s)" "cache_ok s bs [] [3]"
    "data_frame (fresh_state 3 [97] 0 5 1 7 s1) s" "inserted_over 3 old [] [] s1 s"
  proof (rule Insert_on [OF ok, of 3 _ "[97]" 0 5 1 7])
    fix old s bs assume "LRUCache_Insert 3 [97] 0 5 1 7 s1 = Some (3, s)" "data_frame (fresh_state 3 [97] 0 5 1 7 s1) s"
      "cache_ok s bs (survivors (capacity s1) (charge s1) (usage s1 + 1 - (if old = 0 then 0 else charge s1 old)) (removeAll old []))
        (removeAll old [] @ [3])"
      "inserted_over 3 old [] (evicted (capacity s1) (charge s1) (usage s1 + 1 - (if old = 0 then 0 else charge s1 old)) (removeAll old [])) s1 s"
    then show thesis by (intro that) simp_all
  qed (simp_all add: s1)
  have s: "live s = {1, 2, 3}" "refs s 3 = 2" "lru_head s = 1" "in_use_head s = 2" "capacity s = 1"
    using i(3,4) by (auto simp: inserted_over_def data_frame_def s1) (simp_all add: s1_def SetCapacity_def s0)
  have r2: "cache_reach (s, (\<lambda>_. 0)(3 := Suc 0), [(7, [97], 5)])"
    using cache_reach.step [OF r1 insert_step [OF _ _ _ i(1)]] by (simp add: s1)
  obtain s' where s': "LRUCache_Release 3 s = Some s'" "data_frame s s'"
    "if refs s 3 = 1 then live s' = live s - {3} \<and> deleted s' = deleted s @ [deletion s 3] else live s' = live s \<and> deleted s' = deleted s"
    by (rule Release_ok [OF i(2), of 3]) (simp add: s)
  define K :: "nat \<Rightarrow> nat" where "K = (\<lambda>_. 0)(3 := Suc 0)"
  have "cache_reach (s', K(3 := K 3 - 1), [(7, [97], 5)])"
    by (rule cache_reach.step [OF r2 [folded K_def] release_step [OF _ s'(1)]]) (simp add: K_def)
  moreover have "K(3 := K 3 - 1) = (\<lambda>_. 0)" by (auto simp: K_def)
  ultimately have "cache_reach (s', \<lambda>_. 0, [(7, [97], 5)])" by simp
  then show thesis using that [OF r2 s'(1)] s'(2,3) s by (simp add: data_frame_def)
qed

theorem cache_never_fails_witness:
  "\<exists>s s'. cache_reach (s, (\<lambda>_. 0)(3 := Suc 0), [(7, [97], 5)]) \<and> LRUCache_Release 3 s = Some s'"
proof -
  obtain s where r: "cache_reach (s, (\<lambda>_. 0)(3 := Suc 0), [(7, [97], 5)])" by (rule sample_run)
  then show ?thesis using cache_never_fails [OF r] by auto
qed

theorem cache_accounting_witness:
  "\<exists>s. cache_reach (s, (\<lambda>_. 0)(3 := Suc 0), [(7, [97], 5)]) \<and> 3 \<in> live s - {lru_head s, in_use_head s} \<and>
    unat (refs s 3) = 1 + (if in_cache s 3 then 1 else 0)"
proof -
  obtain s where r: "cache_reach (s, (\<lambda>_. 0)(3 := Suc 0), [(7, [97], 5)])" by (rule sample_run)
  have "3 \<in> live s - {lru_head s, in_use_head s}" using cache_accounting [OF r] by (auto dest!: spec [of _ 3])
  then show ?thesis using cache_accounting [OF r] r by (intro exI [of _ s]) (auto dest!: bspec [of _ _ 3])
qed

theorem lookup_finds_witness:
  "\<exists>s x s'. cache_reach (s, \<lambda>_. 0, [(7, [97], 5)]) \<and> LRUCache_Lookup [97] 0 s = Some (x, s')"
proof -
  obtain s where r: "cache_reach (s, \<lambda>_. 0, [(7, [97], 5)])" by (rule sample_run)
  have "\<exists>x s'. LRUCache_Lookup [97] 0 s = Some (x, s')" using lookup_finds [OF r, of "[97]" 0] by auto
  then show ?thesis using r by blast
qed

theorem insert_evicts_oldest_witness:
  "\<exists>s s'. cache_reach (s, \<lambda>_. 0, [(7, [97], 5)]) \<and> LRUCache_Insert 4 [98] 1 6 1 7 s = Some (4, s')"
proof -
  obtain s where r: "cache_reach (s, \<lambda>_. 0, [(7, [97], 5)])" "live s = {1, 2, 3}" "capacity s = 1" by (rule sample_run)
  have "\<exists>s'. LRUCache_Insert 4 [98] 1 6 1 7 s = Some (4, s')"
    using insert_evicts_oldest [OF r(1), of 4 "[98]" 1 6 1 7] by (auto simp: r)
  then show ?thesis using r by blast
qed

theorem insert_lookup_witness:
  "\<exists>s s' s''. cache_reach (s, \<lambda>_. 0, [(7, [97], 5)]) \<and> LRUCache_Insert 4 [98] 1 6 1 7 s = Some (4, s') \<and>
    LRUCache_Lookup [98] 1 s' = Some (4, s'') \<and> handle_value s'' 4 = 6"
proof -
  obtain s where r: "cache_reach (s, \<lambda>_. 0, [(7, [97], 5)])" "live s = {1, 2, 3}" "capacity s = 1" by (rule sample_run)
  have "\<exists>s' s''. LRUCache_Insert 4 [98] 1 6 1 7 s = Some (4, s') \<and> LRUCache_Lookup [98] 1 s' = Some (4, s'') \<and> handle_value s'' 4 = 6"
    using insert_lookup [OF r(1), of 4 "[98]" 1 6 1 7] by (auto simp: r)
  then show ?thesis using r by blast
qed

end
