(* ===== verification/Sharded_cache.thy ===== *)
theory Sharded_cache
  imports Lru_client
begin

text \<open>
  \<^verbatim>\<open>util/cache.cc\<close>, part 4: \<^verbatim>\<open>class ShardedLRUCache\<close>, sixteen \<^verbatim>\<open>LRUCache\<close>s selected by the top bits of the hash.  The shards
  work on disjoint parts of the memory: a handle belongs to the shard in whose part it is live, and reading a field of
  a handle (\<open>mem_rd\<close>) reads it there.
\<close>

definition kNumShardBits :: nat where "kNumShardBits = 4"

definition kNumShards :: nat where "kNumShards = 2 ^ kNumShardBits"

definition HashSlice :: "bytes \<Rightarrow> u32" where
  "HashSlice s = Hash s 0"

definition Shard :: "u32 \<Rightarrow> nat" where
  "Shard h = unat (drop_bit (32 - kNumShardBits) h)"

record sharded_cache =
  shards :: "lru_cache list"
  last_id :: u64

text \<open>Calling an operation on a shard.\<close>

definition on_shard :: "nat \<Rightarrow> (lru_cache \<Rightarrow> ('r \<times> lru_cache) option) \<Rightarrow> sharded_cache \<Rightarrow> ('r \<times> sharded_cache) option" where
  "on_shard i f c =
     (if i < length (shards c) then do {
        (r, s) \<leftarrow> f (shards c ! i);
        Some (r, c\<lparr>shards := (shards c)[i := s]\<rparr>) }
      else None)"

definition mem_rd :: "(lru_cache \<Rightarrow> nat \<Rightarrow> 'b) \<Rightarrow> nat \<Rightarrow> sharded_cache \<Rightarrow> 'b option" where
  "mem_rd f p c = do {
     s \<leftarrow> List.find (\<lambda>s. p \<in> live s) (shards c);
     rd f p s }"

text \<open>The constructor: \<open>heads\<close> are the addresses of the list heads of the shards.\<close>

fun new_shards :: "u64 \<Rightarrow> (nat \<times> nat) list \<Rightarrow> lru_cache list option" where
  "new_shards per [] = Some []"
| "new_shards per ((a, b) # heads) = do {
     s \<leftarrow> LRUCache_new a b;
     ss \<leftarrow> new_shards per heads;
     Some (SetCapacity per s # ss) }"

definition per_shard :: "u64 \<Rightarrow> u64" where
  "per_shard cap = (cap + (of_nat kNumShards - 1)) div of_nat kNumShards"

definition ShardedLRUCache_new :: "(nat \<times> nat) list \<Rightarrow> u64 \<Rightarrow> sharded_cache option" where
  "ShardedLRUCache_new heads cap = do {
     ss \<leftarrow> new_shards (per_shard cap) heads;
     Some \<lparr>shards = ss, last_id = 0\<rparr> }"

definition Sharded_Insert ::
    "nat \<Rightarrow> bytes \<Rightarrow> nat \<Rightarrow> u64 \<Rightarrow> nat \<Rightarrow> sharded_cache \<Rightarrow> (nat \<times> sharded_cache) option" where
  "Sharded_Insert e key v ch del c =
     (let h = HashSlice key in on_shard (Shard h) (LRUCache_Insert e key h v ch del) c)"

definition Sharded_Lookup :: "bytes \<Rightarrow> sharded_cache \<Rightarrow> (nat \<times> sharded_cache) option" where
  "Sharded_Lookup key c = (let h = HashSlice key in on_shard (Shard h) (LRUCache_Lookup key h) c)"

definition Sharded_Release :: "nat \<Rightarrow> sharded_cache \<Rightarrow> sharded_cache option" where
  "Sharded_Release e c = do {
     h \<leftarrow> mem_rd hash e c;
     (u, c) \<leftarrow> on_shard (Shard h) (\<lambda>s. map_option (Pair ()) (LRUCache_Release e s)) c;
     Some c }"

definition Sharded_Erase :: "bytes \<Rightarrow> sharded_cache \<Rightarrow> sharded_cache option" where
  "Sharded_Erase key c = (let h = HashSlice key in
     map_option snd (on_shard (Shard h) (\<lambda>s. map_option (Pair ()) (LRUCache_Erase key h s)) c))"

definition Sharded_Value :: "nat \<Rightarrow> sharded_cache \<Rightarrow> nat option" where
  "Sharded_Value e c = mem_rd handle_value e c"

definition NewId :: "sharded_cache \<Rightarrow> u64 \<times> sharded_cache" where
  "NewId c = (let i = last_id c + 1 in (i, c\<lparr>last_id := i\<rparr>))"

fun each_shard :: "(lru_cache \<Rightarrow> lru_cache option) \<Rightarrow> nat list \<Rightarrow> sharded_cache \<Rightarrow> sharded_cache option" where
  "each_shard f [] c = Some c"
| "each_shard f (i # is) c = do {
     (u, c) \<leftarrow> on_shard i (\<lambda>s. map_option (Pair ()) (f s)) c;
     each_shard f is c }"

definition Sharded_Prune :: "sharded_cache \<Rightarrow> sharded_cache option" where
  "Sharded_Prune c = each_shard LRUCache_Prune [0..<kNumShards] c"

text \<open>The destructor destroys the elements of the array, last first.\<close>

definition Sharded_destroy :: "sharded_cache \<Rightarrow> sharded_cache option" where
  "Sharded_destroy c = each_shard LRUCache_destroy (rev [0..<kNumShards]) c"

definition Sharded_TotalCharge :: "sharded_cache \<Rightarrow> u64" where
  "Sharded_TotalCharge c = foldl (\<lambda>total s. total + TotalCharge s) 0 (shards c)"

lemma Shard_less: "Shard h < kNumShards"
proof -
  have "unat h < 2 ^ 32" using unsigned_less [of h] by simp
  then have "unat h div 2 ^ 28 < 16" by (simp add: less_mult_imp_div_less)
  then show ?thesis by (simp add: Shard_def kNumShardBits_def kNumShards_def drop_bit_eq_div unat_div)
qed

section \<open>What a shard's operations keep\<close>

text \<open>An operation of a shard frees handles, but takes no other memory and leaves the hashes alone.\<close>

definition kept :: "lru_cache \<Rightarrow> lru_cache \<Rightarrow> bool" where
  "kept s s' \<longleftrightarrow> live s' \<subseteq> live s \<and> hash s' = hash s \<and> lru_head s' = lru_head s \<and> in_use_head s' = in_use_head s"

lemma kept_frame: "data_frame s s' \<Longrightarrow> live s' \<subseteq> live s \<Longrightarrow> kept s s'"
  by (simp add: kept_def data_frame_def)

lemma evicting_kept: "evicting xs s s' \<Longrightarrow> kept s s'"
  by (auto simp: evicting_def intro: kept_frame)

lemma reach_kept:
  assumes "cache_reach (s, H, I)"
  shows "\<forall>y. H y < 2 ^ 32 - 2 \<Longrightarrow> LRUCache_Lookup key h s = Some (x, s') \<Longrightarrow> kept s s'"
    and "H e > 0 \<Longrightarrow> LRUCache_Release e s = Some s' \<Longrightarrow> kept s s'"
    and "LRUCache_Erase key h s = Some s' \<Longrightarrow> kept s s'" and "LRUCache_Prune s = Some s' \<Longrightarrow> kept s s'"
    and "e \<notin> live s \<Longrightarrow> e \<noteq> 0 \<Longrightarrow> card (live s) < 2 ^ 31 \<Longrightarrow> LRUCache_Insert e key h v ch del s = Some (e', s') \<Longrightarrow>
      e' = e \<and> kept (fresh_state e key h v ch del s) s'"
proof -
  obtain bs L U where ok: "client_ok (s, H, I) bs L U" using reach_client [OF assms] by blast
  note c = client_okD [OF ok]
  show "kept s s'" if "\<forall>y. H y < 2 ^ 32 - 2" "LRUCache_Lookup key h s = Some (x, s')"
    by (rule Lookup_ok [OF c(1) unsaturated [OF ok that(1)], of key h]) (use that(2) in \<open>simp add: kept_frame\<close>)
  show "kept s s'" if "LRUCache_Prune s = Some s'"
    using Prune_ok [OF c(1)] that evicting_kept by auto
  show "kept s s'" if "LRUCache_Erase key h s = Some s'"
    by (rule Erase_ok [OF c(1), of key h])
      (use that in \<open>auto simp: removed_def dropped_def intro!: kept_frame split: if_splits\<close>)
  show "kept s s'" if "H e > 0" "LRUCache_Release e s = Some s'"
  proof (rule Release_ok [OF c(1) held_outside [OF ok that(1)]])
    fix t assume "LRUCache_Release e s = Some t" "data_frame s t"
      "if refs s e = 1 then live t = live s - {e} \<and> deleted t = deleted s @ [deletion s e] else live t = live s \<and> deleted t = deleted s"
    then show "kept s s'" using that(2) by (auto intro!: kept_frame split: if_splits)
  qed
  show "e' = e \<and> kept (fresh_state e key h v ch del s) s'"
    if e: "e \<notin> live s" "e \<noteq> 0" "card (live s) < 2 ^ 31" and i: "LRUCache_Insert e key h v ch del s = Some (e', s')"
  proof (cases "capacity s > 0")
    case True
    show ?thesis
      by (rule Insert_on [OF c(1) e True refl, of key h v ch del])
        (use i in \<open>auto simp: inserted_over_def intro!: kept_frame\<close>)
  next
    case False
    show ?thesis
      by (rule Insert_off [OF c(1) e(1,2) _ refl, of key h v ch del])
        (use i False in \<open>auto simp: word_gt_0 intro: evicting_kept\<close>)
  qed
qed

section \<open>Clients of the sharded cache\<close>

inductive sharded_step :: "sharded_cache \<times> (nat \<Rightarrow> nat) \<times> deletions \<Rightarrow> sharded_cache \<times> (nat \<Rightarrow> nat) \<times> deletions \<Rightarrow> bool" where
  sharded_insert: "\<forall>s\<in>set (shards c). e \<notin> live s \<and> card (live s) < 2 ^ 31 \<Longrightarrow> e \<noteq> 0 \<Longrightarrow> Sharded_Insert e key v ch del c = Some (e', c') \<Longrightarrow>
    sharded_step (c, H, I) (c', H(e' := Suc (H e')), I @ [(del, key, v)])"
| sharded_lookup: "\<forall>y. H y < 2 ^ 32 - 2 \<Longrightarrow> Sharded_Lookup key c = Some (e, c') \<Longrightarrow>
    sharded_step (c, H, I) (c', if e = 0 then H else H(e := Suc (H e)), I)"
| sharded_release: "H e > 0 \<Longrightarrow> Sharded_Release e c = Some c' \<Longrightarrow> sharded_step (c, H, I) (c', H(e := H e - 1), I)"
| sharded_erase: "Sharded_Erase key c = Some c' \<Longrightarrow> sharded_step (c, H, I) (c', H, I)"
| sharded_prune: "Sharded_Prune c = Some c' \<Longrightarrow> sharded_step (c, H, I) (c', H, I)"
| sharded_id: "sharded_step (c, H, I) (snd (NewId c), H, I)"

definition heads_ok :: "(nat \<times> nat) list \<Rightarrow> bool" where
  "heads_ok heads \<longleftrightarrow> length heads = kNumShards \<and> distinct (concat (map (\<lambda>(a, b). [a, b]) heads)) \<and>
     0 \<notin> set (concat (map (\<lambda>(a, b). [a, b]) heads))"

inductive sharded_reach :: "sharded_cache \<times> (nat \<Rightarrow> nat) \<times> deletions \<Rightarrow> bool" where
  start: "heads_ok heads \<Longrightarrow> ShardedLRUCache_new heads cap = Some c \<Longrightarrow> sharded_reach (c, \<lambda>_. 0, [])"
| step: "sharded_reach x \<Longrightarrow> sharded_step x x' \<Longrightarrow> sharded_reach x'"

text \<open>The part of the clients' state that concerns shard \<open>i\<close>.\<close>

definition held_in :: "lru_cache \<Rightarrow> (nat \<Rightarrow> nat) \<Rightarrow> nat \<Rightarrow> nat" where
  "held_in s H e = (if e \<in> live s then H e else 0)"

definition inserted_in :: "nat \<Rightarrow> deletions \<Rightarrow> deletions" where
  "inserted_in i I = filter (\<lambda>(d, k, v). Shard (HashSlice k) = i) I"

definition sharded_ok :: "sharded_cache \<times> (nat \<Rightarrow> nat) \<times> deletions \<Rightarrow> bool" where
  "sharded_ok x \<longleftrightarrow> (case x of (c, H, I) \<Rightarrow> length (shards c) = kNumShards \<and>
     (\<forall>i<kNumShards. cache_reach (shards c ! i, held_in (shards c ! i) H, inserted_in i I)) \<and>
     (\<forall>i<kNumShards. \<forall>j<kNumShards. i \<noteq> j \<longrightarrow> live (shards c ! i) \<inter> live (shards c ! j) = {}) \<and>
     (\<forall>i<kNumShards. \<forall>e\<in>handles (shards c ! i). Shard (hash (shards c ! i) e) = i) \<and>
     (\<forall>e. H e > 0 \<longrightarrow> (\<exists>i<kNumShards. e \<in> live (shards c ! i))))"

lemma sharded_okD:
  assumes "sharded_ok (c, H, I)"
  shows "length (shards c) = kNumShards"
    "i < kNumShards \<Longrightarrow> cache_reach (shards c ! i, held_in (shards c ! i) H, inserted_in i I)"
    "i < kNumShards \<Longrightarrow> j < kNumShards \<Longrightarrow> i \<noteq> j \<Longrightarrow> live (shards c ! i) \<inter> live (shards c ! j) = {}"
    "i < kNumShards \<Longrightarrow> e \<in> handles (shards c ! i) \<Longrightarrow> Shard (hash (shards c ! i) e) = i"
    "H e > 0 \<Longrightarrow> \<exists>i<kNumShards. e \<in> live (shards c ! i)"
  using assms unfolding sharded_ok_def by auto

lemma reach_held:
  assumes "cache_reach (s, H, I)"
  shows "H e > 0 \<Longrightarrow> e \<in> handles s"
proof -
  obtain bs L U where "client_ok (s, H, I) bs L U" using reach_client [OF assms] by blast
  then show "H e > 0 \<Longrightarrow> e \<in> handles s" using countedD(2) [OF client_okD(2)] by fastforce
qed

text \<open>One shard changes: its own state, what is held and what was inserted; the others see none of it.\<close>

lemma shard_update:
  assumes ok: "sharded_ok (c, H, I)" and i: "i < kNumShards" and reach: "cache_reach (s', K, inserted_in i I')"
    and live: "live s' \<subseteq> insert a (live (shards c ! i))" "\<forall>j<kNumShards. j \<noteq> i \<longrightarrow> a \<notin> live (shards c ! j)"
    and home: "\<forall>e\<in>handles s'. Shard (hash s' e) = i"
    and K: "\<forall>e\<in>live s'. K e = H' e" "\<forall>e. e \<notin> insert a (live (shards c ! i)) \<longrightarrow> H' e = H e"
      "\<forall>e\<in>insert a (live (shards c ! i)). H' e > 0 \<longrightarrow> K e > 0"
    and I: "\<forall>j<kNumShards. j \<noteq> i \<longrightarrow> inserted_in j I' = inserted_in j I"
  shows "sharded_ok (c\<lparr>shards := (shards c)[i := s']\<rparr>, H', I')"
proof -
  note d = sharded_okD [OF ok]
  have at: "(shards c)[i := s'] ! j = (if j = i then s' else shards c ! j)" if "j < kNumShards" for j
    using that i d(1) by simp
  have Ki: "K e > 0 \<Longrightarrow> e \<in> live s'" for e using reach_held [OF reach, of e] by (simp add: handles_def)
  have "held_in s' H' = K"
  proof
    fix e show "held_in s' H' e = K e" using K(1) Ki [of e] by (auto simp: held_in_def)
  qed
  moreover have "held_in (shards c ! j) H' = held_in (shards c ! j) H" if "j < kNumShards" "j \<noteq> i" for j
    using that d(3) [OF that(1) i] live(2) K(2) by (auto simp: held_in_def fun_eq_iff)
  ultimately have "cache_reach ((shards c)[i := s'] ! j, held_in ((shards c)[i := s'] ! j) H', inserted_in j I')" if "j < kNumShards" for j
    using reach d(2) [OF that] I that by (simp add: at)
  moreover have "live ((shards c)[i := s'] ! j) \<inter> live ((shards c)[i := s'] ! k) = {}" if "j < kNumShards" "k < kNumShards" "j \<noteq> k" for j k
    using that live d(3) [OF that] d(3) [OF that(1) i] d(3) [OF i that(2)] by (auto simp: at)
  moreover have "Shard (hash ((shards c)[i := s'] ! j) e) = j" if "j < kNumShards" "e \<in> handles ((shards c)[i := s'] ! j)" for j e
    using that home d(4) by (auto simp: at split: if_splits)
  moreover have "\<exists>j<kNumShards. e \<in> live ((shards c)[i := s'] ! j)" if "H' e > 0" for e
  proof (cases "e \<in> insert a (live (shards c ! i))")
    case True
    then show ?thesis using K(3) that Ki i by (auto simp: at intro!: exI [of _ i])
  next
    case False
    then have "H e > 0" using K(2) that by simp
    then obtain j where "j < kNumShards" "e \<in> live (shards c ! j)" using d(5) [of e] by auto
    then show ?thesis using False by (intro exI [of _ j]) (auto simp: at)
  qed
  ultimately show ?thesis using d(1) by (simp add: sharded_ok_def)
qed

lemma shard_update_kept:
  assumes ok: "sharded_ok (c, H, I)" and i: "i < kNumShards" and reach: "cache_reach (s', K, inserted_in i I)"
    and kept: "kept (shards c ! i) s'"
    and K: "\<forall>e\<in>live (shards c ! i). K e = H' e" "\<forall>e. e \<notin> live (shards c ! i) \<longrightarrow> H' e = H e"
  shows "sharded_ok (c\<lparr>shards := (shards c)[i := s']\<rparr>, H', I)"
proof -
  note d = sharded_okD [OF ok]
  obtain bs L U where "client_ok (shards c ! i, held_in (shards c ! i) H, inserted_in i I) bs L U" using reach_client [OF d(2) [OF i]] by blast
  then have a: "lru_head (shards c ! i) \<in> live (shards c ! i)" using lists_okD(4) [OF client_okD(6)] by fastforce
  show ?thesis
  proof (rule shard_update [OF ok i reach, where a = "lru_head (shards c ! i)"])
    show "\<forall>j<kNumShards. j \<noteq> i \<longrightarrow> lru_head (shards c ! i) \<notin> live (shards c ! j)" using d(3) [OF _ i] a by blast
    show "\<forall>e\<in>handles s'. Shard (hash s' e) = i" using d(4) [OF i] kept by (auto simp: kept_def handles_def)
  qed (use kept K a in \<open>auto simp: kept_def insert_absorb\<close>)
qed

lemma sharded_lookup_ok:
  assumes ok: "sharded_ok (c, H, I)" and H: "\<forall>y. H y < 2 ^ 32 - 2"
  shows "\<exists>x c'. Sharded_Lookup key c = Some (x, c') \<and> sharded_ok (c', if x = 0 then H else H(x := Suc (H x)), I)"
proof -
  note d = sharded_okD [OF ok]
  let ?i = "Shard (HashSlice key)"
  let ?s = "shards c ! ?i"
  have i: "?i < kNumShards" by (rule Shard_less)
  note r = d(2) [OF i]
  have Hi: "\<forall>y. held_in ?s H y < 2 ^ 32 - 2" using H by (auto simp: held_in_def)
  obtain bs L U where cl: "client_ok (?s, held_in ?s H, inserted_in ?i I) bs L U" using reach_client [OF r] by blast
  obtain x s' where x: "LRUCache_Lookup key (HashSlice key) ?s = Some (x, s')" using lookup_client [OF cl Hi] by blast
  define K where "K = (if x = 0 then held_in ?s H else (held_in ?s H)(x := Suc (held_in ?s H x)))"
  have r': "cache_reach (s', K, inserted_in ?i I)"
    unfolding K_def by (rule cache_reach.step [OF r lookup_step]) (use Hi x in auto)
  have kept: "kept ?s s'" by (rule reach_kept(1) [OF r Hi x])
  have xl: "x \<noteq> 0 \<Longrightarrow> x \<in> live ?s" using reach_held [OF r', of x] kept by (auto simp: K_def handles_def kept_def)
  have "sharded_ok (c\<lparr>shards := (shards c)[?i := s']\<rparr>, if x = 0 then H else H(x := Suc (H x)), I)"
    by (rule shard_update_kept [OF ok i r' kept]) (use xl in \<open>auto simp: K_def held_in_def\<close>)
  then show ?thesis using x i d(1) by (auto simp: Sharded_Lookup_def on_shard_def Let_def)
qed

lemma find_only:
  "i < length xs \<Longrightarrow> P (xs ! i) \<Longrightarrow> (\<forall>j<length xs. j \<noteq> i \<longrightarrow> \<not> P (xs ! j)) \<Longrightarrow> List.find P xs = Some (xs ! i)"
  unfolding find_Some_iff by (intro exI [of _ i]) auto

lemma sharded_release_ok:
  assumes ok: "sharded_ok (c, H, I)" and H: "H e > 0"
  shows "\<exists>c'. Sharded_Release e c = Some c' \<and> sharded_ok (c', H(e := H e - 1), I)"
proof -
  note d = sharded_okD [OF ok]
  obtain i where i: "i < kNumShards" "e \<in> live (shards c ! i)" using d(5) [OF H] by blast
  let ?s = "shards c ! i"
  note r = d(2) [OF i(1)]
  have Hi: "held_in ?s H e > 0" using H i(2) by (simp add: held_in_def)
  have home: "Shard (hash ?s e) = i" by (rule d(4) [OF i(1) reach_held [OF r Hi]])
  have "\<forall>j<length (shards c). j \<noteq> i \<longrightarrow> e \<notin> live (shards c ! j)" using d(3) [OF _ i(1)] i(2) d(1) by auto
  then have m: "mem_rd hash e c = Some (hash ?s e)"
    using find_only [of i "shards c" "\<lambda>s. e \<in> live s"] i d(1) by (simp add: mem_rd_def rd_def)
  obtain bs L U where cl: "client_ok (?s, held_in ?s H, inserted_in i I) bs L U" using reach_client [OF r] by blast
  obtain s' where s': "LRUCache_Release e ?s = Some s'" using release_client [where e = e, OF cl Hi] by blast
  have r': "cache_reach (s', (held_in ?s H)(e := held_in ?s H e - 1), inserted_in i I)"
    by (rule cache_reach.step [OF r release_step [where H = "held_in ?s H" and e = e, OF Hi s']])
  have kept: "kept ?s s'" by (rule reach_kept(2) [OF r Hi s'])
  have "sharded_ok (c\<lparr>shards := (shards c)[i := s']\<rparr>, H(e := H e - 1), I)"
    by (rule shard_update_kept [OF ok i(1) r' kept]) (use i(2) in \<open>auto simp: held_in_def\<close>)
  then show ?thesis using m s' i d(1) home by (auto simp: Sharded_Release_def on_shard_def)
qed

lemma sharded_erase_ok:
  assumes ok: "sharded_ok (c, H, I)"
  shows "\<exists>c'. Sharded_Erase key c = Some c' \<and> sharded_ok (c', H, I)"
proof -
  note d = sharded_okD [OF ok]
  let ?i = "Shard (HashSlice key)"
  let ?s = "shards c ! ?i"
  have i: "?i < kNumShards" by (rule Shard_less)
  note r = d(2) [OF i]
  obtain bs L U where cl: "client_ok (?s, held_in ?s H, inserted_in ?i I) bs L U" using reach_client [OF r] by blast
  obtain s' where s': "LRUCache_Erase key (HashSlice key) ?s = Some s'" using erase_client [OF cl] by blast
  have "sharded_ok (c\<lparr>shards := (shards c)[?i := s']\<rparr>, H, I)"
    by (rule shard_update_kept [OF ok i cache_reach.step [OF r erase_step [OF s']] reach_kept(3) [OF r s']]) (auto simp: held_in_def)
  then show ?thesis using s' i d(1) by (auto simp: Sharded_Erase_def on_shard_def Let_def)
qed

lemma prune_shards_ok:
  "sharded_ok (c, H, I) \<Longrightarrow> set is \<subseteq> {..<kNumShards} \<Longrightarrow> \<exists>c'. each_shard LRUCache_Prune is c = Some c' \<and> sharded_ok (c', H, I)"
proof (induction "is" arbitrary: c)
  case (Cons i "is")
  note d = sharded_okD [OF Cons.prems(1)]
  have i: "i < kNumShards" using Cons.prems(2) by simp
  let ?s = "shards c ! i"
  note r = d(2) [OF i]
  obtain bs L U where cl: "client_ok (?s, held_in ?s H, inserted_in i I) bs L U" using reach_client [OF r] by blast
  obtain s' where s': "LRUCache_Prune ?s = Some s'" using prune_client [OF cl] by blast
  have "sharded_ok (c\<lparr>shards := (shards c)[i := s']\<rparr>, H, I)"
    by (rule shard_update_kept [OF Cons.prems(1) i cache_reach.step [OF r prune_step [OF s']] reach_kept(4) [OF r s']]) (auto simp: held_in_def)
  then show ?case using Cons.IH [of "c\<lparr>shards := (shards c)[i := s']\<rparr>"] Cons.prems(2) s' i d(1) by (simp add: on_shard_def)
qed simp

lemma sharded_prune_ok: "sharded_ok (c, H, I) \<Longrightarrow> \<exists>c'. Sharded_Prune c = Some c' \<and> sharded_ok (c', H, I)"
  unfolding Sharded_Prune_def by (rule prune_shards_ok) auto

lemma sharded_insert_ok:
  assumes ok: "sharded_ok (c, H, I)" and e: "\<forall>s\<in>set (shards c). e \<notin> live s \<and> card (live s) < 2 ^ 31" "e \<noteq> 0"
  shows "\<exists>c'. Sharded_Insert e key v ch del c = Some (e, c') \<and> sharded_ok (c', H(e := Suc (H e)), I @ [(del, key, v)])"
proof -
  note d = sharded_okD [OF ok]
  let ?i = "Shard (HashSlice key)"
  let ?s = "shards c ! ?i" and ?h = "HashSlice key"
  have i: "?i < kNumShards" by (rule Shard_less)
  note r = d(2) [OF i]
  have ei: "e \<notin> live (shards c ! j)" "card (live (shards c ! j)) < 2 ^ 31" if "j < kNumShards" for j using e(1) that d(1) by auto
  note es = ei [OF i]
  obtain bs L U where cl: "client_ok (?s, held_in ?s H, inserted_in ?i I) bs L U" using reach_client [OF r] by blast
  obtain s' where s': "LRUCache_Insert e key ?h v ch del ?s = Some (e, s')"
    using insert_client [OF cl es(1) e(2) es(2), of key ?h v ch del] by blast
  define K where "K = (held_in ?s H)(e := Suc (held_in ?s H e))"
  have r': "cache_reach (s', K, inserted_in ?i (I @ [(del, key, v)]))"
    using cache_reach.step [OF r insert_step [OF es(1) e(2) es(2) s']] by (simp add: K_def inserted_in_def)
  have kept: "kept (fresh_state e key ?h v ch del ?s) s'" using reach_kept(5) [OF r es(1) e(2) es(2) s'] by simp
  have He: "H e = 0" using d(5) [of e] ei(1) by (metis gr0I)
  have "sharded_ok (c\<lparr>shards := (shards c)[?i := s']\<rparr>, H(e := Suc (H e)), I @ [(del, key, v)])"
  proof (rule shard_update [OF ok i r', where a = e])
    show "live s' \<subseteq> insert e (live ?s)" using kept by (simp add: kept_def)
    show "\<forall>x\<in>handles s'. Shard (hash s' x) = ?i" using d(4) [OF i] kept by (auto simp: kept_def handles_def)
    show "\<forall>x\<in>live s'. K x = (H(e := Suc (H e))) x" using kept es(1) He by (auto simp: K_def held_in_def kept_def)
  qed (use ei es(1) in \<open>auto simp: K_def held_in_def inserted_in_def\<close>)
  then show ?thesis using s' i d(1) by (auto simp: Sharded_Insert_def on_shard_def Let_def)
qed

lemma new_shards_ok:
  assumes "distinct (concat (map (\<lambda>(a, b). [a, b]) heads))" "0 \<notin> set (concat (map (\<lambda>(a, b). [a, b]) heads))"
  shows "\<exists>ss. new_shards per heads = Some ss \<and> length ss = length heads \<and>
    (\<forall>i<length heads. cache_reach (ss ! i, \<lambda>_. 0, []) \<and> live (ss ! i) = {fst (heads ! i), snd (heads ! i)} \<and> handles (ss ! i) = {})"
  using assms
proof (induction heads)
  case (Cons x heads)
  obtain a b where x: "x = (a, b)" by (cases x)
  obtain s where s: "LRUCache_new a b = Some s" "live s = {a, b}" "lru_head s = a" "in_use_head s = b"
    by (rule new_ok [of a b]) (use Cons.prems in \<open>auto simp: x\<close>)
  have "cache_reach (s, \<lambda>_. 0, [])" by (rule cache_reach.start [OF _ _ _ s(1)]) (use Cons.prems in \<open>auto simp: x\<close>)
  then have "cache_reach (SetCapacity per s, \<lambda>_. 0, [])" by (rule cache_reach.step [OF _ capacity_step])
  moreover have "live (SetCapacity per s) = {a, b}" "handles (SetCapacity per s) = {}" using s by (simp_all add: SetCapacity_def handles_def)
  moreover obtain ss where "new_shards per heads = Some ss" "length ss = length heads"
    "\<forall>i<length heads. cache_reach (ss ! i, \<lambda>_. 0, []) \<and> live (ss ! i) = {fst (heads ! i), snd (heads ! i)} \<and> handles (ss ! i) = {}"
    using Cons by (auto simp: x)
  ultimately show ?case using s(1) by (auto simp: x nth_Cons split: nat.splits)
qed simp

lemma heads_disjoint:
  "distinct (concat (map (\<lambda>(a, b). [a, b]) heads)) \<Longrightarrow> i < length heads \<Longrightarrow> j < length heads \<Longrightarrow> i \<noteq> j \<Longrightarrow>
    {fst (heads ! i), snd (heads ! i)} \<inter> {fst (heads ! j), snd (heads ! j)} = {}"
proof (induction heads arbitrary: i j)
  case (Cons x heads)
  have in_concat: "{fst (heads ! k), snd (heads ! k)} \<subseteq> set (concat (map (\<lambda>(a, b). [a, b]) heads))" if "k < length heads" for k
  proof -
    obtain a b where ab: "heads ! k = (a, b)" by (cases "heads ! k")
    then have "(a, b) \<in> set heads" using nth_mem [OF that] by simp
    then show ?thesis using ab by force
  qed
  show ?case
  proof (cases i; cases j)
    fix k assume "i = 0" "j = Suc k"
    then show ?thesis using Cons.prems in_concat [of k] by (cases x) auto
  next
    fix k assume "i = Suc k" "j = 0"
    then show ?thesis using Cons.prems in_concat [of k] by (cases x) auto
  next
    fix k l assume "i = Suc k" "j = Suc l"
    then show ?thesis using Cons.IH [of k l] Cons.prems by (cases x) auto
  qed (use Cons.prems in auto)
qed simp

lemma sharded_start_ok:
  assumes "heads_ok heads" "ShardedLRUCache_new heads cap = Some c"
  shows "sharded_ok (c, \<lambda>_. 0, [])"
proof -
  have h: "length heads = kNumShards" "distinct (concat (map (\<lambda>(a, b). [a, b]) heads))" "0 \<notin> set (concat (map (\<lambda>(a, b). [a, b]) heads))"
    using assms(1) by (simp_all add: heads_ok_def)
  obtain ss where ss: "new_shards (per_shard cap) heads = Some ss" "length ss = kNumShards"
    "\<forall>i<kNumShards. cache_reach (ss ! i, \<lambda>_. 0, []) \<and> live (ss ! i) = {fst (heads ! i), snd (heads ! i)} \<and> handles (ss ! i) = {}"
    using new_shards_ok [OF h(2,3), of "per_shard cap"] h(1) by auto
  have "shards c = ss" using assms(2) ss(1) by (auto simp: ShardedLRUCache_new_def)
  moreover have "held_in s (\<lambda>_. 0) = (\<lambda>_. 0)" for s by (auto simp: held_in_def)
  ultimately show ?thesis
    using ss(2,3) heads_disjoint [OF h(2)] h(1) by (simp add: sharded_ok_def inserted_in_def)
qed

lemma sharded_reach_ok: "sharded_reach x \<Longrightarrow> sharded_ok x"
proof (induction rule: sharded_reach.induct)
  case (start heads cap c)
  then show ?case by (rule sharded_start_ok)
next
  case (step x x')
  from step.hyps(2) step.IH show ?case
  proof cases
    case (sharded_insert c e key v ch del e' c' H I)
    then show ?thesis using sharded_insert_ok [of c H I e key v ch del] step.IH by auto
  next
    case (sharded_lookup H key c e c' I)
    then show ?thesis using sharded_lookup_ok [of c H I key] step.IH by auto
  next
    case (sharded_release H e c c' I)
    then show ?thesis using sharded_release_ok [of c H I e] step.IH by auto
  next
    case (sharded_erase key c c' H I)
    then show ?thesis using sharded_erase_ok [of c H I key] step.IH by auto
  next
    case (sharded_prune c c' H I)
    then show ?thesis using sharded_prune_ok [of c H I] step.IH by auto
  next
    case (sharded_id c H I)
    then show ?thesis using step.IH by (simp add: NewId_def Let_def sharded_ok_def)
  qed
qed

section \<open>Destruction\<close>

lemma each_shard_nth:
  assumes "distinct is" "set is \<subseteq> {..<length (shards c)}" "\<forall>i\<in>set is. f (shards c ! i) = Some (g i)"
  shows "\<exists>c'. each_shard f is c = Some c' \<and> length (shards c') = length (shards c) \<and>
    (\<forall>i<length (shards c). shards c' ! i = (if i \<in> set is then g i else shards c ! i))"
  using assms
proof (induction "is" arbitrary: c)
  case (Cons i "is")
  define c1 where "c1 = c\<lparr>shards := (shards c)[i := g i]\<rparr>"
  have "on_shard i (\<lambda>s. map_option (Pair ()) (f s)) c = Some ((), c1)" using Cons.prems by (simp add: on_shard_def c1_def)
  moreover have "\<exists>c'. each_shard f is c1 = Some c' \<and> length (shards c') = length (shards c1) \<and>
      (\<forall>j<length (shards c1). shards c' ! j = (if j \<in> set is then g j else shards c1 ! j))"
    using Cons.prems by (intro Cons.IH) (auto simp: c1_def nth_list_update)
  ultimately show ?case using Cons.prems by (auto simp: c1_def nth_list_update)
qed simp

lemma inserted_in_sum: "(\<Sum>i<kNumShards. mset (inserted_in i I)) = mset I"
proof (induction I)
  case (Cons x I)
  obtain d k v where x: "x = (d, k, v)" by (cases x)
  have "(\<Sum>i<kNumShards. mset (inserted_in i (x # I))) =
      (\<Sum>i<kNumShards. (if Shard (HashSlice k) = i then {#x#} else {#}) + mset (inserted_in i I))"
    by (rule sum.cong) (auto simp: inserted_in_def x)
  also have "\<dots> = {#x#} + mset I" using Shard_less [of "HashSlice k"] Cons.IH by (simp add: sum.distrib)
  finally show ?case by simp
qed (simp add: inserted_in_def)

lemma sharded_value_ok:
  assumes "sharded_ok (c, H, I)" "H e > 0"
  shows "\<exists>v. Sharded_Value e c = Some v"
proof -
  note d = sharded_okD [OF assms(1)]
  obtain i where i: "i < kNumShards" "e \<in> live (shards c ! i)" using d(5) [OF assms(2)] by blast
  then have "\<forall>j<length (shards c). j \<noteq> i \<longrightarrow> e \<notin> live (shards c ! j)" using d(3) [OF _ i(1)] d(1) by auto
  then show ?thesis
    using find_only [of i "shards c" "\<lambda>s. e \<in> live s"] i d(1) by (simp add: Sharded_Value_def mem_rd_def rd_def)
qed

lemma sharded_destroy_ok:
  assumes "sharded_ok (c, H, I)" "\<forall>e. H e = 0"
  shows "\<exists>c'. Sharded_destroy c = Some c' \<and> (\<Sum>i<kNumShards. mset (deleted (shards c' ! i))) = mset I \<and>
    (\<forall>i<kNumShards. live (shards c' ! i) = {lru_head (shards c ! i), in_use_head (shards c ! i)})"
proof -
  note d = sharded_okD [OF assms(1)]
  have "\<exists>s'. LRUCache_destroy (shards c ! i) = Some s' \<and> live s' = {lru_head (shards c ! i), in_use_head (shards c ! i)} \<and>
      mset (deleted s') = mset (inserted_in i I)" if "i < kNumShards" for i
    using destroy_deletes_all [OF d(2) [OF that]] assms(2) by (simp add: held_in_def)
  then obtain g where g: "\<And>i. i < kNumShards \<Longrightarrow> LRUCache_destroy (shards c ! i) = Some (g i) \<and>
      live (g i) = {lru_head (shards c ! i), in_use_head (shards c ! i)} \<and> mset (deleted (g i)) = mset (inserted_in i I)" by metis
  obtain c' where c': "Sharded_destroy c = Some c'" "\<forall>i<kNumShards. shards c' ! i = g i"
    using each_shard_nth [of "rev [0..<kNumShards]" c LRUCache_destroy g] g d(1) by (auto simp: Sharded_destroy_def atLeast0LessThan)
  have "(\<Sum>i<kNumShards. mset (deleted (shards c' ! i))) = (\<Sum>i<kNumShards. mset (inserted_in i I))"
    using c'(2) g by (intro sum.cong) auto
  then show ?thesis using c' g inserted_in_sum by auto
qed

section \<open>Properties\<close>

text \<open>C22. The sharded cache refines sixteen independent caches: in every reachable state each shard is an \<^verbatim>\<open>LRUCache\<close> that its
  own share of the clients' calls can reach, with the values whose keys hash to it; the shards own disjoint memory, and a handle is
  always routed back to the shard that owns it.\<close>

theorem sharded_refines:
  assumes "sharded_reach (c, H, I)" "i < kNumShards"
  shows "cache_reach (shards c ! i, \<lambda>e. if e \<in> live (shards c ! i) then H e else 0, filter (\<lambda>(d, k, v). Shard (HashSlice k) = i) I) \<and>
    (\<forall>j<kNumShards. j \<noteq> i \<longrightarrow> live (shards c ! i) \<inter> live (shards c ! j) = {}) \<and>
    (\<forall>e. H e > 0 \<and> e \<in> live (shards c ! i) \<longrightarrow> mem_rd (\<lambda>s. Shard \<circ> hash s) e c = Some i)"
proof -
  have ok: "sharded_ok (c, H, I)" by (rule sharded_reach_ok [OF assms(1)])
  note d = sharded_okD [OF ok]
  have "mem_rd (\<lambda>s. Shard \<circ> hash s) e c = Some i" if e: "H e > 0" "e \<in> live (shards c ! i)" for e
  proof -
    have "e \<in> handles (shards c ! i)" using reach_held [OF d(2) [OF assms(2)], of e] e by (simp add: held_in_def)
    moreover have "\<forall>j<length (shards c). j \<noteq> i \<longrightarrow> e \<notin> live (shards c ! j)" using d(3) [OF _ assms(2)] e(2) d(1) by auto
    ultimately show ?thesis
      using find_only [of i "shards c" "\<lambda>s. e \<in> live s"] e assms(2) d(1,4) by (simp add: mem_rd_def rd_def)
  qed
  then show ?thesis
    using d(2) [OF assms(2)] d(3) [OF assms(2)] unfolding held_in_def [abs_def] inserted_in_def by blast
qed

text \<open>Every call a client may make on the sharded cache returns.\<close>

theorem sharded_never_fails:
  assumes "sharded_reach (c, H, I)"
  shows "(\<forall>e key v ch del. (\<forall>s\<in>set (shards c). e \<notin> live s \<and> card (live s) < 2 ^ 31) \<and> e \<noteq> 0 \<longrightarrow>
      (\<exists>c'. Sharded_Insert e key v ch del c = Some (e, c'))) \<and>
    (\<forall>key. (\<forall>y. H y < 2 ^ 32 - 2) \<longrightarrow> (\<exists>x c'. Sharded_Lookup key c = Some (x, c'))) \<and>
    (\<forall>e. H e > 0 \<longrightarrow> (\<exists>c'. Sharded_Release e c = Some c') \<and> (\<exists>v. Sharded_Value e c = Some v)) \<and>
    (\<forall>key. \<exists>c'. Sharded_Erase key c = Some c') \<and> (\<exists>c'. Sharded_Prune c = Some c')"
proof -
  have ok: "sharded_ok (c, H, I)" by (rule sharded_reach_ok [OF assms(1)])
  show ?thesis
    using sharded_value_ok [OF ok] sharded_insert_ok [OF ok] sharded_lookup_ok [OF ok] sharded_release_ok [OF ok] sharded_erase_ok [OF ok]
      sharded_prune_ok [OF ok] by blast
qed

text \<open>When the clients hold no handle any more, the destructor returns and every value that was ever inserted has been given
  to its deleter, with its key, exactly once; no handle is left allocated.\<close>

theorem sharded_deletes_once:
  assumes "sharded_reach (c, H, I)" "\<forall>e. H e = 0"
  shows "\<exists>c'. Sharded_destroy c = Some c' \<and> (\<Sum>i<kNumShards. mset (deleted (shards c' ! i))) = mset I \<and>
    (\<forall>i<kNumShards. live (shards c' ! i) = {lru_head (shards c ! i), in_use_head (shards c ! i)})"
  using sharded_destroy_ok [OF sharded_reach_ok [OF assms(1)] assms(2)] .

text \<open>A sharded cache with one entry that is held.\<close>

lemma sample_new:
  obtains heads c where "heads_ok heads" "ShardedLRUCache_new heads 16 = Some c" "\<forall>s\<in>set (shards c). 100 \<notin> live s \<and> card (live s) < 2 ^ 31"
proof -
  define heads :: "(nat \<times> nat) list" where "heads = map (\<lambda>i. (2 * i + 1, 2 * i + 2)) [0..<16]"
  have h: "heads_ok heads" by (simp add: heads_ok_def heads_def kNumShards_def kNumShardBits_def upt_rec)
  then obtain ss where ss: "new_shards (per_shard 16) heads = Some ss" "length ss = length heads"
    "\<forall>i<length heads. cache_reach (ss ! i, \<lambda>_. 0, []) \<and> live (ss ! i) = {fst (heads ! i), snd (heads ! i)} \<and> handles (ss ! i) = {}"
    using new_shards_ok [of heads "per_shard 16"] by (auto simp: heads_ok_def)
  have small: "heads ! i = (2 * i + 1, 2 * i + 2)" if "i < 16" for i using that by (simp add: heads_def)
  have len: "length heads = 16" by (simp add: heads_def)
  have "\<forall>s\<in>set ss. 100 \<notin> live s \<and> card (live s) < 2 ^ 31"
    using ss(2,3) small len by (auto simp: in_set_conv_nth card_insert_if)
  then show thesis using h ss(1) by (intro that [of heads "\<lparr>shards = ss, last_id = 0\<rparr>"]) (simp_all add: ShardedLRUCache_new_def)
qed

lemma sample_sharded:
  obtains c where "sharded_reach (c, (\<lambda>_. 0)(100 := Suc 0), [(7, [97], 5)])"
proof -
  obtain heads c where h: "heads_ok heads" "ShardedLRUCache_new heads 16 = Some c" and fresh: "\<forall>s\<in>set (shards c). 100 \<notin> live s \<and> card (live s) < 2 ^ 31"
    by (rule sample_new)
  have r: "sharded_reach (c, \<lambda>_. 0, [])" by (rule sharded_reach.start [OF h])
  obtain c' where c': "Sharded_Insert 100 [97] 5 1 7 c = Some (100, c')"
    using sharded_insert_ok [OF sharded_reach_ok [OF r] fresh, of "[97]" 5 1 7] by auto
  show thesis
    using sharded_reach.step [OF r sharded_insert [OF fresh _ c']] by (intro that) simp
qed

theorem sharded_refines_witness:
  "\<exists>c. sharded_reach (c, (\<lambda>_. 0)(100 := Suc 0), [(7, [97], 5)]) \<and> live (shards c ! 0) \<inter> live (shards c ! 1) = {}"
proof -
  obtain c where r: "sharded_reach (c, (\<lambda>_. 0)(100 := Suc 0), [(7, [97], 5)])" by (rule sample_sharded)
  have "live (shards c ! 0) \<inter> live (shards c ! 1) = {}"
    using sharded_refines [OF r, of 0] by (simp add: kNumShards_def kNumShardBits_def)
  then show ?thesis using r by blast
qed

theorem sharded_never_fails_witness:
  "\<exists>c c'. sharded_reach (c, (\<lambda>_. 0)(100 := Suc 0), [(7, [97], 5)]) \<and> Sharded_Release 100 c = Some c'"
proof -
  obtain c where r: "sharded_reach (c, (\<lambda>_. 0)(100 := Suc 0), [(7, [97], 5)])" by (rule sample_sharded)
  then show ?thesis using sharded_never_fails [OF r] by auto
qed

theorem sharded_deletes_once_witness:
  "\<exists>c c' c''. sharded_reach (c, (\<lambda>_. 0)(100 := Suc 0), [(7, [97], 5)]) \<and> Sharded_Release 100 c = Some c' \<and>
    Sharded_destroy c' = Some c'' \<and> (\<Sum>i<kNumShards. mset (deleted (shards c'' ! i))) = {#(7, [97], 5)#}"
proof -
  define K :: "nat \<Rightarrow> nat" where "K = (\<lambda>_. 0)(100 := Suc 0)"
  obtain c where r: "sharded_reach (c, K, [(7, [97], 5)])" unfolding K_def by (rule sample_sharded)
  have K: "K 100 > 0" by (simp add: K_def)
  obtain c' where c': "Sharded_Release 100 c = Some c'" using sharded_release_ok [where e = 100, OF sharded_reach_ok [OF r] K] by blast
  have r': "sharded_reach (c', K(100 := K 100 - 1), [(7, [97], 5)])"
    by (rule sharded_reach.step [OF r sharded_release [where H = K and e = 100, OF K c']])
  have "\<forall>e. (K(100 := K 100 - 1)) e = 0" by (simp add: K_def)
  then show ?thesis using sharded_deletes_once [OF r'] r c' by (auto simp: K_def)
qed

text \<open>The capacity of a shard is a sixteenth of the capacity, rounded up, unless the addition wraps around: for the fifteen
  largest capacities it is \<open>0\<close>, which turns caching off.\<close>

theorem per_shard_capacity:
  "if cap \<le> - 16 then 16 * unat (per_shard cap) \<ge> unat cap \<and> 16 * unat (per_shard cap) < unat cap + 16
   else per_shard cap = 0"
proof -
  have n: "unat (- 16 :: u64) = 2 ^ 64 - 16" by (simp add: unsigned_minus_1_eq_mask unat_eq_nat_uint)
  have eq: "unat (per_shard cap) = (unat cap + 15) mod 2 ^ 64 div 16"
    by (simp add: per_shard_def kNumShards_def kNumShardBits_def unat_div unat_word_ariths)
  have lt: "unat cap < 2 ^ 64" using unsigned_less [of cap] by simp
  show ?thesis
  proof (cases "cap \<le> - 16")
    case True
    then have "unat cap + 15 < 2 ^ 64" using n by (simp add: word_le_nat_alt)
    then have "unat (per_shard cap) = (unat cap + 15) div 16" using eq by simp
    then show ?thesis using True by auto
  next
    case False
    then have "unat cap + 15 \<ge> 2 ^ 64" using n by (simp add: word_le_nat_alt)
    then have "(unat cap + 15) mod 2 ^ 64 = unat cap + 15 - 2 ^ 64" using lt by (simp add: le_mod_geq)
    then have "unat (per_shard cap) = 0" using eq lt by auto
    then show ?thesis using False by (simp add: unat_eq_zero)
  qed
qed

end
