(* ===== verification/Cache_interface.thy ===== *)
theory Cache_interface
  imports Sharded_cache
begin

text \<open>
  \<^verbatim>\<open>include/cache.h\<close>: the abstract class \<^verbatim>\<open>Cache\<close> as the record of its virtual methods, what it promises to its clients as a
  locale, and \<^verbatim>\<open>NewLRUCache\<close>, which returns a sharded cache behind this interface.  A handle is the address of its entry, \<open>0\<close> the null
  pointer; \<open>None\<close> stands for a failed assertion or an access to memory that is not allocated.  The first argument of \<open>Cache_Insert\<close> is
  the address the allocation of the entry returns.
\<close>

record 's Cache =
  Cache_Insert :: "nat \<Rightarrow> bytes \<Rightarrow> nat \<Rightarrow> u64 \<Rightarrow> nat \<Rightarrow> 's \<Rightarrow> (nat \<times> 's) option"
  Cache_Lookup :: "bytes \<Rightarrow> 's \<Rightarrow> (nat \<times> 's) option"
  Cache_Release :: "nat \<Rightarrow> 's \<Rightarrow> 's option"
  Cache_Value :: "nat \<Rightarrow> 's \<Rightarrow> nat option"
  Cache_Erase :: "bytes \<Rightarrow> 's \<Rightarrow> 's option"
  Cache_NewId :: "'s \<Rightarrow> u64 \<times> 's"
  Cache_Prune :: "'s \<Rightarrow> 's option"
  Cache_TotalCharge :: "'s \<Rightarrow> u64"
  Cache_delete :: "'s \<Rightarrow> 's option"

definition ShardedLRUCache :: "sharded_cache Cache" where
  "ShardedLRUCache =
    \<lparr>Cache_Insert = Sharded_Insert, Cache_Lookup = Sharded_Lookup, Cache_Release = Sharded_Release, Cache_Value = Sharded_Value,
     Cache_Erase = Sharded_Erase, Cache_NewId = NewId, Cache_Prune = Sharded_Prune, Cache_TotalCharge = Sharded_TotalCharge,
     Cache_delete = Sharded_destroy\<rparr>"

definition NewLRUCache :: "(nat \<times> nat) list \<Rightarrow> u64 \<Rightarrow> (sharded_cache Cache \<times> sharded_cache) option" where
  "NewLRUCache heads cap = map_option (Pair ShardedLRUCache) (ShardedLRUCache_new heads cap)"

text \<open>A cache that does not override \<^verbatim>\<open>Prune\<close> prunes nothing.\<close>

definition Cache_Prune_default :: "'s \<Rightarrow> 's option" where
  "Cache_Prune_default s = Some s"

section \<open>Clients\<close>

text \<open>
  A client holds handle \<open>e\<close> \<open>H e\<close> times and has inserted the values \<open>I\<close>, each with its key and its deleter.  \<open>room e s\<close> says that \<open>e\<close> is a
  fresh address and that there is still memory.  The client releases only what it holds, and no handle is held \<^verbatim>\<open>UINT32_MAX\<close> times.
\<close>

inductive cache_use ::
    "'s Cache \<Rightarrow> (nat \<Rightarrow> 's \<Rightarrow> bool) \<Rightarrow> 's \<times> (nat \<Rightarrow> nat) \<times> deletions \<Rightarrow> 's \<times> (nat \<Rightarrow> nat) \<times> deletions \<Rightarrow> bool" for C room where
  use_insert: "room e s \<Longrightarrow> Cache_Insert C e key v ch del s = Some (e', s') \<Longrightarrow>
    cache_use C room (s, H, I) (s', H(e' := Suc (H e')), I @ [(del, key, v)])"
| use_lookup: "\<forall>y. H y < 2 ^ 32 - 2 \<Longrightarrow> Cache_Lookup C key s = Some (e, s') \<Longrightarrow>
    cache_use C room (s, H, I) (s', if e = 0 then H else H(e := Suc (H e)), I)"
| use_release: "H e > 0 \<Longrightarrow> Cache_Release C e s = Some s' \<Longrightarrow> cache_use C room (s, H, I) (s', H(e := H e - 1), I)"
| use_erase: "Cache_Erase C key s = Some s' \<Longrightarrow> cache_use C room (s, H, I) (s', H, I)"
| use_prune: "Cache_Prune C s = Some s' \<Longrightarrow> cache_use C room (s, H, I) (s', H, I)"
| use_id: "cache_use C room (s, H, I) (snd (Cache_NewId C s), H, I)"

inductive cache_session ::
    "'s Cache \<Rightarrow> (nat \<Rightarrow> 's \<Rightarrow> bool) \<Rightarrow> 's \<Rightarrow> 's \<times> (nat \<Rightarrow> nat) \<times> deletions \<Rightarrow> bool" for C room s0 where
  session_start: "cache_session C room s0 (s0, \<lambda>_. 0, [])"
| session_step: "cache_session C room s0 x \<Longrightarrow> cache_use C room x x' \<Longrightarrow> cache_session C room s0 x'"

text \<open>The contract: within it every call returns, and a cache that is deleted when nothing is held has given every value to its deleter.\<close>

locale cache_contract =
  fixes C :: "'s Cache" and room :: "nat \<Rightarrow> 's \<Rightarrow> bool" and ok :: "'s \<times> (nat \<Rightarrow> nat) \<times> deletions \<Rightarrow> bool"
    and given :: "'s \<Rightarrow> (nat \<times> bytes \<times> nat) multiset"
  assumes insert_law: "ok (s, H, I) \<Longrightarrow> room e s \<Longrightarrow>
      \<exists>s'. Cache_Insert C e key v ch del s = Some (e, s') \<and> ok (s', H(e := Suc (H e)), I @ [(del, key, v)])"
    and lookup_law: "ok (s, H, I) \<Longrightarrow> \<forall>y. H y < 2 ^ 32 - 2 \<Longrightarrow>
      \<exists>e s'. Cache_Lookup C key s = Some (e, s') \<and> ok (s', if e = 0 then H else H(e := Suc (H e)), I)"
    and release_law: "ok (s, H, I) \<Longrightarrow> H e > 0 \<Longrightarrow> \<exists>s'. Cache_Release C e s = Some s' \<and> ok (s', H(e := H e - 1), I)"
    and value_law: "ok (s, H, I) \<Longrightarrow> H e > 0 \<Longrightarrow> \<exists>v. Cache_Value C e s = Some v"
    and erase_law: "ok (s, H, I) \<Longrightarrow> \<exists>s'. Cache_Erase C key s = Some s' \<and> ok (s', H, I)"
    and prune_law: "ok (s, H, I) \<Longrightarrow> \<exists>s'. Cache_Prune C s = Some s' \<and> ok (s', H, I)"
    and id_law: "ok (s, H, I) \<Longrightarrow> ok (snd (Cache_NewId C s), H, I)"
    and delete_law: "ok (s, H, I) \<Longrightarrow> \<forall>e. H e = 0 \<Longrightarrow> \<exists>s'. Cache_delete C s = Some s' \<and> given s' = mset I"
begin

lemma use_ok:
  assumes "cache_use C room x x'" "ok x"
  shows "ok x'"
  using assms
proof cases
  case (use_insert e s key v ch del e' s' H I)
  then show ?thesis using insert_law [of s H I e key v ch del] assms(2) by auto
next
  case (use_lookup H key s e s' I)
  then show ?thesis using lookup_law [of s H I key] assms(2) by auto
next
  case (use_release H e s s' I)
  then show ?thesis using release_law [of s H I e] assms(2) by auto
next
  case (use_erase key s s' H I)
  then show ?thesis using erase_law [of s H I key] assms(2) by auto
next
  case (use_prune s s' H I)
  then show ?thesis using prune_law [of s H I] assms(2) by auto
next
  case (use_id s H I)
  then show ?thesis using id_law assms(2) by simp
qed

lemma session_ok: "cache_session C room s x \<Longrightarrow> ok (s, \<lambda>_. 0, []) \<Longrightarrow> ok x"
  by (induction rule: cache_session.induct) (auto dest: use_ok)

lemma session_ends:
  assumes "cache_session C room s0 (s, H, I)" "ok (s0, \<lambda>_. 0, [])" "\<forall>e. H e = 0"
  shows "\<exists>s'. Cache_delete C s = Some s' \<and> given s' = mset I"
  using delete_law session_ok assms by blast

lemma session_never_stuck:
  assumes "cache_session C room s0 (s, H, I)" "ok (s0, \<lambda>_. 0, [])"
  shows "room e s \<Longrightarrow> \<exists>s'. Cache_Insert C e key v ch del s = Some (e, s')"
    "\<forall>y. H y < 2 ^ 32 - 2 \<Longrightarrow> \<exists>x s'. Cache_Lookup C key s = Some (x, s')"
    "H e > 0 \<Longrightarrow> (\<exists>s'. Cache_Release C e s = Some s') \<and> (\<exists>v. Cache_Value C e s = Some v)"
    "(\<exists>s'. Cache_Erase C key s = Some s') \<and> (\<exists>s'. Cache_Prune C s = Some s')"
proof -
  have ok: "ok (s, H, I)" using session_ok [OF assms] .
  show "room e s \<Longrightarrow> \<exists>s'. Cache_Insert C e key v ch del s = Some (e, s')" using insert_law [OF ok] by blast
  show "\<forall>y. H y < 2 ^ 32 - 2 \<Longrightarrow> \<exists>x s'. Cache_Lookup C key s = Some (x, s')" using lookup_law [OF ok] by blast
  show "H e > 0 \<Longrightarrow> (\<exists>s'. Cache_Release C e s = Some s') \<and> (\<exists>v. Cache_Value C e s = Some v)"
    using release_law [OF ok] value_law [OF ok] by blast
  show "(\<exists>s'. Cache_Erase C key s = Some s') \<and> (\<exists>s'. Cache_Prune C s = Some s')"
    using erase_law [OF ok] prune_law [OF ok] by blast
qed

end

section \<open>The sharded cache keeps the contract\<close>

definition shard_room :: "nat \<Rightarrow> sharded_cache \<Rightarrow> bool" where
  "shard_room e c \<longleftrightarrow> e \<noteq> 0 \<and> (\<forall>s\<in>set (shards c). e \<notin> live s \<and> card (live s) < 2 ^ 31)"

definition all_deleted :: "sharded_cache \<Rightarrow> (nat \<times> bytes \<times> nat) multiset" where
  "all_deleted c = (\<Sum>i<kNumShards. mset (deleted (shards c ! i)))"

interpretation lru: cache_contract ShardedLRUCache shard_room sharded_ok all_deleted
proof unfold_locales
  fix s H I assume ok: "sharded_ok (s, H, I)"
  show "\<exists>s'. Cache_Insert ShardedLRUCache e key v ch del s = Some (e, s') \<and> sharded_ok (s', H(e := Suc (H e)), I @ [(del, key, v)])"
    if "shard_room e s" for e key v ch del
    using that sharded_insert_ok [OF ok] by (simp add: ShardedLRUCache_def shard_room_def)
  show "\<exists>e s'. Cache_Lookup ShardedLRUCache key s = Some (e, s') \<and> sharded_ok (s', if e = 0 then H else H(e := Suc (H e)), I)"
    if "\<forall>y. H y < 2 ^ 32 - 2" for key
    using sharded_lookup_ok [OF ok that] by (simp add: ShardedLRUCache_def)
  show "\<exists>s'. Cache_Release ShardedLRUCache e s = Some s' \<and> sharded_ok (s', H(e := H e - 1), I)" "\<exists>v. Cache_Value ShardedLRUCache e s = Some v"
    if "H e > 0" for e
    using sharded_release_ok [OF ok that] sharded_value_ok [OF ok that] by (simp_all add: ShardedLRUCache_def)
  show "\<exists>s'. Cache_Erase ShardedLRUCache key s = Some s' \<and> sharded_ok (s', H, I)" for key
    using sharded_erase_ok [OF ok] by (simp add: ShardedLRUCache_def)
  show "\<exists>s'. Cache_Prune ShardedLRUCache s = Some s' \<and> sharded_ok (s', H, I)"
    using sharded_prune_ok [OF ok] by (simp add: ShardedLRUCache_def)
  show "sharded_ok (snd (Cache_NewId ShardedLRUCache s), H, I)"
    using ok by (simp add: ShardedLRUCache_def NewId_def Let_def sharded_ok_def)
  show "\<exists>s'. Cache_delete ShardedLRUCache s = Some s' \<and> all_deleted s' = mset I" if "\<forall>e. H e = 0"
    using sharded_destroy_ok [OF ok that] by (auto simp: ShardedLRUCache_def all_deleted_def)
qed

section \<open>Properties\<close>

text \<open>C21. Whatever a client that keeps to the contract does with the cache \<^verbatim>\<open>NewLRUCache\<close> returned, through the interface: its next
  call returns, and if it holds nothing, deleting the cache returns and every value it ever inserted has been given to its deleter, with
  its key, exactly once.\<close>

theorem new_cache_keeps_contract:
  assumes "heads_ok heads" "NewLRUCache heads cap = Some (C, c0)" "cache_session C shard_room c0 (c, H, I)"
  shows "(shard_room e c \<longrightarrow> (\<exists>c'. Cache_Insert C e key v ch del c = Some (e, c'))) \<and>
    ((\<forall>y. H y < 2 ^ 32 - 2) \<longrightarrow> (\<exists>x c'. Cache_Lookup C key c = Some (x, c'))) \<and>
    (H e > 0 \<longrightarrow> (\<exists>c'. Cache_Release C e c = Some c') \<and> (\<exists>v. Cache_Value C e c = Some v)) \<and>
    (\<exists>c'. Cache_Erase C key c = Some c') \<and> (\<exists>c'. Cache_Prune C c = Some c') \<and>
    ((\<forall>e. H e = 0) \<longrightarrow> (\<exists>c'. Cache_delete C c = Some c' \<and> all_deleted c' = mset I))"
proof -
  have C: "C = ShardedLRUCache" and "ShardedLRUCache_new heads cap = Some c0" using assms(2) by (auto simp: NewLRUCache_def)
  then have ok: "sharded_ok (c0, \<lambda>_. 0, [])" using sharded_start_ok [OF assms(1)] by blast
  note s = assms(3) [unfolded C]
  show ?thesis
    unfolding C using lru.session_never_stuck [OF s ok] lru.session_ends [OF s ok] by blast
qed

theorem new_cache_keeps_contract_witness:
  "\<exists>heads c0 c c' c''. heads_ok heads \<and> NewLRUCache heads 16 = Some (ShardedLRUCache, c0) \<and>
    Cache_Insert ShardedLRUCache 100 [97] 5 1 7 c0 = Some (100, c) \<and> Cache_Release ShardedLRUCache 100 c = Some c' \<and>
    Cache_delete ShardedLRUCache c' = Some c'' \<and> all_deleted c'' = {#(7, [97], 5)#}"
proof -
  obtain heads c0 where h: "heads_ok heads" "ShardedLRUCache_new heads 16 = Some c0" "\<forall>s\<in>set (shards c0). 100 \<notin> live s \<and> card (live s) < 2 ^ 31"
    by (rule sample_new)
  have new: "NewLRUCache heads 16 = Some (ShardedLRUCache, c0)" using h(2) by (simp add: NewLRUCache_def)
  have room: "shard_room 100 c0" using h(3) by (simp add: shard_room_def)
  note go = new_cache_keeps_contract [OF h(1) new]
  have s0: "cache_session ShardedLRUCache shard_room c0 (c0, \<lambda>_. 0, [])" by (rule session_start)
  then obtain c where c: "Cache_Insert ShardedLRUCache 100 [97] 5 1 7 c0 = Some (100, c)" using go room by blast
  define H :: "nat \<Rightarrow> nat" where "H = (\<lambda>_. 0)(100 := Suc 0)"
  have s1: "cache_session ShardedLRUCache shard_room c0 (c, H, [(7, [97], 5)])"
    using session_step [OF s0 use_insert [where room = shard_room and H = "\<lambda>_. 0" and I = "[]", OF room c]] by (simp add: H_def)
  have H: "H 100 > 0" by (simp add: H_def)
  then obtain c' where c': "Cache_Release ShardedLRUCache 100 c = Some c'" using go [OF s1] by blast
  have s2: "cache_session ShardedLRUCache shard_room c0 (c', H(100 := H 100 - 1), [(7, [97], 5)])"
    by (rule session_step [OF s1 use_release [where H = H and e = 100, OF H c']])
  have "\<forall>e. (H(100 := H 100 - 1)) e = 0" by (simp add: H_def)
  then obtain c'' where "Cache_delete ShardedLRUCache c' = Some c''" "all_deleted c'' = mset [(7, [97], 5)]" using go [OF s2] by blast
  then show ?thesis using h(1) new c c' by auto
qed

end
