(* ===== verification/Posix.thy ===== *)
theory Posix
  imports Env Slice "HOL-Library.Monad_Syntax"
begin

text \<open>
  \<^verbatim>\<open>util/env_posix.cc\<close>, part 1: the system calls, the files for reading, and the limiter.  The operating system is the record of
  its calls, an argument of every definition; \<open>'w\<close> is the state of the machine.  A call returns \<open>Inl\<close> the \<^verbatim>\<open>errno\<close> or \<open>Inr\<close> its result;
  the calls that fill a buffer return what they put there.  A call in a loop may be interrupted forever: the loops are partial
  functions.
\<close>

datatype open_mode = Read_only | Truncate | Append_to | Read_write

record 'w posix =
  sys_open :: "bytes \<Rightarrow> open_mode \<Rightarrow> 'w \<Rightarrow> (int + nat) \<times> 'w"
  sys_close :: "nat \<Rightarrow> 'w \<Rightarrow> (int + unit) \<times> 'w"
  sys_read :: "nat \<Rightarrow> nat \<Rightarrow> 'w \<Rightarrow> (int + bytes) \<times> 'w"
  sys_pread :: "nat \<Rightarrow> nat \<Rightarrow> u64 \<Rightarrow> 'w \<Rightarrow> (int + bytes) \<times> 'w"
  sys_lseek_cur :: "nat \<Rightarrow> u64 \<Rightarrow> 'w \<Rightarrow> (int + u64) \<times> 'w"
  sys_write :: "nat \<Rightarrow> bytes \<Rightarrow> 'w \<Rightarrow> (int + nat) \<times> 'w"
  sys_fsync :: "nat \<Rightarrow> 'w \<Rightarrow> (int + unit) \<times> 'w"
  sys_stat_size :: "bytes \<Rightarrow> 'w \<Rightarrow> (int + u64) \<times> 'w"
  sys_mmap :: "nat \<Rightarrow> u64 \<Rightarrow> 'w \<Rightarrow> (int + bytes) \<times> 'w"
  sys_munmap :: "bytes \<Rightarrow> 'w \<Rightarrow> 'w"
  sys_access :: "bytes \<Rightarrow> 'w \<Rightarrow> (int + unit) \<times> 'w"
  sys_opendir :: "bytes \<Rightarrow> 'w \<Rightarrow> (int + nat) \<times> 'w"
  sys_readdir :: "nat \<Rightarrow> 'w \<Rightarrow> bytes option \<times> 'w"
  sys_closedir :: "nat \<Rightarrow> 'w \<Rightarrow> 'w"
  sys_unlink :: "bytes \<Rightarrow> 'w \<Rightarrow> (int + unit) \<times> 'w"
  sys_mkdir :: "bytes \<Rightarrow> 'w \<Rightarrow> (int + unit) \<times> 'w"
  sys_rmdir :: "bytes \<Rightarrow> 'w \<Rightarrow> (int + unit) \<times> 'w"
  sys_rename :: "bytes \<Rightarrow> bytes \<Rightarrow> 'w \<Rightarrow> (int + unit) \<times> 'w"
  sys_setlk :: "nat \<Rightarrow> bool \<Rightarrow> 'w \<Rightarrow> (int + unit) \<times> 'w"
  sys_fdopen :: "nat \<Rightarrow> 'w \<Rightarrow> (int + nat) \<times> 'w"
  sys_fwrite :: "nat \<Rightarrow> bytes \<Rightarrow> 'w \<Rightarrow> 'w"
  sys_fflush :: "nat \<Rightarrow> 'w \<Rightarrow> 'w"
  sys_fclose :: "nat \<Rightarrow> 'w \<Rightarrow> 'w"
  strerror :: "int \<Rightarrow> bytes"

definition ENOENT :: int where "ENOENT = 2"
definition EINTR :: int where "EINTR = 4"
definition EINVAL :: int where "EINVAL = 22"

definition PosixError :: "'w posix \<Rightarrow> bytes \<Rightarrow> int \<Rightarrow> Status" where
  "PosixError os context error_number =
     (if error_number = ENOENT then NotFound context (strerror os error_number)
      else IOError context (strerror os error_number))"

lemma PosixError_not_ok [simp]: "\<not> status_ok (PosixError os c n)" "PosixError os c n \<noteq> OK"
  by (simp_all add: PosixError_def NotFound_def IOError_def Status_new_def status_ok_def OK_def Let_def)

section \<open>The limiter\<close>

text \<open>The two atomic operations on the counter, and the calls built from them.\<close>

record limiter =
  max_acquires :: int
  acquires_allowed :: int

definition Limiter_new :: "int \<Rightarrow> limiter option" where
  "Limiter_new n = (if n \<ge> 0 then Some \<lparr>max_acquires = n, acquires_allowed = n\<rparr> else None)"

definition Limiter_take :: "limiter \<Rightarrow> bool \<times> limiter" where
  "Limiter_take l = (acquires_allowed l > 0, l\<lparr>acquires_allowed := acquires_allowed l - 1\<rparr>)"

definition Limiter_Release :: "limiter \<Rightarrow> limiter option" where
  "Limiter_Release l =
     (if acquires_allowed l < max_acquires l then Some (l\<lparr>acquires_allowed := acquires_allowed l + 1\<rparr>) else None)"

definition Limiter_Acquire :: "limiter \<Rightarrow> (bool \<times> limiter) option" where
  "Limiter_Acquire l = (case Limiter_take l of
       (True, l) \<Rightarrow> Some (True, l)
     | (False, l) \<Rightarrow> do { l \<leftarrow> Limiter_Release l; Some (False, l) })"

text \<open>
  Threads calling \<^verbatim>\<open>Acquire\<close> and \<^verbatim>\<open>Release\<close> interleave at the atomic operations.  \<open>held\<close> is the number of resources acquired and not
  released, \<open>failing\<close> the number of threads between the two operations of an \<^verbatim>\<open>Acquire\<close> that fails.
\<close>

inductive limiter_step :: "limiter \<times> nat \<times> nat \<Rightarrow> limiter \<times> nat \<times> nat \<Rightarrow> bool" where
  take_ok: "Limiter_take l = (True, l') \<Longrightarrow> limiter_step (l, held, failing) (l', Suc held, failing)"
| take_fails: "Limiter_take l = (False, l') \<Longrightarrow> limiter_step (l, held, failing) (l', held, Suc failing)"
| give_back: "Limiter_Release l = Some l' \<Longrightarrow> limiter_step (l, held, Suc failing) (l', held, failing)"
| release: "Limiter_Release l = Some l' \<Longrightarrow> limiter_step (l, Suc held, failing) (l', held, failing)"

inductive limiter_reach :: "limiter \<times> nat \<times> nat \<Rightarrow> bool" where
  start: "Limiter_new n = Some l \<Longrightarrow> limiter_reach (l, 0, 0)"
| step: "limiter_reach x \<Longrightarrow> limiter_step x y \<Longrightarrow> limiter_reach y"

lemma limiter_invariant:
  "limiter_reach (l, held, failing) \<Longrightarrow>
    acquires_allowed l = max_acquires l - int held - int failing \<and> int held \<le> max_acquires l"
proof (induction "(l, held, failing)" arbitrary: l held failing rule: limiter_reach.induct)
  case (start n l)
  then show ?case by (auto simp: Limiter_new_def split: if_splits)
next
  case (step x)
  from step(3) step(2) show ?case
    by cases (fastforce simp: Limiter_take_def Limiter_Release_def split: if_splits)+
qed

text \<open>C32. However the threads interleave, at most \<^verbatim>\<open>max_acquires\<close> resources are held, the counter stays between minus the number of
  threads in the middle of a failing \<^verbatim>\<open>Acquire\<close> and the maximum, and the assertions against surplus releases hold wherever they are
  checked.\<close>

theorem limiter_safe:
  assumes "limiter_reach (l, held, failing)"
  shows "int held \<le> max_acquires l \<and> - int failing \<le> acquires_allowed l \<and> acquires_allowed l \<le> max_acquires l \<and>
    (held > 0 \<or> failing > 0 \<longrightarrow> (\<exists>l'. Limiter_Release l = Some l')) \<and>
    (failing = 0 \<longrightarrow> (fst (Limiter_take l) \<longleftrightarrow> int held < max_acquires l))"
  using limiter_invariant [OF assms] by (auto simp: Limiter_Release_def Limiter_take_def)

theorem limiter_safe_witness:
  "limiter_reach (\<lparr>max_acquires = 1, acquires_allowed = - 1\<rparr>, 1, 1) \<and> Limiter_Release \<lparr>max_acquires = 1, acquires_allowed = - 1\<rparr> \<noteq> None"
proof -
  have 0: "limiter_reach (\<lparr>max_acquires = 1, acquires_allowed = 1\<rparr>, 0, 0)"
    by (rule limiter_reach.start [of 1]) (simp add: Limiter_new_def)
  have 1: "limiter_reach (\<lparr>max_acquires = 1, acquires_allowed = 0\<rparr>, 1, 0)"
    using limiter_reach.step [OF 0 take_ok] by (simp add: Limiter_take_def)
  have 2: "limiter_reach (\<lparr>max_acquires = 1, acquires_allowed = - 1\<rparr>, 1, 1)"
    using limiter_reach.step [OF 1 take_fails] by (simp add: Limiter_take_def)
  then show ?thesis using limiter_safe [OF 2] by auto
qed

section \<open>Sequential files\<close>

text \<open>\<^verbatim>\<open>*result\<close> keeps its old contents \<open>old\<close> if there is an error.\<close>

partial_function (option) seq_read_loop ::
    "'w posix \<Rightarrow> nat \<Rightarrow> bytes \<Rightarrow> nat \<Rightarrow> bytes \<Rightarrow> 'w \<Rightarrow> (Status \<times> bytes \<times> 'w) option" where
  "seq_read_loop os fd filename n old w =
     (case sys_read os fd n w of
        (Inl e, w) \<Rightarrow> if e = EINTR then seq_read_loop os fd filename n old w else Some (PosixError os filename e, old, w)
      | (Inr data, w) \<Rightarrow> Some (OK, data, w))"

definition PosixSequentialFile_Skip :: "'w posix \<Rightarrow> nat \<Rightarrow> bytes \<Rightarrow> u64 \<Rightarrow> 'w \<Rightarrow> Status \<times> 'w" where
  "PosixSequentialFile_Skip os fd filename n w =
     (case sys_lseek_cur os fd n w of
        (Inl e, w) \<Rightarrow> (PosixError os filename e, w)
      | (Inr _, w) \<Rightarrow> (OK, w))"

text \<open>The object as seen through its interface.  A call that is interrupted forever has no result.\<close>

definition PosixSequentialFile :: "'w posix \<Rightarrow> nat \<Rightarrow> bytes \<Rightarrow> 'w SequentialFile" where
  "PosixSequentialFile os fd filename =
     \<lparr>SequentialFile_Read = \<lambda>n old w. the (seq_read_loop os fd filename n old w),
      SequentialFile_Skip = PosixSequentialFile_Skip os fd filename,
      SequentialFile_delete = \<lambda>w. snd (sys_close os fd w)\<rparr>"

text \<open>
  What POSIX promises of \<^verbatim>\<open>read\<close> on a regular file: \<open>rest\<close> are the bytes after the file position, \<open>open\<close> says that the descriptor is
  open, and a call is interrupted only finitely often (\<open>signals\<close>).
\<close>

definition regular_read :: "'w posix \<Rightarrow> nat \<Rightarrow> ('w \<Rightarrow> bytes) \<Rightarrow> ('w \<Rightarrow> bool) \<Rightarrow> ('w \<Rightarrow> nat) \<Rightarrow> bool" where
  "regular_read os fd rest opened signals \<longleftrightarrow> (\<forall>n w. opened w \<longrightarrow>
     (\<exists>w'. sys_read os fd n w = (Inr (take n (rest w)), w') \<and> rest w' = drop n (rest w) \<and> opened w') \<or>
     (\<exists>w'. sys_read os fd n w = (Inl EINTR, w') \<and> rest w' = rest w \<and> opened w' \<and> signals w' < signals w))"

lemma seq_read_loop_ok:
  assumes "regular_read os fd rest opened signals" "opened w"
  shows "\<exists>w'. seq_read_loop os fd filename n old w = Some (OK, take n (rest w), w') \<and> rest w' = drop n (rest w) \<and> opened w'"
  using assms(2)
proof (induction w rule: measure_induct_rule [of signals])
  case (less w)
  from assms(1) less.prems consider
    w' where "sys_read os fd n w = (Inr (take n (rest w)), w')" "rest w' = drop n (rest w)" "opened w'"
  | w' where "sys_read os fd n w = (Inl EINTR, w')" "rest w' = rest w" "opened w'" "signals w' < signals w"
    unfolding regular_read_def by blast
  then show ?case
  proof cases
    case 1
    then show ?thesis by (subst seq_read_loop.simps) simp
  next
    case 2
    then show ?thesis using less.IH [OF 2(4,3)] by (subst seq_read_loop.simps) simp
  qed
qed

lemma posix_sequential:
  assumes "regular_read os fd rest opened signals"
  shows "sequential_file (PosixSequentialFile os fd filename) rest opened"
proof
  fix s n old assume "opened s"
  from seq_read_loop_ok [OF assms this, of filename n old]
  show "\<exists>s'. SequentialFile_Read (PosixSequentialFile os fd filename) n old s = (OK, take n (rest s), s') \<and>
      rest s' = drop n (rest s) \<and> (n \<le> length (rest s) \<longrightarrow> opened s')"
    by (auto simp: PosixSequentialFile_def)
qed

section \<open>Random access files\<close>

text \<open>A descriptor \<open>None\<close> is the \<^verbatim>\<open>-1\<close> of a file that is opened on every read.\<close>

record PosixRandomAccessFile =
  has_permanent_fd :: bool
  ra_fd :: "nat option"
  ra_filename :: bytes

definition PosixRandomAccessFile_new ::
    "'w posix \<Rightarrow> bytes \<Rightarrow> nat \<Rightarrow> limiter \<Rightarrow> 'w \<Rightarrow> (PosixRandomAccessFile \<times> limiter \<times> 'w) option" where
  "PosixRandomAccessFile_new os filename fd fd_limiter w = do {
     (permanent, fd_limiter) \<leftarrow> Limiter_Acquire fd_limiter;
     let file = \<lparr>has_permanent_fd = permanent, ra_fd = (if permanent then Some fd else None), ra_filename = filename\<rparr>;
     if \<not> permanent then
       if ra_fd file = None then Some (file, fd_limiter, snd (sys_close os fd w)) else None
     else Some (file, fd_limiter, w) }"

definition PosixRandomAccessFile_destroy ::
    "'w posix \<Rightarrow> PosixRandomAccessFile \<Rightarrow> limiter \<Rightarrow> 'w \<Rightarrow> (limiter \<times> 'w) option" where
  "PosixRandomAccessFile_destroy os file fd_limiter w =
     (if has_permanent_fd file then do {
        fd \<leftarrow> ra_fd file;
        fd_limiter \<leftarrow> Limiter_Release fd_limiter;
        Some (fd_limiter, snd (sys_close os fd w)) }
      else Some (fd_limiter, w))"

definition PosixRandomAccessFile_Read ::
    "'w posix \<Rightarrow> PosixRandomAccessFile \<Rightarrow> u64 \<Rightarrow> nat \<Rightarrow> bytes \<Rightarrow> 'w \<Rightarrow> (Status \<times> bytes \<times> 'w) option" where
  "PosixRandomAccessFile_Read os file offset n old w =
     (case (if has_permanent_fd file then (Inr (ra_fd file), w)
            else (case sys_open os (ra_filename file) Read_only w of
                    (Inl e, w) \<Rightarrow> (Inl e, w)
                  | (Inr fd, w) \<Rightarrow> (Inr (Some fd), w))) of
        (Inl e, w) \<Rightarrow> Some (PosixError os (ra_filename file) e, old, w)
      | (Inr None, w) \<Rightarrow> None
      | (Inr (Some fd), w) \<Rightarrow>
          let (result, w) = sys_pread os fd n offset w;
              (status, data) = (case result of Inl e \<Rightarrow> (PosixError os (ra_filename file) e, []) | Inr data \<Rightarrow> (OK, data));
              w = (if has_permanent_fd file then w else snd (sys_close os fd w))
          in if \<not> has_permanent_fd file \<and> Some fd = ra_fd file then None else Some (status, data, w))"

section \<open>Memory-mapped files\<close>

text \<open>The mapped region with its length.  A slice that leaves the region is \<open>None\<close>.\<close>

record PosixMmapReadableFile =
  mmap_region :: bytes
  mmap_length :: u64
  mmap_filename :: bytes

definition PosixMmapReadableFile_Read :: "'w posix \<Rightarrow> PosixMmapReadableFile \<Rightarrow> u64 \<Rightarrow> u64 \<Rightarrow> (Status \<times> bytes) option" where
  "PosixMmapReadableFile_Read os file offset n =
     (if offset + n > mmap_length file then Some (PosixError os (mmap_filename file) EINVAL, [])
      else if unat offset + unat n \<le> length (mmap_region file)
      then Some (OK, take (unat n) (drop (unat offset) (mmap_region file)))
      else None)"

definition PosixMmapReadableFile_destroy ::
    "'w posix \<Rightarrow> PosixMmapReadableFile \<Rightarrow> limiter \<Rightarrow> 'w \<Rightarrow> (limiter \<times> 'w) option" where
  "PosixMmapReadableFile_destroy os file mmap_limiter w = do {
     mmap_limiter \<leftarrow> Limiter_Release mmap_limiter;
     Some (mmap_limiter, sys_munmap os (mmap_region file) w) }"

text \<open>C33. A read from a mapped file delivers exactly the bytes asked for if they lie in the file and reports an error if they do not,
  unless \<^verbatim>\<open>offset + n\<close> wraps around to a value within the length: then the range check passes and the slice returned lies outside the
  mapping.\<close>

theorem mmap_read_bounds:
  assumes "length (mmap_region file) = unat (mmap_length file)"
  shows "PosixMmapReadableFile_Read os file offset n =
    (if unat offset + unat n \<le> length (mmap_region file)
     then Some (OK, take (unat n) (drop (unat offset) (mmap_region file)))
     else if unat offset + unat n \<ge> 2 ^ 64 \<and> unat offset + unat n - 2 ^ 64 \<le> length (mmap_region file) then None
     else Some (PosixError os (mmap_filename file) EINVAL, []))"
proof -
  have lt: "unat offset < 2 ^ 64" "unat n < 2 ^ 64" "unat (mmap_length file) < 2 ^ 64"
    using unsigned_less [of offset] unsigned_less [of n] unsigned_less [of "mmap_length file"] by simp_all
  have sum: "unat (offset + n) = (if unat offset + unat n < 2 ^ 64 then unat offset + unat n else unat offset + unat n - 2 ^ 64)"
    using lt by (auto simp: unat_word_ariths le_mod_geq)
  show ?thesis
    using lt sum assms by (auto simp: PosixMmapReadableFile_Read_def word_less_nat_alt not_less)
qed

theorem mmap_read_bounds_witness:
  "\<forall>os :: unit posix. PosixMmapReadableFile_Read os \<lparr>mmap_region = [1, 2], mmap_length = 2, mmap_filename = []\<rparr> (- 1) 2 = None"
proof
  fix os :: "unit posix"
  show "PosixMmapReadableFile_Read os \<lparr>mmap_region = [1, 2], mmap_length = 2, mmap_filename = []\<rparr> (- 1) 2 = None"
    using mmap_read_bounds [of "\<lparr>mmap_region = [1, 2], mmap_length = 2, mmap_filename = []\<rparr>" os "- 1" 2]
    by (simp add: unsigned_minus_1_eq_mask mask_eq_exp_minus_1)
qed

end
