(* ===== verification/Posix_writable.thy ===== *)
theory Posix_writable
  imports Posix Log
begin

text \<open>
  \<^verbatim>\<open>util/env_posix.cc\<close>, part 2: \<^verbatim>\<open>class PosixWritableFile\<close>, and the log over POSIX files.  \<open>pw_buf\<close> is the used part
  \<^verbatim>\<open>buf_[0, pos_)\<close> of the buffer.
\<close>

definition kWritableFileBufferSize :: nat where "kWritableFileBufferSize = 65536"

record PosixWritableFile =
  pw_buf :: bytes
  pw_fd :: "nat option"
  is_manifest :: bool
  pw_filename :: bytes
  pw_dirname :: bytes

section \<open>File names\<close>

text \<open>\<^verbatim>\<open>std::string::rfind\<close> and \<^verbatim>\<open>find\<close> for a character.\<close>

definition rfind :: "u8 \<Rightarrow> bytes \<Rightarrow> nat option" where
  "rfind c s = (if c \<in> set s then Some (length s - 1 - length (takeWhile (\<lambda>x. x \<noteq> c) (rev s))) else None)"

definition slash :: u8 where "slash = of_nat (of_char CHR ''/'')"

definition Dirname :: "bytes \<Rightarrow> bytes option" where
  "Dirname filename =
     (case rfind slash filename of
        None \<Rightarrow> Some (ascii ''.'')
      | Some separator_pos \<Rightarrow>
          if slash \<notin> set (drop (separator_pos + 1) filename) then Some (take separator_pos filename) else None)"

definition Basename :: "bytes \<Rightarrow> bytes option" where
  "Basename filename =
     (case rfind slash filename of
        None \<Rightarrow> Some filename
      | Some separator_pos \<Rightarrow>
          if slash \<notin> set (drop (separator_pos + 1) filename) then Some (drop (separator_pos + 1) filename) else None)"

definition IsManifest :: "bytes \<Rightarrow> bool option" where
  "IsManifest filename = map_option (\<lambda>b. Slice_starts_with b (ascii ''MANIFEST'')) (Basename filename)"

definition PosixWritableFile_new :: "bytes \<Rightarrow> nat \<Rightarrow> PosixWritableFile option" where
  "PosixWritableFile_new filename fd = do {
     m \<leftarrow> IsManifest filename;
     d \<leftarrow> Dirname filename;
     Some \<lparr>pw_buf = [], pw_fd = Some fd, is_manifest = m, pw_filename = filename, pw_dirname = d\<rparr> }"

section \<open>Writing\<close>

text \<open>A write to a closed descriptor is \<open>None\<close>, as is a write that is interrupted, or makes no progress, forever.\<close>

partial_function (option) WriteUnbuffered :: "'w posix \<Rightarrow> nat option \<Rightarrow> bytes \<Rightarrow> bytes \<Rightarrow> 'w \<Rightarrow> (Status \<times> 'w) option" where
  "WriteUnbuffered os fd filename data w =
     (if data = [] then Some (OK, w)
      else case fd of
        None \<Rightarrow> None
      | Some d \<Rightarrow>
          (case sys_write os d data w of
             (Inl e, w) \<Rightarrow> if e = EINTR then WriteUnbuffered os fd filename data w else Some (PosixError os filename e, w)
           | (Inr n, w) \<Rightarrow> WriteUnbuffered os fd filename (drop n data) w))"

definition FlushBuffer :: "'w posix \<Rightarrow> PosixWritableFile \<times> 'w \<Rightarrow> (Status \<times> PosixWritableFile \<times> 'w) option" where
  "FlushBuffer os = (\<lambda>(f, w). do {
     (status, w) \<leftarrow> WriteUnbuffered os (pw_fd f) (pw_filename f) (pw_buf f) w;
     Some (status, f\<lparr>pw_buf := []\<rparr>, w) })"

definition PosixWritableFile_Append ::
    "'w posix \<Rightarrow> bytes \<Rightarrow> PosixWritableFile \<times> 'w \<Rightarrow> (Status \<times> PosixWritableFile \<times> 'w) option" where
  "PosixWritableFile_Append os data = (\<lambda>(f, w).
     let copy_size = min (length data) (kWritableFileBufferSize - length (pw_buf f));
         f = f\<lparr>pw_buf := pw_buf f @ take copy_size data\<rparr>;
         data = drop copy_size data
     in if data = [] then Some (OK, f, w)
        else do {
          (status, f, w) \<leftarrow> FlushBuffer os (f, w);
          if \<not> status_ok status then Some (status, f, w)
          else if length data < kWritableFileBufferSize then Some (OK, f\<lparr>pw_buf := data\<rparr>, w)
          else do {
            (status, w) \<leftarrow> WriteUnbuffered os (pw_fd f) (pw_filename f) data w;
            Some (status, f, w) } })"

definition PosixWritableFile_Close :: "'w posix \<Rightarrow> PosixWritableFile \<times> 'w \<Rightarrow> (Status \<times> PosixWritableFile \<times> 'w) option" where
  "PosixWritableFile_Close os s = do {
     (status, f, w) \<leftarrow> FlushBuffer os s;
     fd \<leftarrow> pw_fd f;
     let (result, w) = sys_close os fd w;
     let status = (case result of Inl e \<Rightarrow> if status_ok status then PosixError os (pw_filename f) e else status | Inr _ \<Rightarrow> status);
     Some (status, f\<lparr>pw_fd := None\<rparr>, w) }"

definition PosixWritableFile_Flush :: "'w posix \<Rightarrow> PosixWritableFile \<times> 'w \<Rightarrow> (Status \<times> PosixWritableFile \<times> 'w) option" where
  "PosixWritableFile_Flush os s = FlushBuffer os s"

definition SyncFd :: "'w posix \<Rightarrow> nat \<Rightarrow> bytes \<Rightarrow> 'w \<Rightarrow> Status \<times> 'w" where
  "SyncFd os fd fd_path w =
     (case sys_fsync os fd w of
        (Inr _, w) \<Rightarrow> (OK, w)
      | (Inl e, w) \<Rightarrow> (PosixError os fd_path e, w))"

definition SyncDirIfManifest :: "'w posix \<Rightarrow> PosixWritableFile \<times> 'w \<Rightarrow> Status \<times> 'w" where
  "SyncDirIfManifest os = (\<lambda>(f, w).
     if \<not> is_manifest f then (OK, w)
     else case sys_open os (pw_dirname f) Read_only w of
       (Inl e, w) \<Rightarrow> (PosixError os (pw_dirname f) e, w)
     | (Inr fd, w) \<Rightarrow> let (status, w) = SyncFd os fd (pw_dirname f) w in (status, snd (sys_close os fd w)))"

definition PosixWritableFile_Sync :: "'w posix \<Rightarrow> PosixWritableFile \<times> 'w \<Rightarrow> (Status \<times> PosixWritableFile \<times> 'w) option" where
  "PosixWritableFile_Sync os = (\<lambda>(f, w).
     let (status, w) = SyncDirIfManifest os (f, w) in
     if \<not> status_ok status then Some (status, f, w)
     else do {
       (status, f, w) \<leftarrow> FlushBuffer os (f, w);
       if \<not> status_ok status then Some (status, f, w)
       else do {
         fd \<leftarrow> pw_fd f;
         let (status, w) = SyncFd os fd (pw_filename f) w;
         Some (status, f, w) } })"

definition PosixWritableFile_destroy :: "'w posix \<Rightarrow> PosixWritableFile \<times> 'w \<Rightarrow> (PosixWritableFile \<times> 'w) option" where
  "PosixWritableFile_destroy os s = (case pw_fd (fst s) of None \<Rightarrow> Some s | Some _ \<Rightarrow> map_option snd (PosixWritableFile_Close os s))"

text \<open>The object as seen through its interface.  A call that never returns has no result.\<close>

definition PosixWritableFile :: "'w posix \<Rightarrow> (PosixWritableFile \<times> 'w) WritableFile" where
  "PosixWritableFile os =
     \<lparr>WritableFile_Append = \<lambda>data s. the (PosixWritableFile_Append os data s),
      WritableFile_Close = \<lambda>s. the (PosixWritableFile_Close os s),
      WritableFile_Flush = \<lambda>s. the (PosixWritableFile_Flush os s),
      WritableFile_Sync = \<lambda>s. the (PosixWritableFile_Sync os s),
      WritableFile_delete = \<lambda>s. the (PosixWritableFile_destroy os s)\<rparr>"

section \<open>Names\<close>

lemma rfind_Some:
  assumes "rfind c s = Some n"
  shows "n < length s" "s ! n = c" "c \<notin> set (drop (n + 1) s)"
proof -
  have c: "c \<in> set s" and n: "n = length s - 1 - length (takeWhile (\<lambda>x. x \<noteq> c) (rev s))"
    using assms by (auto simp: rfind_def split: if_splits)
  define p where "p = takeWhile (\<lambda>x. x \<noteq> c) (rev s)"
  define q where "q = dropWhile (\<lambda>x. x \<noteq> c) (rev s)"
  have pq: "rev s = p @ q" by (simp add: p_def q_def)
  have "q \<noteq> []" using c by (simp add: q_def dropWhile_eq_Nil_conv)
  then obtain q' where q: "q = c # q'" using hd_dropWhile [of "\<lambda>x. x \<noteq> c" "rev s"] by (cases q) (auto simp: q_def)
  have s: "s = rev q' @ c # rev p" using pq q by (metis append_Cons append_assoc rev_append rev_rev_ident rev.simps(2) append_Nil)
  have "length s = length q' + 1 + length p" by (subst s) simp
  then have "n = length q'" using n by (simp add: p_def)
  moreover have "c \<notin> set p" by (auto simp: p_def dest: set_takeWhileD)
  ultimately show "n < length s" "s ! n = c" "c \<notin> set (drop (n + 1) s)" using s by (simp_all add: nth_append)
qed

text \<open>The assertions on file names never fail; the directory and the name make up the path.\<close>

lemma file_names:
  "\<exists>d b. Dirname p = Some d \<and> Basename p = Some b \<and> slash \<notin> set b \<and>
    (if slash \<in> set p then p = d @ slash # b else d = ascii ''.'' \<and> b = p)"
proof (cases "rfind slash p")
  case None
  then show ?thesis by (auto simp: Dirname_def Basename_def rfind_def split: if_splits)
next
  case (Some n)
  note r = rfind_Some [OF Some]
  then have "slash \<in> set p" by (metis nth_mem)
  moreover have "p = take n p @ slash # drop (n + 1) p" using r(1,2) by (metis Suc_eq_plus1 id_take_nth_drop)
  ultimately show ?thesis using Some r(3) by (simp add: Dirname_def Basename_def)
qed

section \<open>Refinement of the file contract\<close>

text \<open>
  What POSIX promises of \<^verbatim>\<open>write\<close> on a regular file opened for appending while there is space: some of the bytes are written at the
  end of the file, or the call is interrupted; interruptions are finite in number.
\<close>

definition regular_write :: "'w posix \<Rightarrow> nat \<Rightarrow> ('w \<Rightarrow> bytes) \<Rightarrow> ('w \<Rightarrow> bool) \<Rightarrow> ('w \<Rightarrow> nat) \<Rightarrow> bool" where
  "regular_write os fd content opened signals \<longleftrightarrow> (\<forall>data w. opened w \<and> data \<noteq> [] \<longrightarrow>
     (\<exists>n w'. sys_write os fd data w = (Inr n, w') \<and> 0 < n \<and> n \<le> length data \<and> content w' = content w @ take n data \<and> opened w') \<or>
     (\<exists>w'. sys_write os fd data w = (Inl EINTR, w') \<and> content w' = content w \<and> opened w' \<and> signals w' < signals w))"

lemma WriteUnbuffered_ok:
  assumes "regular_write os fd content opened signals" "opened w"
  shows "\<exists>w'. WriteUnbuffered os (Some fd) filename data w = Some (OK, w') \<and> content w' = content w @ data \<and> opened w'"
  using assms(2)
proof (induction "(length data, signals w)" arbitrary: data w rule: wf_induct_rule [OF wf_lex_prod [OF wf_less_than wf_less_than]])
  case 1
  show ?case
  proof (cases "data = []")
    case True
    then show ?thesis using "1.prems" by (subst WriteUnbuffered.simps) simp
  next
    case False
    with assms(1) "1.prems" consider
      n w' where "sys_write os fd data w = (Inr n, w')" "0 < n" "n \<le> length data" "content w' = content w @ take n data" "opened w'"
    | w' where "sys_write os fd data w = (Inl EINTR, w')" "content w' = content w" "opened w'" "signals w' < signals w"
      unfolding regular_write_def by blast
    then show ?thesis
    proof cases
      case 1
      have "((length (drop n data), signals w'), length data, signals w) \<in> less_than <*lex*> less_than" using 1(2,3) by auto
      from "1.hyps" [OF this 1(5)] 1 False show ?thesis by (subst WriteUnbuffered.simps) auto
    next
      case 2
      have "((length data, signals w'), length data, signals w) \<in> less_than <*lex*> less_than" using 2(4) by simp
      from "1.hyps" [OF this 2(3)] 2 False show ?thesis by (subst WriteUnbuffered.simps) auto
    qed
  qed
qed

definition file_usable :: "nat \<Rightarrow> ('w \<Rightarrow> bool) \<Rightarrow> PosixWritableFile \<times> 'w \<Rightarrow> bool" where
  "file_usable fd opened = (\<lambda>(f, w). pw_fd f = Some fd \<and> opened w \<and> length (pw_buf f) \<le> kWritableFileBufferSize)"

definition file_content :: "('w \<Rightarrow> bytes) \<Rightarrow> PosixWritableFile \<times> 'w \<Rightarrow> bytes" where
  "file_content content = (\<lambda>(f, w). content w @ pw_buf f)"

lemma FlushBuffer_ok:
  assumes "regular_write os fd content opened signals" "file_usable fd opened s"
  shows "\<exists>s'. FlushBuffer os s = Some (OK, s') \<and> file_usable fd opened s' \<and> pw_buf (fst s') = [] \<and>
    content (snd s') = file_content content s"
proof -
  obtain f w where s: "s = (f, w)" by (cases s)
  then obtain w' where "WriteUnbuffered os (pw_fd f) (pw_filename f) (pw_buf f) w = Some (OK, w')"
    "content w' = content w @ pw_buf f" "opened w'"
    using WriteUnbuffered_ok [OF assms(1), of w "pw_filename f" "pw_buf f"] assms(2) by (auto simp: file_usable_def)
  then show ?thesis using assms(2) by (auto simp: s FlushBuffer_def file_usable_def file_content_def)
qed

lemma Append_ok:
  assumes reg: "regular_write os fd content opened signals" and s: "file_usable fd opened s"
  shows "\<exists>s'. PosixWritableFile_Append os data s = Some (OK, s') \<and> file_usable fd opened s' \<and>
    file_content content s' = file_content content s @ data"
proof -
  obtain f w where fw: "s = (f, w)" by (cases s)
  define k where "k = min (length data) (kWritableFileBufferSize - length (pw_buf f))"
  define f1 where "f1 = f\<lparr>pw_buf := pw_buf f @ take k data\<rparr>"
  have u1: "file_usable fd opened (f1, w)" using s by (auto simp: fw f1_def k_def file_usable_def)
  have c1: "file_content content (f1, w) = file_content content s @ take k data" by (simp add: fw f1_def file_content_def)
  show ?thesis
  proof (cases "drop k data = []")
    case True
    then have "take k data = data" by (metis append_Nil2 append_take_drop_id)
    moreover have "PosixWritableFile_Append os data s = Some (OK, f1, w)"
      using True by (simp add: fw PosixWritableFile_Append_def Let_def k_def f1_def)
    ultimately show ?thesis using u1 c1 by auto
  next
    case False
    obtain f2 w2 where s2: "FlushBuffer os (f1, w) = Some (OK, f2, w2)" "file_usable fd opened (f2, w2)" "pw_buf f2 = []"
      "content w2 = file_content content s @ take k data"
      using FlushBuffer_ok [OF reg u1] unfolding c1 by auto
    have "\<not> length data \<le> kWritableFileBufferSize - length (pw_buf f)" using False by (simp add: k_def)
    then have unf: "PosixWritableFile_Append os data s =
        (if length (drop k data) < kWritableFileBufferSize then Some (OK, f2\<lparr>pw_buf := drop k data\<rparr>, w2)
         else do { (status, w) \<leftarrow> WriteUnbuffered os (pw_fd f2) (pw_filename f2) (drop k data) w2; Some (status, f2, w) })"
      using False s2(1) by (simp add: fw PosixWritableFile_Append_def Let_def k_def [symmetric] f1_def [symmetric] status_ok_def OK_def)
    show ?thesis
    proof (cases "length (drop k data) < kWritableFileBufferSize")
      case True
      then show ?thesis using unf s2(2-4) by (auto simp: file_usable_def file_content_def fw)
    next
      case False
      obtain w3 where "WriteUnbuffered os (pw_fd f2) (pw_filename f2) (drop k data) w2 = Some (OK, w3)"
        "content w3 = content w2 @ drop k data" "opened w3"
        using WriteUnbuffered_ok [OF reg, of w2 "pw_filename f2" "drop k data"] s2(2) by (auto simp: file_usable_def)
      then show ?thesis using unf False s2(2-4) by (auto simp: file_usable_def file_content_def fw)
    qed
  qed
qed

lemma posix_append_file:
  assumes "regular_write os fd content opened signals"
  shows "append_file (PosixWritableFile os) (file_content content) (file_usable fd opened)"
proof
  fix s data assume "file_usable fd opened s"
  from Append_ok [OF assms this, of data] show "\<exists>s'. WritableFile_Append (PosixWritableFile os) data s = (OK, s') \<and>
      file_usable fd opened s' \<and> file_content content s' = file_content content s @ data"
    by (auto simp: PosixWritableFile_def)
next
  fix s assume "file_usable fd opened s"
  from FlushBuffer_ok [OF assms this] show "\<exists>s'. WritableFile_Flush (PosixWritableFile os) s = (OK, s') \<and>
      file_usable fd opened s' \<and> file_content content s' = file_content content s"
    by (auto simp: PosixWritableFile_def PosixWritableFile_Flush_def file_content_def)
qed

lemma posix_log_writing:
  assumes "regular_write os fd content opened signals"
  shows "log_writing (Extend_portable a) (PosixWritableFile os) (file_content content) (file_usable fd opened)"
proof (rule log_writing.intro)
  show "checksum (Extend_portable a)" by unfold_locales
  show "append_file (PosixWritableFile os) (file_content content) (file_usable fd opened)" by (rule posix_append_file [OF assms])
qed

section \<open>Properties\<close>

text \<open>Any number of appends.\<close>

fun append_all :: "'w posix \<Rightarrow> bytes list \<Rightarrow> PosixWritableFile \<times> 'w \<Rightarrow> (Status \<times> PosixWritableFile \<times> 'w) option" where
  "append_all os [] s = Some (OK, s)"
| "append_all os (d # ds) s = do {
     (st, s) \<leftarrow> PosixWritableFile_Append os d s;
     if status_ok st then append_all os ds s else Some (st, s) }"

lemma append_all_ok:
  assumes "regular_write os fd content opened signals" "file_usable fd opened s"
  shows "\<exists>s'. append_all os ds s = Some (OK, s') \<and> file_usable fd opened s' \<and> file_content content s' = file_content content s @ concat ds"
  using assms(2)
proof (induction ds arbitrary: s)
  case (Cons d ds)
  from Append_ok [OF assms(1) Cons.prems, of d] obtain s1 where
    "PosixWritableFile_Append os d s = Some (OK, s1)" "file_usable fd opened s1" "file_content content s1 = file_content content s @ d" by blast
  with Cons.IH [of s1] show ?case by (auto simp: status_ok_def OK_def)
qed simp

lemma PosixWritableFile_new_ok: "\<exists>f. PosixWritableFile_new filename fd = Some f \<and> pw_buf f = [] \<and> pw_fd f = Some fd"
  using file_names [of filename] by (auto simp: PosixWritableFile_new_def IsManifest_def)

text \<open>Whatever the sizes of the appended pieces and however the system splits or interrupts the writes, the bytes reach the file
  once and in order: what is in the file and in the buffer together is what was appended, and \<open>Flush\<close> and \<open>Close\<close> leave nothing in the
  buffer.\<close>

theorem writable_file_appends:
  assumes "regular_write os fd content opened signals" "PosixWritableFile_new filename fd = Some f" "opened w"
  shows "\<exists>f1 w1 f2 w2. append_all os ds (f, w) = Some (OK, f1, w1) \<and> content w1 @ pw_buf f1 = content w @ concat ds \<and>
    length (pw_buf f1) \<le> kWritableFileBufferSize \<and>
    PosixWritableFile_Flush os (f1, w1) = Some (OK, f2, w2) \<and> pw_buf f2 = [] \<and> content w2 = content w @ concat ds \<and>
    (\<exists>st f3. PosixWritableFile_Close os (f1, w1) = Some (st, f3, snd (sys_close os fd w2)) \<and> pw_fd f3 = None)"
proof -
  have f: "pw_buf f = []" "pw_fd f = Some fd" using PosixWritableFile_new_ok [of filename fd] assms(2) by auto
  then have u: "file_usable fd opened (f, w)" using assms(3) by (simp add: file_usable_def)
  obtain f1 w1 where 1: "append_all os ds (f, w) = Some (OK, f1, w1)" "file_usable fd opened (f1, w1)"
    "content w1 @ pw_buf f1 = content w @ concat ds"
    using append_all_ok [OF assms(1) u, of ds] f(1) by (auto simp: file_content_def)
  obtain f2 w2 where 2: "FlushBuffer os (f1, w1) = Some (OK, f2, w2)" "file_usable fd opened (f2, w2)" "pw_buf f2 = []"
    "content w2 = content w @ concat ds"
    using FlushBuffer_ok [OF assms(1) 1(2)] 1(3) by (auto simp: file_content_def)
  have fd2: "pw_fd f2 = Some fd" "length (pw_buf f1) \<le> kWritableFileBufferSize" using 2(2) 1(2) by (simp_all add: file_usable_def)
  have "\<exists>st f3. PosixWritableFile_Close os (f1, w1) = Some (st, f3, snd (sys_close os fd w2)) \<and> pw_fd f3 = None"
    using 2(1) fd2(1) by (simp add: PosixWritableFile_Close_def Let_def split: prod.splits)
  then show ?thesis using 1 2 fd2(2) by (auto simp: PosixWritableFile_Flush_def)
qed

text \<open>A system with one file that writes one byte at a time and is interrupted before each of its first calls.\<close>

definition slow_posix :: "(bytes \<times> nat) posix" where
  "slow_posix = \<lparr>sys_open = \<lambda>p m w. (Inr 3, w), sys_close = \<lambda>d w. (Inr (), w), sys_read = \<lambda>d n (c, k). (Inr (take n c), (drop n c, k)),
     sys_pread = \<lambda>d n off w. (Inr (take n (drop (unat off) (fst w))), w), sys_lseek_cur = \<lambda>d n w. (Inr n, w),
     sys_write = \<lambda>d data (c, k). if k > 0 then (Inl EINTR, (c, k - 1)) else (Inr 1, (c @ take 1 data, 0)),
     sys_fsync = \<lambda>d w. (Inr (), w), sys_stat_size = \<lambda>p w. (Inr (of_nat (length (fst w))), w), sys_mmap = \<lambda>d n w. (Inr (fst w), w),
     sys_munmap = \<lambda>r w. w, sys_access = \<lambda>p w. (Inr (), w), sys_opendir = \<lambda>p w. (Inr 4, w),
     sys_readdir = \<lambda>d w. (None, w), sys_closedir = \<lambda>d w. w, sys_unlink = \<lambda>p w. (Inr (), w),
     sys_mkdir = \<lambda>p w. (Inr (), w), sys_rmdir = \<lambda>p w. (Inr (), w), sys_rename = \<lambda>p q w. (Inr (), w), sys_setlk = \<lambda>d b w. (Inr (), w),
     sys_fdopen = \<lambda>d w. (Inr d, w), sys_fwrite = \<lambda>d data w. w, sys_fflush = \<lambda>d w. w, sys_fclose = \<lambda>d w. w, strerror = \<lambda>e. []\<rparr>"

lemma slow_write: "regular_write slow_posix 3 fst (\<lambda>_. True) snd"
proof -
  have "0 < Suc 0 \<and> Suc 0 \<le> length data" if "data \<noteq> []" for data :: bytes using that by (cases data) auto
  then show ?thesis by (fastforce simp: regular_write_def slow_posix_def EINTR_def)
qed

lemma slow_read: "regular_read slow_posix 3 fst (\<lambda>_. True) snd"
  by (auto simp: regular_read_def slow_posix_def)

theorem writable_file_appends_witness:
  "\<exists>f f1 w1 f2 w2. PosixWritableFile_new [] 3 = Some f \<and> append_all slow_posix [[1, 2], [3]] (f, [9], 5) = Some (OK, f1, w1) \<and>
    PosixWritableFile_Flush slow_posix (f1, w1) = Some (OK, f2, w2) \<and> fst w2 = [9, 1, 2, 3]"
proof -
  obtain f where f: "PosixWritableFile_new [] 3 = Some f" using PosixWritableFile_new_ok by blast
  show ?thesis using writable_file_appends [OF slow_write f TrueI, of "[[1, 2], [3]]" "([9], 5)"] f by auto
qed



end
