(* ===== verification/Posix_memory.thy ===== *)
theory Posix_memory
  imports Posix_writable
begin

text \<open>
  What POSIX promises of files and record locks, and a small operating system that keeps all of it: files in memory, descriptors with a
  position, and advisory locks.  Closing any descriptor of a file drops the locks the process has on it.
\<close>

section \<open>Promises\<close>

text \<open>
  \<open>content\<close> are the files, \<open>writing fd name\<close> and \<open>reading fd\<close> say what a descriptor is open for, \<open>rest fd\<close> is what can still be read from
  it; a descriptor stays open until it is closed, and interruptions are finite in number.  This is the case without errors: the process
  may create and open the files, and there is space and a free descriptor.
\<close>

definition regular_files ::
    "'w posix \<Rightarrow> ('w \<Rightarrow> bytes \<Rightarrow> bytes option) \<Rightarrow> (nat \<Rightarrow> bytes \<Rightarrow> 'w \<Rightarrow> bool) \<Rightarrow> (nat \<Rightarrow> 'w \<Rightarrow> bool) \<Rightarrow> (nat \<Rightarrow> 'w \<Rightarrow> bytes) \<Rightarrow>
     ('w \<Rightarrow> nat) \<Rightarrow> bool" where
  "regular_files os content writing reading rest signals \<longleftrightarrow>
     (\<forall>name w. \<exists>fd w'. sys_open os name Truncate w = (Inr fd, w') \<and> writing fd name w' \<and> content w' name = Some []) \<and>
     (\<forall>name w c. content w name = Some c \<longrightarrow>
        (\<exists>fd w'. sys_open os name Read_only w = (Inr fd, w') \<and> reading fd w' \<and> rest fd w' = c)) \<and>
     (\<forall>name fd. regular_write os fd (\<lambda>w. the (content w name)) (\<lambda>w. writing fd name w \<and> content w name \<noteq> None) signals) \<and>
     (\<forall>fd. regular_read os fd (rest fd) (reading fd) signals) \<and>
     (\<forall>name fd w. writing fd name w \<longrightarrow> (\<exists>w'. sys_fsync os fd w = (Inr (), w') \<and> writing fd name w' \<and> content w' = content w)) \<and>
     (\<forall>name fd w. writing fd name w \<longrightarrow> (\<exists>w'. sys_close os fd w = (Inr (), w') \<and> content w' = content w))"

text \<open>\<open>file_of\<close> is the file a descriptor refers to, \<open>locked\<close> the files this process has a lock on.\<close>

definition record_locks :: "'w posix \<Rightarrow> ('w \<Rightarrow> nat \<Rightarrow> bytes option) \<Rightarrow> ('w \<Rightarrow> bytes set) \<Rightarrow> bool" where
  "record_locks os file_of locked \<longleftrightarrow>
     (\<forall>name m w fd w'. sys_open os name m w = (Inr fd, w') \<longrightarrow> file_of w' fd = Some name \<and> locked w' = locked w) \<and>
     (\<forall>name fd w. file_of w fd = Some name \<longrightarrow> locked (snd (sys_close os fd w)) = locked w - {name}) \<and>
     (\<forall>name fd w w'. file_of w fd = Some name \<and> sys_setlk os fd True w = (Inr (), w') \<longrightarrow> locked w' = insert name (locked w))"

section \<open>An operating system in memory\<close>

record memory =
  mem_files :: "bytes \<Rightarrow> bytes option"
  mem_fds :: "nat \<Rightarrow> (bytes \<times> nat) option"
  mem_next :: nat
  mem_locks :: "bytes set"

definition EBADF :: int where "EBADF = 9"

definition mem_open :: "bytes \<Rightarrow> open_mode \<Rightarrow> memory \<Rightarrow> (int + nat) \<times> memory" where
  "mem_open p m w =
     (if m = Read_only \<and> mem_files w p = None then (Inl ENOENT, w)
      else (Inr (mem_next w), w\<lparr>mem_files := (mem_files w)(p \<mapsto> (case mem_files w p of None \<Rightarrow> [] | Some c \<Rightarrow> if m = Truncate then [] else c)),
          mem_fds := (mem_fds w)(mem_next w \<mapsto> (p, 0)), mem_next := Suc (mem_next w)\<rparr>))"

definition mem_on_fd :: "nat \<Rightarrow> memory \<Rightarrow> (bytes \<Rightarrow> nat \<Rightarrow> bytes \<Rightarrow> 'r \<times> memory) \<Rightarrow> (int + 'r) \<times> memory" where
  "mem_on_fd d w act =
     (case mem_fds w d of
        None \<Rightarrow> (Inl EBADF, w)
      | Some (p, pos) \<Rightarrow> (case act p pos (case mem_files w p of None \<Rightarrow> [] | Some c \<Rightarrow> c) of (r, w) \<Rightarrow> (Inr r, w)))"

definition memory_posix :: "memory posix" where
  "memory_posix =
    \<lparr>sys_open = mem_open,
     sys_close = \<lambda>d w. mem_on_fd d w (\<lambda>p pos c. ((), w\<lparr>mem_fds := (mem_fds w)(d := None), mem_locks := mem_locks w - {p}\<rparr>)),
     sys_read = \<lambda>d n w. mem_on_fd d w (\<lambda>p pos c. (take n (drop pos c), w\<lparr>mem_fds := (mem_fds w)(d \<mapsto> (p, pos + n))\<rparr>)),
     sys_pread = \<lambda>d n off w. mem_on_fd d w (\<lambda>p pos c. (take n (drop (unat off) c), w)),
     sys_lseek_cur = \<lambda>d n w. mem_on_fd d w (\<lambda>p pos c. (of_nat (pos + unat n), w\<lparr>mem_fds := (mem_fds w)(d \<mapsto> (p, pos + unat n))\<rparr>)),
     sys_write = \<lambda>d data w. mem_on_fd d w (\<lambda>p pos c. (length data, w\<lparr>mem_files := (mem_files w)(p \<mapsto> c @ data)\<rparr>)),
     sys_fsync = \<lambda>d w. mem_on_fd d w (\<lambda>p pos c. ((), w)),
     sys_stat_size = \<lambda>p w. (case mem_files w p of None \<Rightarrow> (Inl ENOENT, w) | Some c \<Rightarrow> (Inr (of_nat (length c)), w)),
     sys_mmap = \<lambda>d n w. mem_on_fd d w (\<lambda>p pos c. (take (unat n) c, w)),
     sys_munmap = \<lambda>r w. w,
     sys_access = \<lambda>p w. (if mem_files w p = None then Inl ENOENT else Inr (), w),
     sys_opendir = \<lambda>p w. (Inl ENOENT, w), sys_readdir = \<lambda>d w. (None, w), sys_closedir = \<lambda>d w. w,
     sys_unlink = \<lambda>p w. (if mem_files w p = None then (Inl ENOENT, w) else (Inr (), w\<lparr>mem_files := (mem_files w)(p := None)\<rparr>)),
     sys_mkdir = \<lambda>p w. (Inr (), w), sys_rmdir = \<lambda>p w. (Inr (), w),
     sys_rename = \<lambda>p q w. (if mem_files w p = None then (Inl ENOENT, w)
        else (Inr (), w\<lparr>mem_files := ((mem_files w)(q := mem_files w p))(p := if p = q then mem_files w p else None)\<rparr>)),
     sys_setlk = \<lambda>d b w. mem_on_fd d w (\<lambda>p pos c. ((), w\<lparr>mem_locks := (if b then insert p (mem_locks w) else mem_locks w - {p})\<rparr>)),
     sys_fdopen = \<lambda>d w. (Inr d, w),
     sys_fwrite = \<lambda>d data w. snd (mem_on_fd d w (\<lambda>p pos c. ((), w\<lparr>mem_files := (mem_files w)(p \<mapsto> c @ data)\<rparr>))),
     sys_fflush = \<lambda>d w. w,
     sys_fclose = \<lambda>d w. w\<lparr>mem_fds := (mem_fds w)(d := None)\<rparr>,
     strerror = \<lambda>e. []\<rparr>"

definition memory_init :: memory where
  "memory_init = \<lparr>mem_files = Map.empty, mem_fds = Map.empty, mem_next = 3, mem_locks = {}\<rparr>"

definition mem_writing :: "nat \<Rightarrow> bytes \<Rightarrow> memory \<Rightarrow> bool" where
  "mem_writing d p w \<longleftrightarrow> (\<exists>pos. mem_fds w d = Some (p, pos))"

definition mem_reading :: "nat \<Rightarrow> memory \<Rightarrow> bool" where
  "mem_reading d w \<longleftrightarrow> (\<exists>p pos c. mem_fds w d = Some (p, pos) \<and> mem_files w p = Some c)"

definition mem_rest :: "nat \<Rightarrow> memory \<Rightarrow> bytes" where
  "mem_rest d w = (case mem_fds w d of None \<Rightarrow> [] | Some (p, pos) \<Rightarrow> drop pos (the (mem_files w p)))"

lemmas mem_simps = memory_posix_def mem_on_fd_def mem_open_def mem_writing_def mem_reading_def mem_rest_def

lemma memory_write: "regular_write memory_posix fd (\<lambda>w. the (mem_files w name)) (\<lambda>w. mem_writing fd name w \<and> mem_files w name \<noteq> None) (\<lambda>_. 0)"
  unfolding regular_write_def by (intro allI impI disjI1) (auto simp: mem_simps)

lemma memory_read: "regular_read memory_posix fd (mem_rest fd) (mem_reading fd) (\<lambda>_. 0)"
  unfolding regular_read_def by (intro allI impI disjI1) (auto simp: mem_simps add.commute)

lemma memory_regular_files: "regular_files memory_posix mem_files mem_writing mem_reading mem_rest (\<lambda>_. 0)"
  unfolding regular_files_def
proof (intro conjI allI impI memory_write memory_read)
  fix name w
  show "\<exists>fd w'. sys_open memory_posix name Truncate w = (Inr fd, w') \<and> mem_writing fd name w' \<and> mem_files w' name = Some []"
    by (auto simp: mem_simps split: option.splits)
next
  fix name c and w :: memory assume "mem_files w name = Some c"
  then show "\<exists>fd w'. sys_open memory_posix name Read_only w = (Inr fd, w') \<and> mem_reading fd w' \<and> mem_rest fd w' = c"
    by (simp add: mem_simps)
next
  fix name fd and w :: memory assume "mem_writing fd name w"
  then show "\<exists>w'. sys_fsync memory_posix fd w = (Inr (), w') \<and> mem_writing fd name w' \<and> mem_files w' = mem_files w"
    and "\<exists>w'. sys_close memory_posix fd w = (Inr (), w') \<and> mem_files w' = mem_files w"
    by (auto simp: mem_simps)
qed

lemma memory_record_locks: "record_locks memory_posix (\<lambda>w fd. map_option fst (mem_fds w fd)) mem_locks"
  unfolding record_locks_def by (auto simp: mem_simps split: if_splits option.splits prod.splits)

end
