(* ===== verification/Posix_env.thy ===== *)
theory Posix_env
  imports Posix_memory Logging
begin

text \<open>
  \<^verbatim>\<open>util/env_posix.cc\<close>, part 3: \<^verbatim>\<open>class PosixEnv\<close> without its background thread.  The environment keeps the table of locked files
  and the two limiters; each method also transforms the state \<open>'w\<close> of the machine.
\<close>

record PosixEnv =
  locks :: "bytes set"
  mmap_limiter :: limiter
  fd_limiter :: limiter

section \<open>Limits\<close>

definition kDefaultMmapLimit :: int where "kDefaultMmapLimit = 1000"

definition MaxMmaps :: "int \<Rightarrow> int" where
  "MaxMmaps g_mmap_limit = g_mmap_limit"

text \<open>
  \<^verbatim>\<open>getrlimit\<close> returns \<open>None\<close> for a failure, \<open>Some None\<close> for \<^verbatim>\<open>RLIM_INFINITY\<close> and otherwise the soft limit.  The quotient is
  converted from the unsigned 64-bit type to \<^verbatim>\<open>int\<close>.
\<close>

definition MaxOpenFiles :: "int \<Rightarrow> u64 option option \<Rightarrow> int" where
  "MaxOpenFiles g_open_read_only_file_limit rlim =
     (if g_open_read_only_file_limit \<ge> 0 then g_open_read_only_file_limit
      else case rlim of
        None \<Rightarrow> 50
      | Some None \<Rightarrow> 2 ^ 31 - 1
      | Some (Some cur) \<Rightarrow> sint (ucast (cur div 5) :: u32))"

definition PosixEnv_new :: "int \<Rightarrow> int \<Rightarrow> u64 option option \<Rightarrow> PosixEnv option" where
  "PosixEnv_new g_mmap_limit g_open_read_only_file_limit rlim = do {
     m \<leftarrow> Limiter_new (MaxMmaps g_mmap_limit);
     n \<leftarrow> Limiter_new (MaxOpenFiles g_open_read_only_file_limit rlim);
     Some \<lparr>locks = {}, mmap_limiter = m, fd_limiter = n\<rparr> }"

lemma sint_u32_nonneg: "0 \<le> sint (x :: u32) \<longleftrightarrow> unat x < 2 ^ 31"
proof -
  have "sint x < 0 \<longleftrightarrow> bit (unat x) 31" using bit_last_iff [of x] by (simp add: bit_unsigned_iff)
  also have "\<dots> \<longleftrightarrow> odd (unat x div 2 ^ 31)" by (simp add: bit_iff_odd)
  also have "\<dots> \<longleftrightarrow> 2 ^ 31 \<le> unat x"
  proof -
    have "unat x div 2 ^ 31 < 2" using unsigned_less [of x, where 'a = nat] by (simp add: less_mult_imp_div_less)
    then have "unat x div 2 ^ 31 = 0 \<or> unat x div 2 ^ 31 = 1" by auto
    then show ?thesis by (auto simp: div_eq_0_iff not_less)
  qed
  finally show ?thesis by auto
qed

text \<open>The default environment can be created exactly if the limit on open files is unlimited or below five times \<open>2^31\<close> (modulo
  \<open>5 * 2^32\<close>): beyond that the conversion to \<^verbatim>\<open>int\<close> yields a negative limit and the assertion of the limiter fails.\<close>

theorem default_env_created:
  "(\<exists>e. PosixEnv_new kDefaultMmapLimit (- 1) rlim = Some e) \<longleftrightarrow>
    (case rlim of Some (Some cur) \<Rightarrow> unat cur div 5 mod 2 ^ 32 < 2 ^ 31 | _ \<Rightarrow> True)"
proof -
  have "0 \<le> sint (ucast (cur div 5) :: u32) \<longleftrightarrow> unat cur div 5 mod 2 ^ 32 < 2 ^ 31" for cur :: u64
  proof -
    have u: "unat (ucast (cur div 5) :: u32) = unat cur div 5 mod 2 ^ 32"
      by (simp add: unat_ucast unat_div)
    show ?thesis unfolding sint_u32_nonneg u ..
  qed
  then show ?thesis
    by (auto simp: PosixEnv_new_def Limiter_new_def MaxMmaps_def kDefaultMmapLimit_def MaxOpenFiles_def split: option.splits)
qed

section \<open>The default environment\<close>

text \<open>
  The two limits are global variables that \<^verbatim>\<open>EnvPosixTestHelper\<close> may set until the singleton is created; \<open>default_env\<close> is the storage of
  the singleton.
\<close>

record env_globals =
  g_open_read_only_file_limit :: int
  g_mmap_limit :: int
  env_initialized :: bool
  default_env :: "PosixEnv option"

definition env_globals_init :: env_globals where
  "env_globals_init = \<lparr>g_open_read_only_file_limit = - 1, g_mmap_limit = kDefaultMmapLimit, env_initialized = False, default_env = None\<rparr>"

definition AssertEnvNotInitialized :: "env_globals \<Rightarrow> unit option" where
  "AssertEnvNotInitialized g = (if \<not> env_initialized g then Some () else None)"

definition SetReadOnlyFDLimit :: "int \<Rightarrow> env_globals \<Rightarrow> env_globals option" where
  "SetReadOnlyFDLimit limit g = do { _ \<leftarrow> AssertEnvNotInitialized g; Some (g\<lparr>g_open_read_only_file_limit := limit\<rparr>) }"

definition SetReadOnlyMMapLimit :: "int \<Rightarrow> env_globals \<Rightarrow> env_globals option" where
  "SetReadOnlyMMapLimit limit g = do { _ \<leftarrow> AssertEnvNotInitialized g; Some (g\<lparr>g_mmap_limit := limit\<rparr>) }"

definition Env_Default :: "u64 option option \<Rightarrow> env_globals \<Rightarrow> env_globals option" where
  "Env_Default rlim g =
     (case default_env g of
        Some _ \<Rightarrow> Some g
      | None \<Rightarrow> do {
          e \<leftarrow> PosixEnv_new (g_mmap_limit g) (g_open_read_only_file_limit g) rlim;
          Some (g\<lparr>env_initialized := True, g_open_read_only_file_limit := MaxOpenFiles (g_open_read_only_file_limit g) rlim,
                  default_env := Some e\<rparr>) })"

text \<open>Limits set before the first use hold for the singleton, which is created once; afterwards they cannot be set.\<close>

lemma default_env_once:
  assumes "default_env g = None" "0 \<le> limit" "0 \<le> g_mmap_limit g" "\<not> env_initialized g"
  shows "\<exists>g1 g2 e. SetReadOnlyFDLimit limit g = Some g1 \<and> Env_Default rlim g1 = Some g2 \<and> default_env g2 = Some e \<and>
    max_acquires (fd_limiter e) = limit \<and> max_acquires (mmap_limiter e) = g_mmap_limit g \<and>
    Env_Default rlim' g2 = Some g2 \<and> SetReadOnlyFDLimit l g2 = None \<and> SetReadOnlyMMapLimit l g2 = None"
  using assms
  by (simp add: SetReadOnlyFDLimit_def SetReadOnlyMMapLimit_def AssertEnvNotInitialized_def Env_Default_def PosixEnv_new_def Limiter_new_def
      MaxMmaps_def MaxOpenFiles_def)

section \<open>Opening files\<close>

definition PosixEnv_NewSequentialFile :: "'w posix \<Rightarrow> bytes \<Rightarrow> 'w \<Rightarrow> Status \<times> 'w SequentialFile option \<times> 'w" where
  "PosixEnv_NewSequentialFile os filename w =
     (case sys_open os filename Read_only w of
        (Inl e, w) \<Rightarrow> (PosixError os filename e, None, w)
      | (Inr fd, w) \<Rightarrow> (OK, Some (PosixSequentialFile os fd filename), w))"

definition PosixEnv_GetFileSize :: "'w posix \<Rightarrow> bytes \<Rightarrow> 'w \<Rightarrow> Status \<times> u64 \<times> 'w" where
  "PosixEnv_GetFileSize os filename w =
     (case sys_stat_size os filename w of
        (Inl e, w) \<Rightarrow> (PosixError os filename e, 0, w)
      | (Inr sz, w) \<Rightarrow> (OK, sz, w))"

datatype random_access_file = Opened PosixRandomAccessFile | Mapped PosixMmapReadableFile

definition PosixEnv_NewRandomAccessFile ::
    "'w posix \<Rightarrow> bytes \<Rightarrow> PosixEnv \<times> 'w \<Rightarrow> (Status \<times> random_access_file option \<times> PosixEnv \<times> 'w) option" where
  "PosixEnv_NewRandomAccessFile os filename = (\<lambda>(env, w).
     case sys_open os filename Read_only w of
       (Inl e, w) \<Rightarrow> Some (PosixError os filename e, None, env, w)
     | (Inr fd, w) \<Rightarrow> do {
         (acquired, m) \<leftarrow> Limiter_Acquire (mmap_limiter env);
         let env = env\<lparr>mmap_limiter := m\<rparr>;
         if \<not> acquired then do {
           (file, n, w) \<leftarrow> PosixRandomAccessFile_new os filename fd (fd_limiter env) w;
           Some (OK, Some (Opened file), env\<lparr>fd_limiter := n\<rparr>, w) }
         else do {
           let (status, file_size, w) = PosixEnv_GetFileSize os filename w;
           let (status, result, w) =
             (if status_ok status then
                (case sys_mmap os fd file_size w of
                   (Inr region, w) \<Rightarrow>
                     (status, Some (Mapped \<lparr>mmap_region = region, mmap_length = file_size, mmap_filename = filename\<rparr>), w)
                 | (Inl e, w) \<Rightarrow> (PosixError os filename e, None, w))
              else (status, None, w));
           let w = snd (sys_close os fd w);
           m \<leftarrow> (if \<not> status_ok status then Limiter_Release (mmap_limiter env) else Some (mmap_limiter env));
           Some (status, result, env\<lparr>mmap_limiter := m\<rparr>, w) } })"

definition open_writable :: "'w posix \<Rightarrow> open_mode \<Rightarrow> bytes \<Rightarrow> 'w \<Rightarrow> (Status \<times> PosixWritableFile option \<times> 'w) option" where
  "open_writable os mode filename w =
     (case sys_open os filename mode w of
        (Inl e, w) \<Rightarrow> Some (PosixError os filename e, None, w)
      | (Inr fd, w) \<Rightarrow> do {
          f \<leftarrow> PosixWritableFile_new filename fd;
          Some (OK, Some f, w) })"

definition PosixEnv_NewWritableFile :: "'w posix \<Rightarrow> bytes \<Rightarrow> 'w \<Rightarrow> (Status \<times> PosixWritableFile option \<times> 'w) option" where
  "PosixEnv_NewWritableFile os = open_writable os Truncate"

definition PosixEnv_NewAppendableFile :: "'w posix \<Rightarrow> bytes \<Rightarrow> 'w \<Rightarrow> (Status \<times> PosixWritableFile option \<times> 'w) option" where
  "PosixEnv_NewAppendableFile os = open_writable os Append_to"

section \<open>The file system\<close>

text \<open>A call that returns nothing but success or an error, reported for \<open>name\<close>.\<close>

definition checked :: "'w posix \<Rightarrow> bytes \<Rightarrow> (int + 'a) \<times> 'w \<Rightarrow> Status \<times> 'w" where
  "checked os name = (\<lambda>(r, w). (case r of Inl e \<Rightarrow> PosixError os name e | Inr _ \<Rightarrow> OK, w))"

definition PosixEnv_FileExists :: "'w posix \<Rightarrow> bytes \<Rightarrow> 'w \<Rightarrow> bool \<times> 'w" where
  "PosixEnv_FileExists os filename w = (case sys_access os filename w of (Inl _, w) \<Rightarrow> (False, w) | (Inr _, w) \<Rightarrow> (True, w))"

partial_function (option) readdir_loop :: "'w posix \<Rightarrow> nat \<Rightarrow> bytes list \<Rightarrow> 'w \<Rightarrow> (bytes list \<times> 'w) option" where
  "readdir_loop os dir result w =
     (case sys_readdir os dir w of
        (None, w) \<Rightarrow> Some (result, w)
      | (Some d_name, w) \<Rightarrow> readdir_loop os dir (result @ [d_name]) w)"

definition PosixEnv_GetChildren :: "'w posix \<Rightarrow> bytes \<Rightarrow> 'w \<Rightarrow> (Status \<times> bytes list \<times> 'w) option" where
  "PosixEnv_GetChildren os directory_path w =
     (case sys_opendir os directory_path w of
        (Inl e, w) \<Rightarrow> Some (PosixError os directory_path e, [], w)
      | (Inr dir, w) \<Rightarrow> do {
          (result, w) \<leftarrow> readdir_loop os dir [] w;
          Some (OK, result, sys_closedir os dir w) })"

definition PosixEnv_RemoveFile :: "'w posix \<Rightarrow> bytes \<Rightarrow> 'w \<Rightarrow> Status \<times> 'w" where
  "PosixEnv_RemoveFile os filename w = checked os filename (sys_unlink os filename w)"

definition PosixEnv_CreateDir :: "'w posix \<Rightarrow> bytes \<Rightarrow> 'w \<Rightarrow> Status \<times> 'w" where
  "PosixEnv_CreateDir os dirname w = checked os dirname (sys_mkdir os dirname w)"

definition PosixEnv_RemoveDir :: "'w posix \<Rightarrow> bytes \<Rightarrow> 'w \<Rightarrow> Status \<times> 'w" where
  "PosixEnv_RemoveDir os dirname w = checked os dirname (sys_rmdir os dirname w)"

definition PosixEnv_RenameFile :: "'w posix \<Rightarrow> bytes \<Rightarrow> bytes \<Rightarrow> 'w \<Rightarrow> Status \<times> 'w" where
  "PosixEnv_RenameFile os from_name to_name w = checked os from_name (sys_rename os from_name to_name w)"

text \<open>
  \<^verbatim>\<open>TEST_TMPDIR\<close> is \<open>None\<close> if the variable is not set; the user id is printed as a signed number (\<^verbatim>\<open>%d\<close>); the status of
  \<^verbatim>\<open>CreateDir\<close> is ignored.
\<close>

definition signed_decimal :: "int \<Rightarrow> bytes" where
  "signed_decimal i = (if i < 0 then ascii ''-'' @ decimal (nat (- i)) else decimal (nat i))"

definition PosixEnv_GetTestDirectory :: "'w posix \<Rightarrow> bytes option \<Rightarrow> u32 \<Rightarrow> 'w \<Rightarrow> Status \<times> bytes \<times> 'w" where
  "PosixEnv_GetTestDirectory os test_tmpdir euid w =
     (let result = (case test_tmpdir of
            Some (c # cs) \<Rightarrow> c # cs
          | _ \<Rightarrow> ascii ''/tmp/leveldbtest-'' @ signed_decimal (sint euid))
      in (OK, result, snd (PosixEnv_CreateDir os result w)))"

definition NowMicros :: "u64 \<Rightarrow> u64 \<Rightarrow> u64" where
  "NowMicros tv_sec tv_usec = tv_sec * 1000000 + tv_usec"

section \<open>Locks\<close>

record PosixFileLock =
  lock_fd :: nat
  lock_filename :: bytes

definition LockTable_Insert :: "bytes \<Rightarrow> bytes set \<Rightarrow> bool \<times> bytes set" where
  "LockTable_Insert fname locked_files = (fname \<notin> locked_files, insert fname locked_files)"

definition LockTable_Remove :: "bytes \<Rightarrow> bytes set \<Rightarrow> bytes set" where
  "LockTable_Remove fname locked_files = locked_files - {fname}"

definition LockOrUnlock :: "'w posix \<Rightarrow> nat \<Rightarrow> bool \<Rightarrow> 'w \<Rightarrow> (int + unit) \<times> 'w" where
  "LockOrUnlock os fd lock w = sys_setlk os fd lock w"

definition PosixEnv_LockFile :: "'w posix \<Rightarrow> bytes \<Rightarrow> PosixEnv \<times> 'w \<Rightarrow> Status \<times> PosixFileLock option \<times> PosixEnv \<times> 'w" where
  "PosixEnv_LockFile os filename = (\<lambda>(env, w).
     case sys_open os filename Read_write w of
       (Inl e, w) \<Rightarrow> (PosixError os filename e, None, env, w)
     | (Inr fd, w) \<Rightarrow>
         let (succeeded, locked_files) = LockTable_Insert filename (locks env); env = env\<lparr>locks := locked_files\<rparr> in
         if \<not> succeeded
         then (IOError (ascii ''lock '' @ filename) (ascii ''already held by process''), None, env, snd (sys_close os fd w))
         else
           case LockOrUnlock os fd True w of
             (Inl lock_errno, w) \<Rightarrow>
               let w = snd (sys_close os fd w); env = env\<lparr>locks := LockTable_Remove filename (locks env)\<rparr> in
               (PosixError os (ascii ''lock '' @ filename) lock_errno, None, env, w)
           | (Inr _, w) \<Rightarrow> (OK, Some \<lparr>lock_fd = fd, lock_filename = filename\<rparr>, env, w))"

definition PosixEnv_UnlockFile :: "'w posix \<Rightarrow> PosixFileLock \<Rightarrow> PosixEnv \<times> 'w \<Rightarrow> Status \<times> PosixEnv \<times> 'w" where
  "PosixEnv_UnlockFile os lock = (\<lambda>(env, w).
     case LockOrUnlock os (lock_fd lock) False w of
       (Inl e, w) \<Rightarrow> (PosixError os (ascii ''unlock '' @ lock_filename lock) e, env, w)
     | (Inr _, w) \<Rightarrow>
         let env = env\<lparr>locks := LockTable_Remove (lock_filename lock) (locks env)\<rparr> in
         (OK, env, snd (sys_close os (lock_fd lock) w)))"

lemmas lock_defs = PosixEnv_LockFile_def PosixEnv_UnlockFile_def LockTable_Insert_def LockTable_Remove_def LockOrUnlock_def Let_def

text \<open>
  Any sequence of calls of the two methods, by clients that unlock only what they hold, on any operating system, with anything
  happening to the machine in between.
\<close>

inductive lock_step :: "'w posix \<Rightarrow> PosixEnv \<times> PosixFileLock list \<times> 'w \<Rightarrow> PosixEnv \<times> PosixFileLock list \<times> 'w \<Rightarrow> bool" for os where
  lock: "PosixEnv_LockFile os name (env, w) = (st, Some l, env', w') \<Longrightarrow> lock_step os (env, held, w) (env', l # held, w')"
| lock_fails: "PosixEnv_LockFile os name (env, w) = (st, None, env', w') \<Longrightarrow> lock_step os (env, held, w) (env', held, w')"
| unlock: "l \<in> set held \<Longrightarrow> PosixEnv_UnlockFile os l (env, w) = (st, env', w') \<Longrightarrow> status_ok st \<Longrightarrow>
    lock_step os (env, held, w) (env', remove1 l held, w')"
| unlock_fails: "l \<in> set held \<Longrightarrow> PosixEnv_UnlockFile os l (env, w) = (st, env', w') \<Longrightarrow> \<not> status_ok st \<Longrightarrow>
    lock_step os (env, held, w) (env', held, w')"
| machine: "lock_step os (env, held, w) (env, held, w')"

inductive lock_reach :: "'w posix \<Rightarrow> PosixEnv \<times> PosixFileLock list \<times> 'w \<Rightarrow> bool" for os where
  start: "PosixEnv_new mmaps fds rlim = Some env \<Longrightarrow> lock_reach os (env, [], w)"
| step: "lock_reach os s \<Longrightarrow> lock_step os s t \<Longrightarrow> lock_reach os t"

definition locks_ok :: "PosixEnv \<Rightarrow> PosixFileLock list \<Rightarrow> bool" where
  "locks_ok env held \<longleftrightarrow> distinct (map lock_filename held) \<and> locks env = set (map lock_filename held)"

lemma statuses: "status_ok OK" "\<not> status_ok (IOError a b)"
  by (simp_all add: status_ok_def OK_def IOError_def Status_new_def Let_def)

lemma LockFile_cases:
  assumes "PosixEnv_LockFile os name (env, w) = (st, r, env', w')"
  shows "(status_ok st \<and> name \<notin> locks env \<and> env' = env\<lparr>locks := insert name (locks env)\<rparr> \<and> (\<exists>fd. r = Some \<lparr>lock_fd = fd, lock_filename = name\<rparr>)) \<or>
    (\<not> status_ok st \<and> r = None \<and> env' = env)"
proof -
  have "env\<lparr>locks := locks env - {name}\<rparr> = env" if "name \<notin> locks env" using that by simp
  moreover have "env\<lparr>locks := insert name (locks env)\<rparr> = env" if "name \<in> locks env" using that by (simp add: insert_absorb)
  ultimately show ?thesis using assms statuses
    by (auto simp: lock_defs split: prod.splits sum.splits if_splits)
qed

lemma UnlockFile_cases:
  assumes "PosixEnv_UnlockFile os l (env, w) = (st, env', w')"
  shows "(status_ok st \<and> env' = env\<lparr>locks := locks env - {lock_filename l}\<rparr>) \<or> (\<not> status_ok st \<and> env' = env)"
  using assms statuses(1) by (auto simp: lock_defs split: prod.splits sum.splits)

lemma lock_step_ok:
  assumes "lock_step os (env, held, w) (env', held', w')" "locks_ok env held"
  shows "locks_ok env' held'"
  using assms(1)
proof cases
  case (lock name st l)
  from LockFile_cases [OF lock(2)] lock(1) assms(2) show ?thesis by (auto simp: locks_ok_def)
next
  case (lock_fails name st)
  from LockFile_cases [OF lock_fails(2)] lock_fails(1) assms(2) show ?thesis by auto
next
  case (unlock l st)
  have "set (map lock_filename (remove1 l held)) = set (map lock_filename held) - {lock_filename l}"
    using assms(2) unlock(2) by (auto simp: locks_ok_def distinct_map inj_on_def)
  then show ?thesis using UnlockFile_cases [OF unlock(3)] unlock(1,4) assms(2) by (simp add: locks_ok_def distinct_map inj_on_def)
next
  case (unlock_fails l st)
  from UnlockFile_cases [OF unlock_fails(3)] unlock_fails(1,4) assms(2) show ?thesis by auto
next
  case machine
  then show ?thesis using assms(2) by simp
qed

lemma lock_reach_ok: "lock_reach os (env, held, w) \<Longrightarrow> locks_ok env held"
proof (induction "(env, held, w)" arbitrary: env held w rule: lock_reach.induct)
  case (start mmaps fds rlim env)
  then show ?case by (auto simp: PosixEnv_new_def locks_ok_def Option.bind_eq_Some_conv)
next
  case (step s)
  obtain e h v where s: "s = (e, h, v)" by (cases s)
  show ?case using lock_step_ok [OF step(3) [unfolded s] step(2) [OF s]] .
qed

text \<open>C29. On any operating system the table of locked files is exactly the files of the locks that are held, no file is locked twice,
  and \<^verbatim>\<open>LockFile\<close> on a file that is held fails and changes nothing in the environment.\<close>

theorem lock_table_exact:
  assumes "lock_reach os (env, held, w)"
  shows "distinct (map lock_filename held) \<and> locks env = set (map lock_filename held) \<and>
    (name \<in> set (map lock_filename held) \<longrightarrow>
      (\<exists>st w'. PosixEnv_LockFile os name (env, w) = (st, None, env, w') \<and> \<not> status_ok st))"
proof -
  obtain st r env' w' where r: "PosixEnv_LockFile os name (env, w) = (st, r, env', w')" using prod_cases4 by blast
  show ?thesis using lock_reach_ok [OF assms] LockFile_cases [OF r] r by (auto simp: locks_ok_def)
qed

theorem lock_table_exact_witness:
  "\<exists>env w. lock_reach memory_posix (env, [\<lparr>lock_fd = 3, lock_filename = [65]\<rparr>], w) \<and> locks env = {[65]}"
proof -
  obtain e where e: "PosixEnv_new 1000 5 None = Some e" by (simp add: PosixEnv_new_def Limiter_new_def MaxMmaps_def MaxOpenFiles_def)
  then have "locks e = {}" by (auto simp: PosixEnv_new_def Option.bind_eq_Some_conv)
  then have "\<exists>st env' w'. PosixEnv_LockFile memory_posix [65] (e, memory_init) = (st, Some \<lparr>lock_fd = 3, lock_filename = [65]\<rparr>, env', w')"
    by (simp add: lock_defs mem_simps memory_init_def)
  then obtain st env' w' where "PosixEnv_LockFile memory_posix [65] (e, memory_init) = (st, Some \<lparr>lock_fd = 3, lock_filename = [65]\<rparr>, env', w')"
    by blast
  then have r: "lock_reach memory_posix (env', [\<lparr>lock_fd = 3, lock_filename = [65]\<rparr>], w')"
    by (rule lock_reach.step [OF lock_reach.start [OF e] lock_step.lock])
  show ?thesis using lock_table_exact [OF r] r by auto
qed

text \<open>C30. Trying to lock a file twice gives up the lock: \<^verbatim>\<open>LockFile\<close> opens the file before it looks into the table, and closing that
  descriptor makes the system drop the lock of the first call, which the environment still regards as held.\<close>

theorem second_lock_drops_first:
  assumes "record_locks os file_of locked"
    and first: "PosixEnv_LockFile os name (env, w) = (st1, Some l, env1, w1)"
    and second: "PosixEnv_LockFile os name (env1, w1) = (st2, r, env2, w2)" "\<exists>fd w'. sys_open os name Read_write w1 = (Inr fd, w')"
  shows "name \<in> locked w1 \<and> r = None \<and> \<not> status_ok st2 \<and> name \<in> locks env2 \<and> name \<notin> locked w2"
proof -
  have env1: "name \<in> locks env1" using LockFile_cases [OF first] by auto
  then have "r = None \<and> \<not> status_ok st2 \<and> env2 = env1" using LockFile_cases [OF second(1)] by auto
  moreover obtain fd v where "sys_open os name Read_write w = (Inr fd, v)" "sys_setlk os fd True v = (Inr (), w1)"
    using first by (auto simp: lock_defs split: prod.splits sum.splits if_splits)
  then have "name \<in> locked w1" using assms(1) unfolding record_locks_def by (metis insertI1)
  moreover have "name \<notin> locked w2"
    using second assms(1) env1 by (auto simp: lock_defs record_locks_def)
  ultimately show ?thesis using env1 \<open>name \<in> locked w1\<close> by simp
qed

theorem second_lock_drops_first_witness:
  "\<exists>st1 l env1 w1 st2 env2 w2.
    PosixEnv_LockFile memory_posix [65] (\<lparr>locks = {}, mmap_limiter = \<lparr>max_acquires = 0, acquires_allowed = 0\<rparr>,
      fd_limiter = \<lparr>max_acquires = 0, acquires_allowed = 0\<rparr>\<rparr>, memory_init) = (st1, Some l, env1, w1) \<and>
    PosixEnv_LockFile memory_posix [65] (env1, w1) = (st2, None, env2, w2) \<and>
    [65] \<in> mem_locks w1 \<and> [65] \<in> locks env2 \<and> [65] \<notin> mem_locks w2"
proof -
  let ?e = "\<lparr>locks = {}, mmap_limiter = \<lparr>max_acquires = 0, acquires_allowed = 0\<rparr>, fd_limiter = \<lparr>max_acquires = 0, acquires_allowed = 0\<rparr>\<rparr>"
  obtain st1 l env1 w1 where 1: "PosixEnv_LockFile memory_posix [65] (?e, memory_init) = (st1, Some l, env1, w1)"
    by (simp add: lock_defs mem_simps memory_init_def)
  obtain st2 r env2 w2 where 2: "PosixEnv_LockFile memory_posix [65] (env1, w1) = (st2, r, env2, w2)" using prod_cases4 by blast
  have "\<exists>fd w'. sys_open memory_posix [65] Read_write w1 = (Inr fd, w')" by (simp add: mem_simps)
  from second_lock_drops_first [OF memory_record_locks 1 2 this] 1 2 show ?thesis by auto
qed

end
