(* ===== verification/Posix_random_access.thy ===== *)
theory Posix_random_access
  imports Posix_env
begin

text \<open>
  The life of the files that \<^verbatim>\<open>PosixEnv::NewRandomAccessFile\<close> opens: each holds a slot of one of the two limiters, or none, from its
  creation to its destruction.
\<close>

definition RandomAccessFile_delete :: "'w posix \<Rightarrow> random_access_file \<Rightarrow> PosixEnv \<times> 'w \<Rightarrow> (PosixEnv \<times> 'w) option" where
  "RandomAccessFile_delete os f = (\<lambda>(env, w).
     case f of
       Opened file \<Rightarrow> do {
         (n, w) \<leftarrow> PosixRandomAccessFile_destroy os file (fd_limiter env) w;
         Some (env\<lparr>fd_limiter := n\<rparr>, w) }
     | Mapped file \<Rightarrow> do {
         (m, w) \<leftarrow> PosixMmapReadableFile_destroy os file (mmap_limiter env) w;
         Some (env\<lparr>mmap_limiter := m\<rparr>, w) })"

inductive files_step ::
    "'w posix \<Rightarrow> PosixEnv \<times> random_access_file list \<times> 'w \<Rightarrow> PosixEnv \<times> random_access_file list \<times> 'w \<Rightarrow> bool" for os where
  new: "PosixEnv_NewRandomAccessFile os name (env, w) = Some (st, Some f, env', w') \<Longrightarrow> files_step os (env, fs, w) (env', f # fs, w')"
| new_fails: "PosixEnv_NewRandomAccessFile os name (env, w) = Some (st, None, env', w') \<Longrightarrow> files_step os (env, fs, w) (env', fs, w')"
| delete: "f \<in> set fs \<Longrightarrow> RandomAccessFile_delete os f (env, w) = Some (env', w') \<Longrightarrow> files_step os (env, fs, w) (env', remove1 f fs, w')"
| machine: "files_step os (env, fs, w) (env, fs, w')"

inductive files_reach :: "'w posix \<Rightarrow> PosixEnv \<times> random_access_file list \<times> 'w \<Rightarrow> bool" for os where
  start: "PosixEnv_new mmaps fds rlim = Some env \<Longrightarrow> files_reach os (env, [], w)"
| step: "files_reach os s \<Longrightarrow> files_step os s t \<Longrightarrow> files_reach os t"

section \<open>Invariant\<close>

fun is_mapped :: "random_access_file \<Rightarrow> bool" where
  "is_mapped (Mapped _) = True"
| "is_mapped (Opened _) = False"

fun keeps_fd :: "random_access_file \<Rightarrow> bool" where
  "keeps_fd (Mapped _) = False"
| "keeps_fd (Opened f) = has_permanent_fd f"

fun fd_known :: "random_access_file \<Rightarrow> bool" where
  "fd_known (Mapped _) = True"
| "fd_known (Opened f) = (has_permanent_fd f \<longleftrightarrow> ra_fd f \<noteq> None)"

definition slots :: "limiter \<Rightarrow> nat \<Rightarrow> bool" where
  "slots l n \<longleftrightarrow> acquires_allowed l = max_acquires l - int n \<and> int n \<le> max_acquires l"

definition files_ok :: "PosixEnv \<Rightarrow> random_access_file list \<Rightarrow> bool" where
  "files_ok env fs \<longleftrightarrow> slots (mmap_limiter env) (length (filter is_mapped fs)) \<and>
     slots (fd_limiter env) (length (filter keeps_fd fs)) \<and> (\<forall>f\<in>set fs. fd_known f)"

lemma Acquire_slots:
  assumes "slots l n"
  obtains (taken) l' where "Limiter_Acquire l = Some (True, l')" "slots l' (Suc n)" "max_acquires l' = max_acquires l"
  | (refused) "Limiter_Acquire l = Some (False, l)"
proof (cases "acquires_allowed l > 0")
  case True
  then show ?thesis using assms
    by (intro taken [of "l\<lparr>acquires_allowed := acquires_allowed l - 1\<rparr>"]) (auto simp: Limiter_Acquire_def Limiter_take_def slots_def)
next
  case False
  then show ?thesis using assms
    by (intro refused) (auto simp: Limiter_Acquire_def Limiter_take_def Limiter_Release_def slots_def)
qed

lemma Release_slots:
  assumes "slots l (Suc n)"
  shows "\<exists>l'. Limiter_Release l = Some l' \<and> slots l' n \<and> max_acquires l' = max_acquires l"
  using assms by (auto simp: Limiter_Release_def slots_def)

lemma filter_remove1:
  assumes "x \<in> set xs"
  shows "length (filter P xs) = (if P x then Suc (length (filter P (remove1 x xs))) else length (filter P (remove1 x xs)))"
  using assms by (induction xs) auto

lemma RandomAccessFile_new_ok:
  assumes "slots l n"
  shows "\<exists>f l' w'. PosixRandomAccessFile_new os name fd l w = Some (f, l', w') \<and>
    slots l' (if has_permanent_fd f then Suc n else n) \<and> (has_permanent_fd f \<longleftrightarrow> ra_fd f \<noteq> None) \<and> max_acquires l' = max_acquires l"
  using assms
proof (cases rule: Acquire_slots)
  case (taken l')
  then show ?thesis by (simp add: PosixRandomAccessFile_new_def Let_def)
next
  case refused
  then show ?thesis using assms by (simp add: PosixRandomAccessFile_new_def Let_def)
qed

text \<open>What one call of \<^verbatim>\<open>NewRandomAccessFile\<close> returns.\<close>

definition new_result_ok :: "PosixEnv \<Rightarrow> random_access_file list \<Rightarrow> Status \<times> random_access_file option \<times> PosixEnv \<times> 'w \<Rightarrow> bool" where
  "new_result_ok env fs = (\<lambda>(st, r, env', w').
     (case r of None \<Rightarrow> \<not> status_ok st \<and> files_ok env' fs | Some f \<Rightarrow> status_ok st \<and> files_ok env' (f # fs)) \<and>
     max_acquires (mmap_limiter env') = max_acquires (mmap_limiter env) \<and> max_acquires (fd_limiter env') = max_acquires (fd_limiter env))"

lemma new_mapped_ok:
  assumes ok: "files_ok env fs" and fd: "sys_open os name Read_only w = (Inr fd, w1)"
    and m: "Limiter_Acquire (mmap_limiter env) = Some (True, m)" "slots m (Suc (length (filter is_mapped fs)))"
      "max_acquires m = max_acquires (mmap_limiter env)"
  shows "\<exists>x. PosixEnv_NewRandomAccessFile os name (env, w) = Some x \<and> new_result_ok env fs x"
proof -
  obtain m' where m': "Limiter_Release m = Some m'" "slots m' (length (filter is_mapped fs))" "max_acquires m' = max_acquires m"
    using Release_slots [OF m(2)] by blast
  obtain st sz w2 where st: "PosixEnv_GetFileSize os name w1 = (st, sz, w2)" by (cases "PosixEnv_GetFileSize os name w1")
  show ?thesis
  proof (cases "status_ok st")
    case False
    then show ?thesis using ok fd m m' st
      by (simp add: PosixEnv_NewRandomAccessFile_def new_result_ok_def files_ok_def Let_def)
  next
    case True
    obtain r w3 where r: "sys_mmap os fd sz w2 = (r, w3)" by (cases "sys_mmap os fd sz w2")
    show ?thesis using ok fd m m' st True r
      by (cases r) (simp_all add: PosixEnv_NewRandomAccessFile_def new_result_ok_def files_ok_def Let_def)
  qed
qed

lemma NewRandomAccessFile_ok:
  assumes ok: "files_ok env fs"
  shows "\<exists>x. PosixEnv_NewRandomAccessFile os name (env, w) = Some x \<and> new_result_ok env fs x"
proof -
  obtain r w1 where o: "sys_open os name Read_only w = (r, w1)" by (cases "sys_open os name Read_only w")
  show ?thesis
  proof (cases r)
    case (Inl e)
    then show ?thesis using ok o by (simp add: PosixEnv_NewRandomAccessFile_def new_result_ok_def)
  next
    case (Inr fd)
    with o have fd: "sys_open os name Read_only w = (Inr fd, w1)" by simp
    have s: "slots (mmap_limiter env) (length (filter is_mapped fs))" "slots (fd_limiter env) (length (filter keeps_fd fs))"
      using ok by (simp_all add: files_ok_def)
    from s(1) show ?thesis
    proof (cases rule: Acquire_slots)
      case (taken m)
      then show ?thesis by (rule new_mapped_ok [OF ok fd])
    next
      case refused
      obtain f n w2 where f: "PosixRandomAccessFile_new os name fd (fd_limiter env) w1 = Some (f, n, w2)"
        "slots n (if has_permanent_fd f then Suc (length (filter keeps_fd fs)) else length (filter keeps_fd fs))"
        "has_permanent_fd f \<longleftrightarrow> ra_fd f \<noteq> None" "max_acquires n = max_acquires (fd_limiter env)"
        using RandomAccessFile_new_ok [OF s(2), of os name fd w1] by blast
      have "status_ok OK" by (rule statuses)
      then show ?thesis using ok fd refused f
        by (auto simp: PosixEnv_NewRandomAccessFile_def new_result_ok_def files_ok_def split: if_splits)
    qed
  qed
qed

lemma RandomAccessFile_delete_ok:
  assumes ok: "files_ok env fs" and f: "f \<in> set fs"
  shows "\<exists>env' w'. RandomAccessFile_delete os f (env, w) = Some (env', w') \<and> files_ok env' (remove1 f fs) \<and>
    max_acquires (mmap_limiter env') = max_acquires (mmap_limiter env) \<and> max_acquires (fd_limiter env') = max_acquires (fd_limiter env)"
proof -
  note cnt = filter_remove1 [OF f, of is_mapped] filter_remove1 [OF f, of keeps_fd]
  have known: "\<forall>g\<in>set (remove1 f fs). fd_known g" "fd_known f"
    using ok f set_remove1_subset [of f fs] by (auto simp: files_ok_def)
  show ?thesis
  proof (cases f)
    case (Mapped g)
    then have "slots (mmap_limiter env) (Suc (length (filter is_mapped (remove1 f fs))))" using ok cnt by (simp add: files_ok_def)
    from Release_slots [OF this] show ?thesis
      using ok cnt known Mapped by (auto simp: RandomAccessFile_delete_def PosixMmapReadableFile_destroy_def files_ok_def)
  next
    case (Opened g)
    show ?thesis
    proof (cases "has_permanent_fd g")
      case True
      then have "slots (fd_limiter env) (Suc (length (filter keeps_fd (remove1 f fs))))" using ok cnt Opened by (simp add: files_ok_def)
      from Release_slots [OF this] show ?thesis
        using ok cnt known Opened True by (auto simp: RandomAccessFile_delete_def PosixRandomAccessFile_destroy_def files_ok_def)
    next
      case False
      then show ?thesis
        using ok cnt known Opened by (auto simp: RandomAccessFile_delete_def PosixRandomAccessFile_destroy_def files_ok_def)
    qed
  qed
qed

lemma files_reach_ok: "files_reach os (env, fs, w) \<Longrightarrow> files_ok env fs"
proof (induction "(env, fs, w)" arbitrary: env fs w rule: files_reach.induct)
  case (start mmaps fds rlim env)
  then show ?case by (auto simp: PosixEnv_new_def Limiter_new_def files_ok_def slots_def Option.bind_eq_Some_conv split: if_splits)
next
  case (step s)
  obtain e h v where s: "s = (e, h, v)" by (cases s)
  note ok = step(2) [OF s]
  from step(3) [unfolded s] show ?case
  proof cases
    case (new name st f)
    then show ?thesis using NewRandomAccessFile_ok [OF ok, of os name v] by (auto simp: new_result_ok_def)
  next
    case (new_fails name st)
    then show ?thesis using NewRandomAccessFile_ok [OF ok, of os name v] by (auto simp: new_result_ok_def)
  next
    case (delete f)
    then show ?thesis using RandomAccessFile_delete_ok [OF ok delete(2), of os v] by auto
  next
    case machine
    then show ?thesis using ok by simp
  qed
qed

text \<open>C31. Whatever the system answers, the slots taken from the two limiters are exactly the mapped files and the files with a
  permanent descriptor that are alive, so at most that many exist; opening another file and deleting any of them never fails an
  assertion, and an open that fails keeps no slot.\<close>

theorem random_access_slots:
  assumes "files_reach os (env, fs, w)"
  shows "max_acquires (mmap_limiter env) - acquires_allowed (mmap_limiter env) = int (length (filter is_mapped fs)) \<and>
    max_acquires (fd_limiter env) - acquires_allowed (fd_limiter env) = int (length (filter keeps_fd fs)) \<and>
    int (length (filter is_mapped fs)) \<le> max_acquires (mmap_limiter env) \<and> int (length (filter keeps_fd fs)) \<le> max_acquires (fd_limiter env) \<and>
    (\<exists>st r env' w'. PosixEnv_NewRandomAccessFile os name (env, w) = Some (st, r, env', w') \<and> (r = None \<longleftrightarrow> \<not> status_ok st) \<and>
      (r = None \<longrightarrow> slots (mmap_limiter env') (length (filter is_mapped fs)) \<and> slots (fd_limiter env') (length (filter keeps_fd fs)))) \<and>
    (\<forall>f\<in>set fs. \<exists>env' w'. RandomAccessFile_delete os f (env, w) = Some (env', w'))"
proof -
  note ok = files_reach_ok [OF assms]
  have "\<exists>st r env' w'. PosixEnv_NewRandomAccessFile os name (env, w) = Some (st, r, env', w') \<and> (r = None \<longleftrightarrow> \<not> status_ok st) \<and>
      (r = None \<longrightarrow> slots (mmap_limiter env') (length (filter is_mapped fs)) \<and> slots (fd_limiter env') (length (filter keeps_fd fs)))"
    using NewRandomAccessFile_ok [OF ok, of os name w] by (auto simp: new_result_ok_def files_ok_def split: option.splits)
  moreover have "\<forall>f\<in>set fs. \<exists>env' w'. RandomAccessFile_delete os f (env, w) = Some (env', w')"
    using RandomAccessFile_delete_ok [OF ok, of _ os w] by blast
  ultimately show ?thesis using ok by (auto simp: files_ok_def slots_def)
qed

theorem random_access_slots_witness:
  "\<exists>env f w. files_reach memory_posix (env, [f], w) \<and> is_mapped f \<and> acquires_allowed (mmap_limiter env) = 999"
proof -
  obtain e where e: "PosixEnv_new 1000 5 None = Some e" "max_acquires (mmap_limiter e) = 1000"
    by (simp add: PosixEnv_new_def Limiter_new_def MaxMmaps_def MaxOpenFiles_def)
  let ?w = "memory_init\<lparr>mem_files := [[65] \<mapsto> [1, 2]]\<rparr>"
  have "\<exists>st g env' w'. PosixEnv_NewRandomAccessFile memory_posix [65] (e, ?w) = Some (st, Some (Mapped g), env', w') \<and>
      max_acquires (mmap_limiter env') = 1000"
    using e by (auto simp: PosixEnv_NewRandomAccessFile_def PosixEnv_GetFileSize_def mem_simps memory_init_def PosixEnv_new_def Limiter_new_def
        MaxMmaps_def MaxOpenFiles_def Limiter_Acquire_def Limiter_take_def Let_def statuses)
  then obtain st g env' w' where n: "PosixEnv_NewRandomAccessFile memory_posix [65] (e, ?w) = Some (st, Some (Mapped g), env', w')"
    "max_acquires (mmap_limiter env') = 1000" by blast
  have r: "files_reach memory_posix (env', [Mapped g], w')"
    by (rule files_reach.step [OF files_reach.start [OF e(1)] files_step.new [OF n(1)]])
  from random_access_slots [OF r] n(2) have "acquires_allowed (mmap_limiter env') = 999" by simp
  then show ?thesis using r by (metis is_mapped.simps(1))
qed

end
