(* ===== verification/Env_files.thy ===== *)
theory Env_files
  imports Posix_random_access
begin

text \<open>
  \<^verbatim>\<open>include/env.h\<close> and \<^verbatim>\<open>util/env.cc\<close>: the environment as the record of its virtual methods on files and locks, the default
  implementations, the wrapper, and the functions that write and read whole files; then \<^verbatim>\<open>PosixEnv\<close> as an implementation.  \<open>'s\<close> is the
  state of the world, with the objects the environment has created, and \<open>'l\<close> the type of the locks.
\<close>

record 's RandomAccessFile =
  RandomAccessFile_Read :: "u64 \<Rightarrow> nat \<Rightarrow> bytes \<Rightarrow> 's \<Rightarrow> Status \<times> bytes \<times> 's"
  RandomAccessFile_destroy :: "'s \<Rightarrow> 's"

record ('s, 'l) Env =
  NewSequentialFile :: "bytes \<Rightarrow> 's \<Rightarrow> Status \<times> 's SequentialFile option \<times> 's"
  NewRandomAccessFile :: "bytes \<Rightarrow> 's \<Rightarrow> Status \<times> 's RandomAccessFile option \<times> 's"
  NewWritableFile :: "bytes \<Rightarrow> 's \<Rightarrow> Status \<times> 's WritableFile option \<times> 's"
  NewAppendableFile :: "bytes \<Rightarrow> 's \<Rightarrow> Status \<times> 's WritableFile option \<times> 's"
  FileExists :: "bytes \<Rightarrow> 's \<Rightarrow> bool \<times> 's"
  GetChildren :: "bytes \<Rightarrow> 's \<Rightarrow> Status \<times> bytes list \<times> 's"
  RemoveFile :: "bytes \<Rightarrow> 's \<Rightarrow> Status \<times> 's"
  DeleteFile :: "bytes \<Rightarrow> 's \<Rightarrow> Status \<times> 's"
  CreateDir :: "bytes \<Rightarrow> 's \<Rightarrow> Status \<times> 's"
  RemoveDir :: "bytes \<Rightarrow> 's \<Rightarrow> Status \<times> 's"
  DeleteDir :: "bytes \<Rightarrow> 's \<Rightarrow> Status \<times> 's"
  GetFileSize :: "bytes \<Rightarrow> 's \<Rightarrow> Status \<times> u64 \<times> 's"
  RenameFile :: "bytes \<Rightarrow> bytes \<Rightarrow> 's \<Rightarrow> Status \<times> 's"
  LockFile :: "bytes \<Rightarrow> 's \<Rightarrow> Status \<times> 'l option \<times> 's"
  UnlockFile :: "'l \<Rightarrow> 's \<Rightarrow> Status \<times> 's"

section \<open>Defaults\<close>

definition Env_NewAppendableFile :: "bytes \<Rightarrow> 's \<Rightarrow> Status \<times> 's WritableFile option \<times> 's" where
  "Env_NewAppendableFile fname s = (NotSupported (ascii ''NewAppendableFile'') fname, None, s)"

text \<open>
  \<^verbatim>\<open>RemoveFile\<close> and \<^verbatim>\<open>DeleteFile\<close> (and \<^verbatim>\<open>RemoveDir\<close> and \<^verbatim>\<open>DeleteDir\<close>) call each other unless a subclass overrides one of them:
  \<open>mine\<close> and \<open>other\<close> are the overriding methods.
\<close>

partial_function (option) Env_RemoveFile ::
    "(bytes \<Rightarrow> 's \<Rightarrow> Status \<times> 's) option \<Rightarrow> (bytes \<Rightarrow> 's \<Rightarrow> Status \<times> 's) option \<Rightarrow> bytes \<Rightarrow> 's \<Rightarrow> (Status \<times> 's) option" where
  "Env_RemoveFile mine other fname s =
     (case mine of Some m \<Rightarrow> Some (m fname s) | None \<Rightarrow> Env_RemoveFile other mine fname s)"

section \<open>EnvWrapper\<close>

text \<open>The wrapper overrides neither \<^verbatim>\<open>DeleteFile\<close> nor \<^verbatim>\<open>DeleteDir\<close>: their defaults call the \<^verbatim>\<open>Remove\<close> methods.\<close>

definition EnvWrapper :: "('s, 'l) Env \<Rightarrow> ('s, 'l) Env" where
  "EnvWrapper target =
    \<lparr>NewSequentialFile = \<lambda>f. NewSequentialFile target f, NewRandomAccessFile = \<lambda>f. NewRandomAccessFile target f,
     NewWritableFile = \<lambda>f. NewWritableFile target f, NewAppendableFile = \<lambda>f. NewAppendableFile target f, FileExists = \<lambda>f. FileExists target f,
     GetChildren = \<lambda>d. GetChildren target d, RemoveFile = \<lambda>f. RemoveFile target f, DeleteFile = \<lambda>f. RemoveFile target f,
     CreateDir = \<lambda>d. CreateDir target d, RemoveDir = \<lambda>d. RemoveDir target d, DeleteDir = \<lambda>d. RemoveDir target d,
     GetFileSize = \<lambda>f. GetFileSize target f, RenameFile = \<lambda>s t. RenameFile target s t, LockFile = \<lambda>f. LockFile target f,
     UnlockFile = \<lambda>l. UnlockFile target l\<rparr>"

section \<open>Whole files\<close>

text \<open>A null pointer that is dereferenced is \<open>None\<close>.\<close>

definition DoWriteStringToFile :: "('s, 'l) Env \<Rightarrow> bytes \<Rightarrow> bytes \<Rightarrow> bool \<Rightarrow> 's \<Rightarrow> (Status \<times> 's) option" where
  "DoWriteStringToFile env data fname should_sync w =
     (let (s, file, w) = NewWritableFile env fname w in
      if \<not> status_ok s then Some (s, w)
      else do {
        f \<leftarrow> file;
        let (s, w) = WritableFile_Append f data w;
        let (s, w) = (if status_ok s \<and> should_sync then WritableFile_Sync f w else (s, w));
        let (s, w) = (if status_ok s then WritableFile_Close f w else (s, w));
        let w = WritableFile_delete f w;
        let w = (if \<not> status_ok s then snd (RemoveFile env fname w) else w);
        Some (s, w) })"

definition WriteStringToFile :: "('s, 'l) Env \<Rightarrow> bytes \<Rightarrow> bytes \<Rightarrow> 's \<Rightarrow> (Status \<times> 's) option" where
  "WriteStringToFile env data fname = DoWriteStringToFile env data fname False"

definition WriteStringToFileSync :: "('s, 'l) Env \<Rightarrow> bytes \<Rightarrow> bytes \<Rightarrow> 's \<Rightarrow> (Status \<times> 's) option" where
  "WriteStringToFileSync env data fname = DoWriteStringToFile env data fname True"

definition kBufferSize :: nat where "kBufferSize = 8192"

partial_function (option) read_file_loop :: "'s SequentialFile \<Rightarrow> bytes \<Rightarrow> 's \<Rightarrow> (Status \<times> bytes \<times> 's) option" where
  "read_file_loop file data w =
     (case SequentialFile_Read file kBufferSize [] w of
        (s, fragment, w) \<Rightarrow>
          if \<not> status_ok s then Some (s, data, w)
          else if fragment = [] then Some (s, data @ fragment, w)
          else read_file_loop file (data @ fragment) w)"

definition ReadFileToString :: "('s, 'l) Env \<Rightarrow> bytes \<Rightarrow> 's \<Rightarrow> (Status \<times> bytes \<times> 's) option" where
  "ReadFileToString env fname w =
     (let (s, file, w) = NewSequentialFile env fname w in
      if \<not> status_ok s then Some (s, [], w)
      else do {
        f \<leftarrow> file;
        (s, data, w) \<leftarrow> read_file_loop f [] w;
        Some (s, data, SequentialFile_delete f w) })"

section \<open>PosixEnv as an environment\<close>

text \<open>
  The process: the environment, the writable file objects on its heap, and the machine.  Seen through the interface, a method that fails an
  assertion or never returns has no result; that the methods used below do return is part of what is proved.
\<close>

record 'w process =
  pr_env :: PosixEnv
  pr_files :: "nat \<Rightarrow> PosixWritableFile option"
  pr_next :: nat
  pr_machine :: 'w

definition on_machine :: "('w \<Rightarrow> 'r \<times> 'w) \<Rightarrow> 'w process \<Rightarrow> 'r \<times> 'w process" where
  "on_machine m p = (case m (pr_machine p) of (r, w) \<Rightarrow> (r, p\<lparr>pr_machine := w\<rparr>))"

definition on_machine2 :: "('w \<Rightarrow> 'r \<times> 't \<times> 'w) \<Rightarrow> 'w process \<Rightarrow> 'r \<times> 't \<times> 'w process" where
  "on_machine2 m p = (case m (pr_machine p) of (r, t, w) \<Rightarrow> (r, t, p\<lparr>pr_machine := w\<rparr>))"

definition sequential_object :: "'w SequentialFile \<Rightarrow> 'w process SequentialFile" where
  "sequential_object f =
    \<lparr>SequentialFile_Read = \<lambda>n old. on_machine2 (SequentialFile_Read f n old), SequentialFile_Skip = \<lambda>n. on_machine (SequentialFile_Skip f n),
     SequentialFile_delete = \<lambda>p. p\<lparr>pr_machine := SequentialFile_delete f (pr_machine p)\<rparr>\<rparr>"

definition on_file :: "nat \<Rightarrow> (PosixWritableFile \<times> 'w \<Rightarrow> 'r \<times> PosixWritableFile \<times> 'w) \<Rightarrow> 'w process \<Rightarrow> 'r \<times> 'w process" where
  "on_file a m p = (case m (the (pr_files p a), pr_machine p) of (r, f, w) \<Rightarrow> (r, p\<lparr>pr_files := (pr_files p)(a \<mapsto> f), pr_machine := w\<rparr>))"

definition writable_object :: "'w posix \<Rightarrow> nat \<Rightarrow> 'w process WritableFile" where
  "writable_object os a =
    \<lparr>WritableFile_Append = \<lambda>data. on_file a (WritableFile_Append (PosixWritableFile os) data),
     WritableFile_Close = on_file a (WritableFile_Close (PosixWritableFile os)),
     WritableFile_Flush = on_file a (WritableFile_Flush (PosixWritableFile os)),
     WritableFile_Sync = on_file a (WritableFile_Sync (PosixWritableFile os)),
     WritableFile_delete = \<lambda>p. let p = snd (on_file a (\<lambda>s. ((), WritableFile_delete (PosixWritableFile os) s)) p)
       in p\<lparr>pr_files := (pr_files p)(a := None)\<rparr>\<rparr>"

definition new_writable :: "'w posix \<Rightarrow> (Status \<times> PosixWritableFile option \<times> 'w) option \<Rightarrow> 'w process \<Rightarrow>
    Status \<times> 'w process WritableFile option \<times> 'w process" where
  "new_writable os r p =
     (case the r of
        (s, None, w) \<Rightarrow> (s, None, p\<lparr>pr_machine := w\<rparr>)
      | (s, Some f, w) \<Rightarrow>
          (s, Some (writable_object os (pr_next p)), p\<lparr>pr_files := (pr_files p)(pr_next p \<mapsto> f), pr_next := Suc (pr_next p), pr_machine := w\<rparr>))"

definition random_access_object :: "'w posix \<Rightarrow> random_access_file \<Rightarrow> 'w process RandomAccessFile" where
  "random_access_object os f =
    \<lparr>RandomAccessFile_Read = \<lambda>offset n old. on_machine2 (\<lambda>w. case f of
         Opened file \<Rightarrow> the (PosixRandomAccessFile_Read os file offset n old w)
       | Mapped file \<Rightarrow> (case the (PosixMmapReadableFile_Read os file offset (of_nat n)) of (s, result) \<Rightarrow> (s, result, w))),
     RandomAccessFile_destroy = \<lambda>p. case the (RandomAccessFile_delete os f (pr_env p, pr_machine p)) of
       (env, w) \<Rightarrow> p\<lparr>pr_env := env, pr_machine := w\<rparr>\<rparr>"

definition PosixEnv_as_Env :: "'w posix \<Rightarrow> ('w process, PosixFileLock) Env" where
  "PosixEnv_as_Env os =
    \<lparr>NewSequentialFile = \<lambda>f p. (case PosixEnv_NewSequentialFile os f (pr_machine p) of
       (s, r, w) \<Rightarrow> (s, map_option sequential_object r, p\<lparr>pr_machine := w\<rparr>)),
     NewRandomAccessFile = \<lambda>f p. (case the (PosixEnv_NewRandomAccessFile os f (pr_env p, pr_machine p)) of
       (s, r, env, w) \<Rightarrow> (s, map_option (random_access_object os) r, p\<lparr>pr_env := env, pr_machine := w\<rparr>)),
     NewWritableFile = \<lambda>f p. new_writable os (PosixEnv_NewWritableFile os f (pr_machine p)) p,
     NewAppendableFile = \<lambda>f p. new_writable os (PosixEnv_NewAppendableFile os f (pr_machine p)) p,
     FileExists = \<lambda>f. on_machine (PosixEnv_FileExists os f),
     GetChildren = \<lambda>d. on_machine2 (\<lambda>w. the (PosixEnv_GetChildren os d w)),
     RemoveFile = \<lambda>f. on_machine (PosixEnv_RemoveFile os f),
     DeleteFile = \<lambda>f. on_machine (PosixEnv_RemoveFile os f),
     CreateDir = \<lambda>d. on_machine (PosixEnv_CreateDir os d),
     RemoveDir = \<lambda>d. on_machine (PosixEnv_RemoveDir os d),
     DeleteDir = \<lambda>d. on_machine (PosixEnv_RemoveDir os d),
     GetFileSize = \<lambda>f. on_machine2 (PosixEnv_GetFileSize os f),
     RenameFile = \<lambda>s t. on_machine (PosixEnv_RenameFile os s t),
     LockFile = \<lambda>f p. (case PosixEnv_LockFile os f (pr_env p, pr_machine p) of
       (s, l, env, w) \<Rightarrow> (s, l, p\<lparr>pr_env := env, pr_machine := w\<rparr>)),
     UnlockFile = \<lambda>l p. (case PosixEnv_UnlockFile os l (pr_env p, pr_machine p) of
       (s, env, w) \<Rightarrow> (s, p\<lparr>pr_env := env, pr_machine := w\<rparr>))\<rparr>"

section \<open>Properties\<close>

text \<open>The default methods return exactly if one of the two is overridden, and then it is called.\<close>

lemma Env_RemoveFile_overridden:
  assumes "Env_RemoveFile mine other fname s = Some r"
  shows "mine \<noteq> None \<or> other \<noteq> None"
proof (rule Env_RemoveFile.raw_induct [where P = "\<lambda>mine other fname s r. mine \<noteq> None \<or> other \<noteq> None", OF _ assms])
  fix rec :: "(bytes \<Rightarrow> 'a \<Rightarrow> Status \<times> 'a) option \<Rightarrow> (bytes \<Rightarrow> 'a \<Rightarrow> Status \<times> 'a) option \<Rightarrow> bytes \<Rightarrow> 'a \<Rightarrow> (Status \<times> 'a) option"
    and mine other fname s r
  assume ih: "\<And>mine other fname s r. rec mine other fname s = Some r \<Longrightarrow> mine \<noteq> None \<or> other \<noteq> None"
    and r: "(case mine of None \<Rightarrow> rec other mine fname s | Some m \<Rightarrow> Some (m fname s)) = Some r"
  show "mine \<noteq> None \<or> other \<noteq> None"
  proof (cases mine)
    case None
    with r have "rec other mine fname s = Some r" by simp
    from ih [OF this] show ?thesis by blast
  qed simp
qed

lemma Env_RemoveFile_default:
  "Env_RemoveFile mine other fname s =
    (case mine of Some m \<Rightarrow> Some (m fname s) | None \<Rightarrow> map_option (\<lambda>m. m fname s) other)"
proof (cases mine)
  case None
  show ?thesis
  proof (cases other)
    case None
    then show ?thesis using \<open>mine = None\<close> Env_RemoveFile_overridden [of mine other fname s] by (cases "Env_RemoveFile mine other fname s") auto
  next
    case (Some m)
    have "Env_RemoveFile None (Some m) fname s = Env_RemoveFile (Some m) None fname s" by (subst Env_RemoveFile.simps) simp
    also have "\<dots> = Some (m fname s)" by (subst Env_RemoveFile.simps) simp
    finally show ?thesis using None Some by simp
  qed
next
  case (Some m)
  then show ?thesis by (subst Env_RemoveFile.simps) simp
qed

lemma Append_keeps:
  assumes "PosixWritableFile_Append os d (f, w) = Some (st, f', w')"
  shows "is_manifest f' = is_manifest f"
  using assms
  by (auto simp: PosixWritableFile_Append_def FlushBuffer_def Let_def Option.bind_eq_Some_conv split: if_splits)

text \<open>Closing and syncing a file in good order.\<close>

lemma Close_ok:
  assumes "regular_write os fd content opened signals" "file_usable fd opened s"
    and "\<And>w. opened w \<Longrightarrow> \<exists>w'. sys_close os fd w = (Inr (), w') \<and> content w' = content w \<and> kept w'"
  shows "\<exists>f w. PosixWritableFile_Close os s = Some (OK, f, w) \<and> pw_fd f = None \<and> content w = file_content content s \<and> kept w"
proof -
  obtain f w where f: "FlushBuffer os s = Some (OK, f, w)" "file_usable fd opened (f, w)" "content w = file_content content s"
    using FlushBuffer_ok [OF assms(1,2)] by auto
  obtain w' where "sys_close os fd w = (Inr (), w')" "content w' = content w" "kept w'" using assms(3) f(2) by (auto simp: file_usable_def)
  then show ?thesis using f by (auto simp: PosixWritableFile_Close_def file_usable_def)
qed

lemma Sync_ok:
  assumes "regular_write os fd content opened signals" "file_usable fd opened (f, w)" "\<not> is_manifest f"
    and "\<And>w. opened w \<Longrightarrow> \<exists>w'. sys_fsync os fd w = (Inr (), w') \<and> opened w' \<and> content w' = content w"
  shows "\<exists>s'. PosixWritableFile_Sync os (f, w) = Some (OK, s') \<and> file_usable fd opened s' \<and> file_content content s' = file_content content (f, w)"
proof -
  obtain f1 w1 where f: "FlushBuffer os (f, w) = Some (OK, f1, w1)" "file_usable fd opened (f1, w1)" "pw_buf f1 = []"
    "content w1 = file_content content (f, w)"
    using FlushBuffer_ok [OF assms(1,2)] by auto
  obtain w2 where "sys_fsync os fd w1 = (Inr (), w2)" "opened w2" "content w2 = content w1"
    using assms(4) f(2) by (auto simp: file_usable_def)
  then show ?thesis using f assms(3) statuses(1)
    by (auto simp: PosixWritableFile_Sync_def SyncDirIfManifest_def SyncFd_def file_usable_def file_content_def)
qed

lemma regular_filesD:
  assumes "regular_files os content writing reading rest signals"
  shows "\<exists>fd w'. sys_open os name Truncate w = (Inr fd, w') \<and> writing fd name w' \<and> content w' name = Some []"
    and "content w name = Some c \<Longrightarrow> \<exists>fd w'. sys_open os name Read_only w = (Inr fd, w') \<and> reading fd w' \<and> rest fd w' = c"
    and "regular_write os fd (\<lambda>w. the (content w name)) (\<lambda>w. writing fd name w \<and> content w name \<noteq> None) signals"
    and "regular_read os fd (rest fd) (reading fd) signals"
    and "writing fd name w \<Longrightarrow> \<exists>w'. sys_fsync os fd w = (Inr (), w') \<and> writing fd name w' \<and> content w' = content w"
    and "writing fd name w \<Longrightarrow> \<exists>w'. sys_close os fd w = (Inr (), w') \<and> content w' = content w"
  using assms unfolding regular_files_def by blast+

lemma write_whole_file:
  assumes reg: "regular_files os content writing reading rest signals" and man: "sync \<longrightarrow> IsManifest fname = Some False"
  shows "\<exists>p1. DoWriteStringToFile (PosixEnv_as_Env os) data fname sync p = Some (OK, p1) \<and> content (pr_machine p1) fname = Some data"
proof -
  let ?c = "\<lambda>w. the (content w fname)"
  note r = regular_filesD [OF reg]
  obtain fd w0 where o: "sys_open os fname Truncate (pr_machine p) = (Inr fd, w0)" "writing fd fname w0" "content w0 fname = Some []"
    using r(1) by blast
  let ?u = "\<lambda>w. writing fd fname w \<and> content w fname \<noteq> None"
  obtain f where f: "PosixWritableFile_new fname fd = Some f" "pw_buf f = []" "pw_fd f = Some fd" using PosixWritableFile_new_ok by blast
  have m: "sync \<longrightarrow> \<not> is_manifest f" using man f(1) by (auto simp: PosixWritableFile_new_def Option.bind_eq_Some_conv)
  have u0: "file_usable fd ?u (f, w0)" using f o by (simp add: file_usable_def)
  obtain f1 w1 where a: "PosixWritableFile_Append os data (f, w0) = Some (OK, f1, w1)" "file_usable fd ?u (f1, w1)"
    "file_content ?c (f1, w1) = data"
    using Append_ok [OF r(3) u0, of data] f(2) o(3) by (auto simp: file_content_def)
  have "\<exists>w'. sys_fsync os fd w = (Inr (), w') \<and> ?u w' \<and> ?c w' = ?c w" if "?u w" for w using r(5) [of fd fname w] that by auto
  then obtain f2 w2 where b: "(if sync then PosixWritableFile_Sync os (f1, w1) else Some (OK, f1, w1)) = Some (OK, f2, w2)"
    "file_usable fd ?u (f2, w2)" "file_content ?c (f2, w2) = data"
    using Sync_ok [OF r(3) a(2)] a Append_keeps [OF a(1)] m by (cases sync) auto
  have "\<exists>w'. sys_close os fd w = (Inr (), w') \<and> ?c w' = ?c w \<and> content w' fname \<noteq> None" if "?u w" for w
    using r(6) [of fd fname w] that by auto
  then obtain f3 w3 where c: "PosixWritableFile_Close os (f2, w2) = Some (OK, f3, w3)" "pw_fd f3 = None" "content w3 fname = Some data"
    using Close_ok [OF r(3) b(2), where kept = "\<lambda>w. content w fname \<noteq> None"] b(3) by auto
  show ?thesis
    using o(1) f(1) a(1) b(1) c statuses(1)
    by (cases sync) (simp_all add: DoWriteStringToFile_def PosixEnv_as_Env_def new_writable_def PosixEnv_NewWritableFile_def
        open_writable_def writable_object_def on_file_def PosixWritableFile_def PosixWritableFile_destroy_def Let_def)
qed

lemma read_whole_file:
  assumes reads: "\<And>s n old. ready s \<Longrightarrow>
      \<exists>s'. SequentialFile_Read f n old s = (OK, take n (rest s), s') \<and> rest s' = drop n (rest s) \<and> ready s'"
    and "ready s"
  shows "\<exists>s'. read_file_loop f data s = Some (OK, data @ rest s, s')"
  using assms(2)
proof (induction "length (rest s)" arbitrary: s data rule: less_induct)
  case less
  from reads [OF less.prems, of kBufferSize "[]"] obtain s1 where
    s1: "SequentialFile_Read f kBufferSize [] s = (OK, take kBufferSize (rest s), s1)" "rest s1 = drop kBufferSize (rest s)" "ready s1" by blast
  show ?case
  proof (cases "rest s = []")
    case True
    then show ?thesis using s1 statuses(1) by (subst read_file_loop.simps) simp
  next
    case False
    then have "length (rest s1) < length (rest s)" "take kBufferSize (rest s) \<noteq> []" using s1(2) by (simp_all add: kBufferSize_def)
    from less.hyps [OF this(1) s1(3), of "data @ take kBufferSize (rest s)"] this(2) s1 statuses(1)
    show ?thesis by (subst read_file_loop.simps) simp
  qed
qed

lemma read_posix_file:
  assumes reg: "regular_files os content writing reading rest signals" and c: "content (pr_machine p) fname = Some data"
  shows "\<exists>p1. ReadFileToString (PosixEnv_as_Env os) fname p = Some (OK, data, p1)"
proof -
  note r = regular_filesD [OF reg]
  obtain fd w0 where o: "sys_open os fname Read_only (pr_machine p) = (Inr fd, w0)" "reading fd w0" "rest fd w0 = data"
    using r(2) [OF c] by blast
  let ?f = "sequential_object (PosixSequentialFile os fd fname)"
  have "\<exists>s'. SequentialFile_Read ?f n old s = (OK, take n (rest fd (pr_machine s)), s') \<and>
      rest fd (pr_machine s') = drop n (rest fd (pr_machine s)) \<and> reading fd (pr_machine s')" if "reading fd (pr_machine s)" for s n old
    using seq_read_loop_ok [OF r(4) [of fd] that, of fname n old]
    by (auto simp: sequential_object_def PosixSequentialFile_def on_machine2_def)
  from read_whole_file [where ready = "\<lambda>s. reading fd (pr_machine s)" and rest = "\<lambda>s. rest fd (pr_machine s)", OF this, of "p\<lparr>pr_machine := w0\<rparr>" "[]"]
  obtain s' where "read_file_loop ?f [] (p\<lparr>pr_machine := w0\<rparr>) = Some (OK, data, s')" using o by auto
  then show ?thesis using o(1) statuses(1)
    by (simp add: ReadFileToString_def PosixEnv_as_Env_def PosixEnv_NewSequentialFile_def)
qed

lemma EnvWrapper_methods: "NewWritableFile (EnvWrapper e) = NewWritableFile e" "RemoveFile (EnvWrapper e) = RemoveFile e"
  "NewSequentialFile (EnvWrapper e) = NewSequentialFile e"
  by (simp_all add: EnvWrapper_def)


definition memory_process :: "memory process" where
  "memory_process = \<lparr>pr_env = \<lparr>locks = {}, mmap_limiter = \<lparr>max_acquires = 0, acquires_allowed = 0\<rparr>,
      fd_limiter = \<lparr>max_acquires = 0, acquires_allowed = 0\<rparr>\<rparr>, pr_files = Map.empty, pr_next = 0, pr_machine = memory_init\<rparr>"


end
