(* ===== verification/Posix_logger.thy ===== *)
theory Posix_logger
  imports Posix_env
begin

text \<open>
  \<^verbatim>\<open>util/posix_logger.h\<close> with \<^verbatim>\<open>PosixEnv::NewLogger\<close>, and \<^verbatim>\<open>Log\<close> of \<^verbatim>\<open>util/env.cc\<close>.  \<open>msg\<close> is the text that the format and the arguments
  of a call print.  The buffers are arrays with arbitrary initial contents: a write outside of them, an overflow of an
  \<^verbatim>\<open>int\<close> and a failed assertion are \<open>None\<close>.
\<close>

section \<open>Printing into a buffer\<close>

definition write_at :: "nat \<Rightarrow> bytes \<Rightarrow> bytes \<Rightarrow> bytes option" where
  "write_at off data buf = (if off + length data \<le> length buf then Some (take off buf @ data @ drop (off + length data) buf) else None)"

text \<open>\<^verbatim>\<open>snprintf(buf + off, n, \<dots>)\<close>: at most \<open>n - 1\<close> characters and a final zero; the result is the length of the whole text.\<close>

definition snprintf_at :: "nat \<Rightarrow> nat \<Rightarrow> bytes \<Rightarrow> bytes \<Rightarrow> (nat \<times> bytes) option" where
  "snprintf_at off n txt buf =
     (if n = 0 then Some (length txt, buf) else map_option (Pair (length txt)) (write_at off (take (n - 1) txt @ [0]) buf))"

definition int_ok :: "nat \<Rightarrow> bool" where
  "int_ok n \<longleftrightarrow> n < 2 ^ 31"

text \<open>\<^verbatim>\<open>%0<w>d\<close>\<close>

definition zero_padded :: "nat \<Rightarrow> int \<Rightarrow> bytes" where
  "zero_padded w i =
     (if i < 0 then ascii ''-'' @ replicate (w - 1 - length (decimal (nat (- i)))) 48 @ decimal (nat (- i))
      else replicate (w - length (decimal (nat i))) 48 @ decimal (nat i))"

section \<open>PosixLogger\<close>

record tm =
  tm_year :: int
  tm_mon :: int
  tm_mday :: int
  tm_hour :: int
  tm_min :: int
  tm_sec :: int

definition kMaxThreadIdSize :: nat where "kMaxThreadIdSize = 32"

definition kStackBufferSize :: nat where "kStackBufferSize = 512"

definition Logv_header :: "tm \<Rightarrow> int \<Rightarrow> bytes \<Rightarrow> bytes" where
  "Logv_header now tv_usec thread_id =
     zero_padded 4 (tm_year now + 1900) @ ascii ''/'' @ zero_padded 2 (tm_mon now + 1) @ ascii ''/'' @ zero_padded 2 (tm_mday now) @
     ascii ''-'' @ zero_padded 2 (tm_hour now) @ ascii '':'' @ zero_padded 2 (tm_min now) @ ascii '':'' @ zero_padded 2 (tm_sec now) @
     ascii ''.'' @ zero_padded 6 tv_usec @ ascii '' '' @ thread_id @ ascii '' ''"

text \<open>One iteration of the loop over a buffer: \<open>Inl\<close> the size of the buffer to try again with, or \<open>Inr\<close> the bytes to write.\<close>

definition Logv_iteration :: "nat \<Rightarrow> bytes \<Rightarrow> bytes \<Rightarrow> bytes \<Rightarrow> (nat + bytes) option" where
  "Logv_iteration iteration header msg buf =
     (let buffer_size = length buf in
      do {
        (buffer_offset, buf) \<leftarrow> snprintf_at 0 buffer_size header buf;
        if \<not> (buffer_offset \<le> 28 + kMaxThreadIdSize \<and> buffer_offset < buffer_size) then None
        else do {
          (n, buf) \<leftarrow> snprintf_at buffer_offset (buffer_size - buffer_offset) msg buf;
          let buffer_offset = buffer_offset + n;
          if \<not> int_ok buffer_offset then None
          else if buffer_offset \<ge> buffer_size - 1
          then if iteration = 0 \<and> int_ok (buffer_offset + 2) then Some (Inl (buffer_offset + 2)) else None
          else if buffer_offset = 0 then None
          else do {
            (buffer_offset, buf) \<leftarrow>
              (if buf ! (buffer_offset - 1) \<noteq> 10
               then map_option (Pair (buffer_offset + 1)) (write_at buffer_offset [10] buf)
               else Some (buffer_offset, buf));
            if buffer_offset \<le> buffer_size then Some (Inr (take buffer_offset buf)) else None } } })"

text \<open>\<open>junk n\<close> are the initial contents of a buffer of size \<open>n\<close>.\<close>

definition PosixLogger_Logv ::
    "'w posix \<Rightarrow> nat \<Rightarrow> (nat \<Rightarrow> bytes) \<Rightarrow> tm \<Rightarrow> int \<Rightarrow> bytes \<Rightarrow> bytes \<Rightarrow> 'w \<Rightarrow> 'w option" where
  "PosixLogger_Logv os fp junk now tv_usec thread_id msg w =
     (let thread_id = (if length thread_id > kMaxThreadIdSize then take kMaxThreadIdSize thread_id else thread_id);
          header = Logv_header now tv_usec thread_id
      in do {
        r \<leftarrow> Logv_iteration 0 header msg (junk kStackBufferSize);
        r \<leftarrow> (case r of Inl dynamic_buffer_size \<Rightarrow> Logv_iteration 1 header msg (junk dynamic_buffer_size) | Inr out \<Rightarrow> Some (Inr out));
        case r of Inl _ \<Rightarrow> None | Inr out \<Rightarrow> Some (sys_fflush os fp (sys_fwrite os fp out w)) })"

definition PosixLogger_destroy :: "'w posix \<Rightarrow> nat \<Rightarrow> 'w \<Rightarrow> 'w" where
  "PosixLogger_destroy os fp w = sys_fclose os fp w"

text \<open>\<^verbatim>\<open>Log\<close> does nothing without a logger.\<close>

definition Log :: "('m \<Rightarrow> 'w \<Rightarrow> 'w option) option \<Rightarrow> 'm \<Rightarrow> 'w \<Rightarrow> 'w option" where
  "Log info_log msg w = (case info_log of None \<Rightarrow> Some w | Some Logv \<Rightarrow> Logv msg w)"

text \<open>\<^verbatim>\<open>errno\<close> is read after the \<^verbatim>\<open>close\<close>: if that fails too, its error is the one reported.\<close>

definition PosixEnv_NewLogger :: "'w posix \<Rightarrow> bytes \<Rightarrow> 'w \<Rightarrow> Status \<times> nat option \<times> 'w" where
  "PosixEnv_NewLogger os filename w =
     (case sys_open os filename Append_to w of
        (Inl e, w) \<Rightarrow> (PosixError os filename e, None, w)
      | (Inr fd, w) \<Rightarrow>
          (case sys_fdopen os fd w of
             (Inl e, w) \<Rightarrow>
               let (r, w) = sys_close os fd w; e = (case r of Inl e' \<Rightarrow> e' | Inr _ \<Rightarrow> e) in (PosixError os filename e, None, w)
           | (Inr fp, w) \<Rightarrow> (OK, Some fp, w)))"

section \<open>Properties\<close>

lemma decimal_unfold: "n < 10 \<Longrightarrow> decimal n = [of_nat (48 + n)]"
  "\<not> n < 10 \<Longrightarrow> decimal n = decimal (n div 10) @ [of_nat (48 + n mod 10)]"
  by (subst decimal.simps, simp)+

lemma length_decimal: "n < 10 ^ k \<Longrightarrow> 0 < k \<Longrightarrow> length (decimal n) \<le> k"
proof (induction n arbitrary: k rule: decimal.induct)
  case (1 n)
  show ?case
  proof (cases "n < 10")
    case True
    then show ?thesis using 1(3) by (subst decimal.simps) simp
  next
    case False
    then obtain m where k: "k = Suc m" "0 < m" using 1(2,3) by (cases k; cases "k - 1") auto
    then have "n div 10 < 10 ^ m" using 1(2) by (simp add: less_mult_imp_div_less mult.commute)
    then show ?thesis using 1(1) [OF False _ k(2)] False k(1) by (subst decimal.simps) simp
  qed
qed

lemma length_zero_padded: "0 \<le> i \<Longrightarrow> i < 10 ^ w \<Longrightarrow> 0 < w \<Longrightarrow> length (zero_padded w i) = w"
  using length_decimal [of "nat i" w] by (simp add: zero_padded_def nat_less_iff)

text \<open>The ranges of the fields of \<^verbatim>\<open>struct tm\<close> and \<^verbatim>\<open>struct timeval\<close>, up to the year 9999.\<close>

definition time_ok :: "tm \<Rightarrow> int \<Rightarrow> bool" where
  "time_ok now tv_usec \<longleftrightarrow> - 1900 \<le> tm_year now \<and> tm_year now \<le> 8099 \<and> tm_mon now \<in> {0..11} \<and> tm_mday now \<in> {1..31} \<and>
     tm_hour now \<in> {0..23} \<and> tm_min now \<in> {0..59} \<and> tm_sec now \<in> {0..60} \<and> tv_usec \<in> {0..999999}"

lemma length_header:
  assumes "time_ok now tv_usec"
  shows "length (Logv_header now tv_usec thread_id) = 28 + length thread_id"
  using assms by (simp add: Logv_header_def time_ok_def length_zero_padded ascii_def)

lemma snprintf_fits:
  assumes "length buf = n" "off + length txt < n"
  shows "\<exists>buf'. snprintf_at off (n - off) txt buf = Some (length txt, buf') \<and> length buf' = n \<and>
    take (off + length txt) buf' = take off buf @ txt"
  using assms by (auto simp: snprintf_at_def write_at_def)

lemma snprintf_cut:
  assumes "length buf = n" "off < n"
  shows "\<exists>buf'. snprintf_at off (n - off) txt buf = Some (length txt, buf') \<and> length buf' = n \<and> take off buf' = take off buf"
  using assms by (auto simp: snprintf_at_def write_at_def)

definition logged :: "bytes \<Rightarrow> bytes" where
  "logged txt = (if last txt = 10 then txt else txt @ [10])"

lemma Logv_iteration_fits:
  assumes "header \<noteq> []" "length header \<le> 60" "length header + length msg + 1 < length buf" "length header + length msg < 2 ^ 31"
  shows "Logv_iteration i header msg buf = Some (Inr (logged (header @ msg)))"
proof -
  let ?h = "length header" and ?n = "length buf" and ?t = "header @ msg"
  obtain b1 where b1: "snprintf_at 0 ?n header buf = Some (?h, b1)" "length b1 = ?n" "take ?h b1 = header"
    using snprintf_fits [of buf ?n 0 header] assms(3) by auto
  obtain b2 where b2: "snprintf_at ?h (?n - ?h) msg b1 = Some (length msg, b2)" "length b2 = ?n" "take (?h + length msg) b2 = ?t"
    using snprintf_fits [OF b1(2), of ?h msg] b1(3) assms(3) by auto
  have ne: "?t \<noteq> []" using assms(1) by simp
  have last: "b2 ! (?h + length msg - 1) = last ?t"
    using arg_cong [OF b2(3), of "\<lambda>xs. xs ! (?h + length msg - 1)"] ne by (simp add: last_conv_nth nth_take)
  show ?thesis
    using assms b1(1) b2 last
    by (auto simp: Logv_iteration_def Let_def kMaxThreadIdSize_def int_ok_def logged_def write_at_def)
qed

lemma Logv_iteration_too_long:
  assumes "length header \<le> 60" "length header < length buf" "length buf \<le> length header + length msg + 1"
    "length header + length msg + 2 < 2 ^ 31"
  shows "Logv_iteration 0 header msg buf = Some (Inl (length header + length msg + 2))"
proof -
  let ?h = "length header" and ?n = "length buf"
  obtain b1 where b1: "snprintf_at 0 ?n header buf = Some (?h, b1)" "length b1 = ?n"
    using snprintf_fits [of buf ?n 0 header] assms(2) by auto
  obtain b2 where b2: "snprintf_at ?h (?n - ?h) msg b1 = Some (length msg, b2)"
    using snprintf_cut [OF b1(2) assms(2), of msg] by auto
  have "?n - 1 \<le> ?h + length msg" using assms(3) by simp
  then show ?thesis using assms b1(1) b2 by (simp add: Logv_iteration_def Let_def kMaxThreadIdSize_def int_ok_def)
qed

text \<open>C34. A log message of any length reaches the stream in one piece and in full: the header, the message and a newline, unless the
  message ends with one.  The stack buffer or, for a longer text, the buffer allocated in the second round always suffices, and no
  assertion fails.\<close>

theorem logv_output:
  assumes "time_ok now tv_usec" "\<And>n. length (junk n) = n" "length msg + 62 < 2 ^ 31"
  shows "PosixLogger_Logv os fp junk now tv_usec thread_id msg w =
    Some (sys_fflush os fp (sys_fwrite os fp (logged (Logv_header now tv_usec (take 32 thread_id) @ msg)) w))"
proof -
  let ?h = "Logv_header now tv_usec (take 32 thread_id)"
  have l: "length ?h = 28 + min (length thread_id) 32" using length_header [OF assms(1)] by simp
  then have h: "?h \<noteq> []" "length ?h \<le> 60" by auto
  have tid: "(if length thread_id > kMaxThreadIdSize then take kMaxThreadIdSize thread_id else thread_id) = take 32 thread_id"
    by (simp add: kMaxThreadIdSize_def)
  show ?thesis
  proof (cases "length ?h + length msg + 1 < 512")
    case True
    then have "Logv_iteration 0 ?h msg (junk kStackBufferSize) = Some (Inr (logged (?h @ msg)))"
      using assms(2,3) h by (intro Logv_iteration_fits) (simp_all add: kStackBufferSize_def)
    then show ?thesis unfolding PosixLogger_Logv_def tid by (simp add: Let_def)
  next
    case False
    define n where "n = length ?h + length msg + 2"
    have 1: "Logv_iteration 0 ?h msg (junk kStackBufferSize) = Some (Inl n)"
      using False assms(2,3) h unfolding n_def by (intro Logv_iteration_too_long) (simp_all add: kStackBufferSize_def)
    have 2: "Logv_iteration 1 ?h msg (junk n) = Some (Inr (logged (?h @ msg)))"
      using assms(2,3) h by (intro Logv_iteration_fits) (simp_all add: n_def)
    show ?thesis unfolding PosixLogger_Logv_def tid using 1 2 by (simp add: Let_def)
  qed
qed

theorem logv_output_witness:
  "\<exists>w. PosixLogger_Logv memory_posix 3 (\<lambda>n. replicate n 0)
      \<lparr>tm_year = 121, tm_mon = 6, tm_mday = 5, tm_hour = 4, tm_min = 3, tm_sec = 2\<rparr> 1 [49] [104, 105]
      (memory_init\<lparr>mem_files := [[65] \<mapsto> []], mem_fds := [3 \<mapsto> ([65], 0)]\<rparr>) = Some w \<and>
    mem_files w [65] = Some (ascii ''2021/07/05-04:03:02.000001 1 hi'' @ [10])"
proof -
  let ?now = "\<lparr>tm_year = 121, tm_mon = 6, tm_mday = 5, tm_hour = 4, tm_min = 3, tm_sec = 2\<rparr>"
  have r5: "replicate 5 (48 :: u8) = [48, 48, 48, 48, 48]" by (simp add: numeral_eq_Suc)
  have "Logv_header ?now 1 [49] = ascii ''2021/07/05-04:03:02.000001 1 ''"
    by (simp add: Logv_header_def zero_padded_def decimal_unfold ascii_def numeral_2_eq_2 r5)
  then have "logged (Logv_header ?now 1 (take 32 [49]) @ [104, 105]) = ascii ''2021/07/05-04:03:02.000001 1 hi'' @ [10]"
    by (simp add: logged_def ascii_def)
  moreover have "time_ok ?now 1" by (simp add: time_ok_def)
  ultimately show ?thesis
    using logv_output [of ?now 1 "\<lambda>n. replicate n 0" "[104, 105]" memory_posix 3 "[49]"
        "memory_init\<lparr>mem_files := [[65] \<mapsto> []], mem_fds := [3 \<mapsto> ([65], 0)]\<rparr>"]
    by (simp add: memory_posix_def mem_on_fd_def)
qed

end
