(* ===== verification/Env_services.thy ===== *)
theory Env_services
  imports Env_files Posix_logger
begin

text \<open>
  The rest of \<^verbatim>\<open>include/env.h\<close>: the virtual methods of \<^verbatim>\<open>Env\<close> that are not about files (threads, time, logging, the directory for tests),
  as an extension of the record of the file methods, the class \<^verbatim>\<open>Logger\<close>, and \<^verbatim>\<open>EnvWrapper\<close> for all methods.  \<open>'m\<close> are the arguments of a
  message, \<open>'j\<close> a function together with its argument.
\<close>

record ('s, 'm) Logger =
  Logger_Logv :: "'m \<Rightarrow> 's \<Rightarrow> 's option"
  Logger_delete :: "'s \<Rightarrow> 's"

record ('s, 'l, 'm, 'j) Env_services = "('s, 'l) Env" +
  Env_Schedule :: "'j \<Rightarrow> 's \<Rightarrow> 's"
  Env_StartThread :: "'j \<Rightarrow> 's \<Rightarrow> 's"
  Env_GetTestDirectory :: "'s \<Rightarrow> Status \<times> bytes \<times> 's"
  Env_NewLogger :: "bytes \<Rightarrow> 's \<Rightarrow> Status \<times> ('s, 'm) Logger option \<times> 's"
  Env_NowMicros :: "'s \<Rightarrow> u64 \<times> 's"
  Env_SleepForMicroseconds :: "int \<Rightarrow> 's \<Rightarrow> 's"

definition EnvWrapper_services :: "('s, 'l, 'm, 'j) Env_services \<Rightarrow> ('s, 'l, 'm, 'j) Env_services" where
  "EnvWrapper_services target =
     Env.extend (EnvWrapper (Env.truncate target))
       (Env_services.fields (\<lambda>j. Env_Schedule target j) (\<lambda>j. Env_StartThread target j) (\<lambda>s. Env_GetTestDirectory target s)
          (\<lambda>f. Env_NewLogger target f) (\<lambda>s. Env_NowMicros target s) (\<lambda>n. Env_SleepForMicroseconds target n))"

text \<open>The logger that \<^verbatim>\<open>PosixEnv::NewLogger\<close> returns; the clock, the thread and the memory of the buffers are arguments.\<close>

definition PosixLogger :: "'w posix \<Rightarrow> nat \<Rightarrow> (nat \<Rightarrow> bytes) \<Rightarrow> tm \<Rightarrow> int \<Rightarrow> bytes \<Rightarrow> ('w, bytes) Logger" where
  "PosixLogger os fp junk now tv_usec thread_id =
    \<lparr>Logger_Logv = PosixLogger_Logv os fp junk now tv_usec thread_id, Logger_delete = PosixLogger_destroy os fp\<rparr>"

section \<open>Lemmas\<close>

lemma EnvWrapper_services_simps [simp]:
  "Env_Schedule (EnvWrapper_services e) = Env_Schedule e" "Env_StartThread (EnvWrapper_services e) = Env_StartThread e"
  "Env_GetTestDirectory (EnvWrapper_services e) = Env_GetTestDirectory e" "Env_NewLogger (EnvWrapper_services e) = Env_NewLogger e"
  "Env_NowMicros (EnvWrapper_services e) = Env_NowMicros e" "Env_SleepForMicroseconds (EnvWrapper_services e) = Env_SleepForMicroseconds e"
  "NewWritableFile (EnvWrapper_services e) = NewWritableFile e" "NewSequentialFile (EnvWrapper_services e) = NewSequentialFile e"
  "RemoveFile (EnvWrapper_services e) = RemoveFile e" "DeleteFile (EnvWrapper_services e) = RemoveFile e"
  by (simp_all add: EnvWrapper_services_def EnvWrapper_def Env.defs Env_services.defs)

text \<open>Wrappers do not pile up: wrapping a wrapper changes nothing any more.\<close>

theorem wrapper_idempotent: "EnvWrapper_services (EnvWrapper_services e) = EnvWrapper_services e"
  by (simp add: EnvWrapper_services_def EnvWrapper_def Env.defs Env_services.defs)

text \<open>\<^verbatim>\<open>Log\<close> through the interface: one call of the virtual method, or nothing for a null pointer.\<close>

theorem log_interface:
  "Log (map_option Logger_Logv (Some (PosixLogger os fp junk now tv_usec thread_id))) msg w = PosixLogger_Logv os fp junk now tv_usec thread_id msg w"
  "Log (map_option Logger_Logv None) msg w = Some w"
  by (simp_all add: Log_def PosixLogger_def)

end
