(* ===== verification/Posix_faults.thy ===== *)
theory Posix_faults
  imports Posix_writable "HOL-Library.Sublist"
begin

text \<open>
  \<^verbatim>\<open>PosixWritableFile\<close> of \<^verbatim>\<open>util/env_posix.cc\<close> on a system whose calls fail: a full disk, a quota, a device error.  Any call of \<^verbatim>\<open>write\<close> may
  report any error; the only promises are that a successful call appends the bytes it reports, that a failing one appends nothing,
  and that the call is not interrupted forever.
\<close>

definition failing_write :: "'w posix \<Rightarrow> nat \<Rightarrow> ('w \<Rightarrow> bytes) \<Rightarrow> ('w \<Rightarrow> bool) \<Rightarrow> ('w \<Rightarrow> nat) \<Rightarrow> bool" where
  "failing_write os fd content opened signals \<longleftrightarrow> (\<forall>data w. opened w \<and> data \<noteq> [] \<longrightarrow>
     (\<exists>n w'. sys_write os fd data w = (Inr n, w') \<and> 0 < n \<and> n \<le> length data \<and> content w' = content w @ take n data \<and> opened w') \<or>
     (\<exists>e w'. sys_write os fd data w = (Inl e, w') \<and> content w' = content w \<and> opened w' \<and> (e = EINTR \<longrightarrow> signals w' < signals w)))"

text \<open>The file grew from \<open>before\<close> to \<open>now\<close>: to all of \<open>full\<close> if the status is OK, and otherwise to a proper prefix of it.\<close>

definition grown :: "Status \<Rightarrow> bytes \<Rightarrow> bytes \<Rightarrow> bytes \<Rightarrow> bool" where
  "grown st before now full \<longleftrightarrow> prefix before now \<and> (if status_ok st then now = full else strict_prefix now full)"

lemma status_ok_OK [simp]: "status_ok OK"
  by (simp add: status_ok_def OK_def)

lemma strict_prefix_append: "strict_prefix xs ys \<Longrightarrow> strict_prefix xs (ys @ zs)"
  by (metis prefixI prefix_order.less_le_trans)

lemma grown_later: "grown st b n full \<Longrightarrow> \<not> status_ok st \<Longrightarrow> grown st b n (full @ ys)"
  by (simp add: grown_def strict_prefix_append)

lemma grown_trans: "prefix a b \<Longrightarrow> grown st b n full \<Longrightarrow> grown st a n full"
  by (auto simp: grown_def dest: prefix_order.trans)

lemma WriteUnbuffered_grown:
  assumes "failing_write os fd content opened signals" "opened w"
  shows "\<exists>st w'. WriteUnbuffered os (Some fd) filename data w = Some (st, w') \<and> opened w' \<and> grown st (content w) (content w') (content w @ data)"
  using assms(2)
proof (induction "(length data, signals w)" arbitrary: data w rule: wf_induct_rule [OF wf_lex_prod [OF wf_less_than wf_less_than]])
  case 1
  show ?case
  proof (cases "data = []")
    case True
    then show ?thesis using "1.prems" by (subst WriteUnbuffered.simps) (simp add: grown_def)
  next
    case False
    with assms(1) "1.prems" consider
      (some) n w' where "sys_write os fd data w = (Inr n, w')" "0 < n" "n \<le> length data" "content w' = content w @ take n data" "opened w'"
    | (intr) w' where "sys_write os fd data w = (Inl EINTR, w')" "content w' = content w" "opened w'" "signals w' < signals w"
    | (fail) e w' where "sys_write os fd data w = (Inl e, w')" "content w' = content w" "opened w'" "e \<noteq> EINTR"
      unfolding failing_write_def by blast
    then show ?thesis
    proof cases
      case some
      have "((length (drop n data), signals w'), length data, signals w) \<in> less_than <*lex*> less_than" using some(2,3) by auto
      from "1.hyps" [OF this some(5)] obtain st w'' where h: "WriteUnbuffered os (Some fd) filename (drop n data) w' = Some (st, w'')" "opened w''"
        "grown st (content w') (content w'') (content w' @ drop n data)" by blast
      have "grown st (content w) (content w'') (content w @ data)" using grown_trans [OF _ h(3), of "content w"] some(4) by simp
      then show ?thesis using h(1,2) some(1) False by (subst WriteUnbuffered.simps) simp
    next
      case intr
      have "((length data, signals w'), length data, signals w) \<in> less_than <*lex*> less_than" using intr(4) by simp
      from "1.hyps" [OF this intr(3)] show ?thesis using intr False by (subst WriteUnbuffered.simps) simp
    next
      case fail
      then show ?thesis using False by (subst WriteUnbuffered.simps) (simp add: grown_def strict_prefix_def)
    qed
  qed
qed

lemma FlushBuffer_grown:
  assumes "failing_write os fd content opened signals" "file_usable fd opened (f, w)"
  shows "\<exists>st w'. FlushBuffer os (f, w) = Some (st, f\<lparr>pw_buf := []\<rparr>, w') \<and> file_usable fd opened (f\<lparr>pw_buf := []\<rparr>, w') \<and>
    grown st (content w) (content w') (file_content content (f, w))"
proof -
  have u: "pw_fd f = Some fd" "opened w" using assms(2) by (simp_all add: file_usable_def)
  obtain st w' where "WriteUnbuffered os (Some fd) (pw_filename f) (pw_buf f) w = Some (st, w')" "opened w'"
    "grown st (content w) (content w') (content w @ pw_buf f)" using WriteUnbuffered_grown [OF assms(1) u(2)] by blast
  then show ?thesis using u by (simp add: FlushBuffer_def file_usable_def file_content_def)
qed

text \<open>What holds after an operation on the file that was to add \<open>data\<close>: nothing is lost while the status is OK.\<close>

definition outcome :: "('w \<Rightarrow> bytes) \<Rightarrow> bytes \<Rightarrow> bytes \<Rightarrow> Status \<Rightarrow> PosixWritableFile \<times> 'w \<Rightarrow> bool" where
  "outcome content before full st s \<longleftrightarrow>
     prefix before (content (snd s)) \<and> (if status_ok st then file_content content s = full else strict_prefix (content (snd s)) full)"

lemma Append_outcome:
  assumes fw: "failing_write os fd content opened signals" and s: "file_usable fd opened (f, w)"
  shows "\<exists>st s'. PosixWritableFile_Append os data (f, w) = Some (st, s') \<and> file_usable fd opened s' \<and>
    outcome content (content w) (file_content content (f, w) @ data) st s'"
proof -
  define k where "k = min (length data) (kWritableFileBufferSize - length (pw_buf f))"
  define f1 where "f1 = f\<lparr>pw_buf := pw_buf f @ take k data\<rparr>"
  have u1: "file_usable fd opened (f1, w)" using s by (auto simp: f1_def k_def file_usable_def)
  have c1: "file_content content (f1, w) = file_content content (f, w) @ take k data" by (simp add: f1_def file_content_def)
  obtain st2 w2 where s2: "FlushBuffer os (f1, w) = Some (st2, f1\<lparr>pw_buf := []\<rparr>, w2)" "file_usable fd opened (f1\<lparr>pw_buf := []\<rparr>, w2)"
    and g2: "grown st2 (content w) (content w2) (file_content content (f, w) @ take k data)"
    using FlushBuffer_grown [OF fw u1] unfolding c1 by blast
  have app: "PosixWritableFile_Append os data (f, w) =
      (if drop k data = [] then Some (OK, f1, w)
       else if \<not> status_ok st2 then Some (st2, f1\<lparr>pw_buf := []\<rparr>, w2)
       else if length (drop k data) < kWritableFileBufferSize then Some (OK, f1\<lparr>pw_buf := drop k data\<rparr>, w2)
       else do { (status, w) \<leftarrow> WriteUnbuffered os (pw_fd f1) (pw_filename f1) (drop k data) w2; Some (status, f1\<lparr>pw_buf := []\<rparr>, w) })"
    unfolding PosixWritableFile_Append_def Let_def prod.case k_def [symmetric] f1_def [symmetric] s2(1) by simp
  consider (fits) "drop k data = []" | (lost) "drop k data \<noteq> []" "\<not> status_ok st2"
    | (small) "drop k data \<noteq> []" "status_ok st2" "length (drop k data) < kWritableFileBufferSize"
    | (large) "drop k data \<noteq> []" "status_ok st2" "\<not> length (drop k data) < kWritableFileBufferSize" by blast
  then show ?thesis
  proof cases
    case fits
    then have "take k data = data" by (metis append_Nil2 append_take_drop_id)
    then have "outcome content (content w) (file_content content (f, w) @ data) OK (f1, w)" using c1 by (simp add: outcome_def)
    then show ?thesis using app fits u1 by auto
  next
    case lost
    have "grown st2 (content w) (content w2) ((file_content content (f, w) @ take k data) @ drop k data)"
      using g2 lost(2) by (rule grown_later)
    then have "outcome content (content w) (file_content content (f, w) @ data) st2 (f1\<lparr>pw_buf := []\<rparr>, w2)"
      using lost(2) by (simp add: outcome_def grown_def)
    then show ?thesis using app lost s2(2) by auto
  next
    case small
    have "file_usable fd opened (f1\<lparr>pw_buf := drop k data\<rparr>, w2)" using small(3) s2(2) by (simp add: file_usable_def)
    moreover have "outcome content (content w) (file_content content (f, w) @ data) OK (f1\<lparr>pw_buf := drop k data\<rparr>, w2)"
      using g2 small(2) by (simp add: outcome_def grown_def file_content_def)
    ultimately show ?thesis using app small by auto
  next
    case large
    have u: "pw_fd f1 = Some fd" "opened w2" using s2(2) by (simp_all add: file_usable_def)
    obtain st3 w3 where w3: "WriteUnbuffered os (Some fd) (pw_filename f1) (drop k data) w2 = Some (st3, w3)" "opened w3"
      and g3: "grown st3 (content w2) (content w3) (content w2 @ drop k data)" using WriteUnbuffered_grown [OF fw u(2)] by blast
    have "outcome content (content w) (file_content content (f, w) @ data) st3 (f1\<lparr>pw_buf := []\<rparr>, w3)"
      using g2 g3 large(2) by (auto simp: outcome_def grown_def file_content_def dest: prefix_order.trans)
    then show ?thesis using app large w3 u(1) s2(2) by (auto simp: file_usable_def)
  qed
qed

lemma append_all_outcome:
  assumes fw: "failing_write os fd content opened signals"
  shows "file_usable fd opened (f, w) \<Longrightarrow> \<exists>st s'. append_all os ds (f, w) = Some (st, s') \<and> file_usable fd opened s' \<and>
    outcome content (content w) (file_content content (f, w) @ concat ds) st s'"
proof (induction ds arbitrary: f w)
  case Nil
  then show ?case by (auto simp: outcome_def file_content_def)
next
  case (Cons d ds)
  obtain st f1 w1 where a: "PosixWritableFile_Append os d (f, w) = Some (st, f1, w1)" "file_usable fd opened (f1, w1)"
    "outcome content (content w) (file_content content (f, w) @ d) st (f1, w1)"
    using Append_outcome [OF fw Cons.prems, of d] by auto
  show ?case
  proof (cases "status_ok st")
    case True
    obtain st2 s2 where i: "append_all os ds (f1, w1) = Some (st2, s2)" "file_usable fd opened s2"
      "outcome content (content w1) (file_content content (f1, w1) @ concat ds) st2 s2" using Cons.IH [OF a(2)] by blast
    have "outcome content (content w) (file_content content (f, w) @ concat (d # ds)) st2 s2"
      using a(3) i(3) True by (auto simp: outcome_def dest: prefix_order.trans)
    then show ?thesis using a(1) i(1,2) True by auto
  next
    case False
    have "outcome content (content w) (file_content content (f, w) @ concat (d # ds)) st (f1, w1)"
      using a(3) False strict_prefix_append [of "content w1" "file_content content (f, w) @ d" "concat ds"] by (simp add: outcome_def)
    then show ?thesis using a(1,2) False by auto
  qed
qed

section \<open>Properties\<close>

text \<open>C26. Errors of the system are never lost, and they cost no more than the end of the data.  A run of appends that stops at the first error
  returns.  If it reports OK, everything appended is in the file or the buffer; then \<open>Flush\<close> returns with an empty buffer, and if it
  reports OK the file holds everything, in order.  Whenever a call reports an error, the file holds its old contents and a proper
  prefix of the data: no byte is missing in the middle, none is written twice.  \<open>Close\<close> reports OK only if its flush succeeded.\<close>

theorem write_errors_reported:
  assumes "failing_write os fd content opened signals" "PosixWritableFile_new filename fd = Some f" "opened w"
  shows "\<exists>st f1 w1. append_all os ds (f, w) = Some (st, f1, w1) \<and> prefix (content w) (content w1) \<and>
    (if status_ok st then
       content w1 @ pw_buf f1 = content w @ concat ds \<and>
       (\<exists>st2 f2 w2. PosixWritableFile_Flush os (f1, w1) = Some (st2, f2, w2) \<and> pw_buf f2 = [] \<and> prefix (content w) (content w2) \<and>
          (if status_ok st2 then content w2 = content w @ concat ds else strict_prefix (content w2) (content w @ concat ds)) \<and>
          (\<exists>st3 f3. PosixWritableFile_Close os (f1, w1) = Some (st3, f3, snd (sys_close os fd w2)) \<and> pw_fd f3 = None \<and>
             (status_ok st3 \<longrightarrow> status_ok st2)))
     else strict_prefix (content w1) (content w @ concat ds))"
proof -
  have f: "pw_buf f = []" "pw_fd f = Some fd" using PosixWritableFile_new_ok [of filename fd] assms(2) by auto
  then have u: "file_usable fd opened (f, w)" using assms(3) by (simp add: file_usable_def)
  obtain st f1 w1 where a: "append_all os ds (f, w) = Some (st, f1, w1)" "file_usable fd opened (f1, w1)"
    "outcome content (content w) (content w @ concat ds) st (f1, w1)"
    using append_all_outcome [OF assms(1) u, of ds] f(1) by (auto simp: file_content_def)
  obtain st2 w2 where b: "FlushBuffer os (f1, w1) = Some (st2, f1\<lparr>pw_buf := []\<rparr>, w2)"
    "grown st2 (content w1) (content w2) (file_content content (f1, w1))" using FlushBuffer_grown [OF assms(1) a(2)] by blast
  have fd1: "pw_fd f1 = Some fd" using a(2) by (simp add: file_usable_def)
  have "\<exists>st3 f3. PosixWritableFile_Close os (f1, w1) = Some (st3, f3, snd (sys_close os fd w2)) \<and> pw_fd f3 = None \<and>
      (status_ok st3 \<longrightarrow> status_ok st2)"
    using b(1) fd1 by (auto simp: PosixWritableFile_Close_def Let_def split: prod.splits sum.splits if_splits)
  moreover have "prefix (content w) (content w2)" using a(3) b(2) by (auto simp: outcome_def grown_def dest: prefix_order.trans)
  ultimately show ?thesis
    using a b by (cases "status_ok st") (auto simp: outcome_def grown_def file_content_def PosixWritableFile_Flush_def)
qed

text \<open>A disk with room for a number of bytes, and no more.\<close>

definition full_posix :: "(bytes \<times> nat) posix" where
  "full_posix = slow_posix\<lparr>sys_write := \<lambda>d data (c, k). if k = 0 then (Inl 28, (c, 0)) else (Inr 1, (c @ take 1 data, k - 1))\<rparr>"

lemma full_write: "failing_write full_posix 3 fst (\<lambda>_. True) snd"
proof -
  have "0 < Suc 0 \<and> Suc 0 \<le> length data" if "data \<noteq> []" for data :: bytes using that by (cases data) auto
  then show ?thesis by (fastforce simp: failing_write_def full_posix_def EINTR_def)
qed

theorem write_errors_reported_witness:
  "\<exists>f st f1 w1. PosixWritableFile_new [] 3 = Some f \<and> append_all full_posix [[1, 2], [3]] (f, [9], 2) = Some (st, f1, w1) \<and> prefix [9] (fst w1)"
proof -
  obtain f where f: "PosixWritableFile_new [] 3 = Some f" using PosixWritableFile_new_ok by blast
  show ?thesis using write_errors_reported [OF full_write f TrueI, of "[[1, 2], [3]]" "([9], 2)"] f by auto
qed

end
