(* ===== verification/Posix_background.thy ===== *)
theory Posix_background
  imports Main "HOL-Library.Monad_Syntax"
begin

text \<open>
  \<^verbatim>\<open>include/mutex.h\<close> and the background thread of \<^verbatim>\<open>util/env_posix.cc\<close> (\<^verbatim>\<open>PosixEnv::Schedule\<close>, \<^verbatim>\<open>BackgroundThreadMain\<close>).  Every
  statement of the two functions is a step, and the steps of the threads interleave in any order.  A step of a thread that is blocked
  is \<open>None\<close>.
\<close>

section \<open>Mutex and condition variable\<close>

datatype thread = Background | Client nat

record monitor =
  holder :: "thread option"
  waiters :: "thread list"

definition Mutex_Lock :: "thread \<Rightarrow> monitor \<Rightarrow> monitor option" where
  "Mutex_Lock t m = (if holder m = None then Some (m\<lparr>holder := Some t\<rparr>) else None)"

text \<open>Unlocking a mutex, or waiting, without holding it is undefined.\<close>

definition Mutex_Unlock :: "thread \<Rightarrow> monitor \<Rightarrow> monitor option" where
  "Mutex_Unlock t m = (if holder m = Some t then Some (m\<lparr>holder := None\<rparr>) else None)"

text \<open>\<^verbatim>\<open>Wait\<close> is two steps: giving up the mutex and joining the waiters, and, once not among them any more, locking the mutex again.\<close>

definition CondVar_Wait :: "thread \<Rightarrow> monitor \<Rightarrow> monitor option" where
  "CondVar_Wait t m = (if holder m = Some t then Some (m\<lparr>holder := None, waiters := waiters m @ [t]\<rparr>) else None)"

definition CondVar_Wake :: "thread \<Rightarrow> monitor \<Rightarrow> monitor option" where
  "CondVar_Wake t m = (if t \<in> set (waiters m) then None else Mutex_Lock t m)"

text \<open>\<^verbatim>\<open>notify_one\<close> wakes any one of the waiters; \<open>pick\<close> is the choice.\<close>

definition CondVar_Signal :: "nat \<Rightarrow> monitor \<Rightarrow> monitor" where
  "CondVar_Signal pick m =
     (if waiters m = [] then m else m\<lparr>waiters := remove1 (waiters m ! (pick mod length (waiters m))) (waiters m)\<rparr>)"

definition CondVar_SignalAll :: "monitor \<Rightarrow> monitor" where
  "CondVar_SignalAll m = m\<lparr>waiters := []\<rparr>"

section \<open>Schedule and the background thread\<close>

text \<open>Where a thread is in \<^verbatim>\<open>Schedule\<close>, and where the background thread is in its loop.\<close>

datatype 'j client_pc = Idle | Called 'j | Locked 'j | Thread_started 'j | Signalled 'j | Pushed

datatype 'j background_pc = Not_started | At_lock | At_check | In_wait | Popped 'j | Running 'j

text \<open>
  \<open>scheduled\<close> records the order in which the items enter the queue and \<open>executed\<close> the calls of their functions; \<open>threads_created\<close> counts
  the background threads.
\<close>

record 'j background =
  background_work :: monitor
  started_background_thread :: bool
  background_work_queue :: "'j list"
  clients :: "nat \<Rightarrow> 'j client_pc"
  background_thread :: "'j background_pc"
  threads_created :: nat
  scheduled :: "'j list"
  executed :: "'j list"

definition background_init :: "'j background" where
  "background_init =
    \<lparr>background_work = \<lparr>holder = None, waiters = []\<rparr>, started_background_thread = False, background_work_queue = [], clients = (\<lambda>_. Idle),
     background_thread = Not_started, threads_created = 0, scheduled = [], executed = []\<rparr>"

definition Schedule_step :: "nat \<Rightarrow> nat \<Rightarrow> 'j background \<Rightarrow> 'j background option" where
  "Schedule_step pick t s =
     (case clients s t of
        Idle \<Rightarrow> None
      | Called j \<Rightarrow> do {
          m \<leftarrow> Mutex_Lock (Client t) (background_work s);
          Some (s\<lparr>background_work := m, clients := (clients s)(t := Locked j)\<rparr>) }
      | Locked j \<Rightarrow>
          let s = (if \<not> started_background_thread s
                   then s\<lparr>started_background_thread := True, background_thread := At_lock, threads_created := threads_created s + 1\<rparr>
                   else s)
          in Some (s\<lparr>clients := (clients s)(t := Thread_started j)\<rparr>)
      | Thread_started j \<Rightarrow>
          let s = (if background_work_queue s = [] then s\<lparr>background_work := CondVar_Signal pick (background_work s)\<rparr> else s)
          in Some (s\<lparr>clients := (clients s)(t := Signalled j)\<rparr>)
      | Signalled j \<Rightarrow>
          Some (s\<lparr>background_work_queue := background_work_queue s @ [j], scheduled := scheduled s @ [j], clients := (clients s)(t := Pushed)\<rparr>)
      | Pushed \<Rightarrow> do {
          m \<leftarrow> Mutex_Unlock (Client t) (background_work s);
          Some (s\<lparr>background_work := m, clients := (clients s)(t := Idle)\<rparr>) })"

definition BackgroundThreadMain_step :: "'j background \<Rightarrow> 'j background option" where
  "BackgroundThreadMain_step s =
     (case background_thread s of
        Not_started \<Rightarrow> None
      | At_lock \<Rightarrow> do {
          m \<leftarrow> Mutex_Lock Background (background_work s);
          Some (s\<lparr>background_work := m, background_thread := At_check\<rparr>) }
      | At_check \<Rightarrow>
          (case background_work_queue s of
             [] \<Rightarrow> do {
               m \<leftarrow> CondVar_Wait Background (background_work s);
               Some (s\<lparr>background_work := m, background_thread := In_wait\<rparr>) }
           | j # queue \<Rightarrow> Some (s\<lparr>background_work_queue := queue, background_thread := Popped j\<rparr>))
      | In_wait \<Rightarrow> do {
          m \<leftarrow> CondVar_Wake Background (background_work s);
          Some (s\<lparr>background_work := m, background_thread := At_check\<rparr>) }
      | Popped j \<Rightarrow> do {
          m \<leftarrow> Mutex_Unlock Background (background_work s);
          Some (s\<lparr>background_work := m, background_thread := Running j, executed := executed s @ [j]\<rparr>) }
      | Running j \<Rightarrow> Some (s\<lparr>background_thread := At_lock\<rparr>))"

text \<open>Any thread calls \<^verbatim>\<open>Schedule\<close> when it is not in a call already; a waiting thread may wake without a signal.\<close>

inductive background_step :: "'j background \<Rightarrow> 'j background \<Rightarrow> bool" where
  call: "clients s t = Idle \<Longrightarrow> background_step s (s\<lparr>clients := (clients s)(t := Called j)\<rparr>)"
| client: "Schedule_step pick t s = Some s' \<Longrightarrow> background_step s s'"
| background: "BackgroundThreadMain_step s = Some s' \<Longrightarrow> background_step s s'"
| spurious: "background_step s (s\<lparr>background_work := (background_work s)\<lparr>waiters := remove1 t (waiters (background_work s))\<rparr>\<rparr>)"

inductive background_reach :: "'j background \<Rightarrow> bool" where
  start: "background_reach background_init"
| step: "background_reach s \<Longrightarrow> background_step s s' \<Longrightarrow> background_reach s'"

section \<open>Invariant\<close>

text \<open>The item taken from the queue whose function has not been called yet.\<close>

fun in_hand :: "'j background_pc \<Rightarrow> 'j list" where
  "in_hand (Popped j) = [j]"
| "in_hand _ = []"

fun bg_holds :: "'j background_pc \<Rightarrow> bool" where
  "bg_holds At_check = True"
| "bg_holds (Popped j) = True"
| "bg_holds _ = False"

fun client_holds :: "'j client_pc \<Rightarrow> bool" where
  "client_holds Idle = False"
| "client_holds (Called j) = False"
| "client_holds _ = True"

fun past_start :: "'j client_pc \<Rightarrow> bool" where
  "past_start (Thread_started j) = True"
| "past_start (Signalled j) = True"
| "past_start Pushed = True"
| "past_start _ = False"

fun is_signalled :: "'j client_pc \<Rightarrow> bool" where
  "is_signalled (Signalled j) = True"
| "is_signalled _ = False"

definition mutex_ok :: "'j background \<Rightarrow> bool" where
  "mutex_ok s \<longleftrightarrow> (\<forall>t. client_holds (clients s t) \<longleftrightarrow> holder (background_work s) = Some (Client t)) \<and>
     (bg_holds (background_thread s) \<longleftrightarrow> holder (background_work s) = Some Background)"

definition wait_ok :: "'j background \<Rightarrow> bool" where
  "wait_ok s \<longleftrightarrow> waiters (background_work s) \<in> {[], [Background]} \<and>
     (waiters (background_work s) = [Background] \<longrightarrow> background_thread s = In_wait \<and> background_work_queue s = [] \<and>
        (\<forall>t. \<not> is_signalled (clients s t)))"

definition started_ok :: "'j background \<Rightarrow> bool" where
  "started_ok s \<longleftrightarrow> (started_background_thread s \<longleftrightarrow> background_thread s \<noteq> Not_started) \<and>
     threads_created s = (if started_background_thread s then 1 else 0) \<and>
     (\<forall>t. past_start (clients s t) \<longrightarrow> started_background_thread s) \<and> (background_work_queue s \<noteq> [] \<longrightarrow> started_background_thread s)"

definition fifo_ok :: "'j background \<Rightarrow> bool" where
  "fifo_ok s \<longleftrightarrow> scheduled s = executed s @ in_hand (background_thread s) @ background_work_queue s"

definition background_ok :: "'j background \<Rightarrow> bool" where
  "background_ok s \<longleftrightarrow> mutex_ok s \<and> wait_ok s \<and> started_ok s \<and> fifo_ok s"

lemmas background_ok_defs = background_ok_def mutex_ok_def wait_ok_def started_ok_def fifo_ok_def

lemmas monitor_defs = Mutex_Lock_def Mutex_Unlock_def CondVar_Wait_def CondVar_Wake_def CondVar_Signal_def

lemma client_holds_unique:
  "mutex_ok s \<Longrightarrow> client_holds (clients s t) \<Longrightarrow> client_holds (clients s u) \<longleftrightarrow> u = t"
  "mutex_ok s \<Longrightarrow> client_holds (clients s t) \<Longrightarrow> \<not> bg_holds (background_thread s)"
  by (auto simp: mutex_ok_def)

lemma signalled_holds: "is_signalled p \<Longrightarrow> client_holds p" "past_start p \<Longrightarrow> client_holds p"
  by (cases p; simp)+

lemma mutex_okI:
  assumes "\<And>t. client_holds (clients s t) \<longleftrightarrow> holder (background_work s) = Some (Client t)"
    and "bg_holds (background_thread s) \<longleftrightarrow> holder (background_work s) = Some Background"
  shows "mutex_ok s"
  using assms by (simp add: mutex_ok_def)

lemma mutex_okD:
  assumes "mutex_ok s"
  shows "client_holds (clients s t) \<longleftrightarrow> holder (background_work s) = Some (Client t)"
    and "bg_holds (background_thread s) \<longleftrightarrow> holder (background_work s) = Some Background"
  using assms by (simp_all add: mutex_ok_def)

lemma started_okD: "started_ok s \<Longrightarrow> past_start (clients s t) \<Longrightarrow> started_background_thread s"
  "started_ok s \<Longrightarrow> \<not> started_background_thread s \<Longrightarrow> background_thread s = Not_started"
  by (auto simp: started_ok_def)

lemma Schedule_mutex_ok:
  assumes s: "Schedule_step pick t s = Some s'" and ok: "mutex_ok s" "started_ok s"
  shows "mutex_ok s'"
proof (rule mutex_okI)
  note d = mutex_okD [OF ok(1)]
  show "client_holds (clients s' u) \<longleftrightarrow> holder (background_work s') = Some (Client u)" for u
    using s d(1) [of t] d(1) [of u]
    by (cases "clients s t") (auto simp: Schedule_step_def monitor_defs Let_def split: if_splits)
  show "bg_holds (background_thread s') \<longleftrightarrow> holder (background_work s') = Some Background"
    using s d(1) [of t] d(2) started_okD(2) [OF ok(2)]
    by (cases "clients s t") (auto simp: Schedule_step_def monitor_defs Let_def split: if_splits)
qed

lemma started_okI:
  assumes "started_background_thread s \<longleftrightarrow> background_thread s \<noteq> Not_started"
    and "threads_created s = (if started_background_thread s then 1 else 0)"
    and "\<And>t. past_start (clients s t) \<Longrightarrow> started_background_thread s"
    and "background_work_queue s \<noteq> [] \<Longrightarrow> started_background_thread s"
  shows "started_ok s"
  using assms by (auto simp: started_ok_def)

lemma Schedule_started_ok:
  assumes s: "Schedule_step pick t s = Some s'" and ok: "started_ok s"
  shows "started_ok s'"
proof (rule started_okI)
  have d: "started_background_thread s \<longleftrightarrow> background_thread s \<noteq> Not_started"
    "threads_created s = (if started_background_thread s then 1 else 0)"
    "background_work_queue s \<noteq> [] \<Longrightarrow> started_background_thread s"
    "\<And>u. past_start (clients s u) \<Longrightarrow> started_background_thread s"
    using ok unfolding started_ok_def by blast+
  note unf = Schedule_step_def monitor_defs Let_def
  show "started_background_thread s' \<longleftrightarrow> background_thread s' \<noteq> Not_started"
    using s d(1) by (cases "clients s t") (auto simp: unf split: if_splits)
  show "threads_created s' = (if started_background_thread s' then 1 else 0)"
    using s d(2) by (cases "clients s t") (auto simp: unf split: if_splits)
  show "started_background_thread s'" if "past_start (clients s' u)" for u
    using s that d(4) [of u] d(4) [of t] by (cases "clients s t") (auto simp: unf split: if_splits)
  show "started_background_thread s'" if "background_work_queue s' \<noteq> []"
    using s that d(3) d(4) [of t] by (cases "clients s t") (auto simp: unf split: if_splits)
qed

lemma Schedule_fifo_ok: "Schedule_step pick t s = Some s' \<Longrightarrow> fifo_ok s \<Longrightarrow> started_ok s \<Longrightarrow> fifo_ok s'"
  using started_okD(2) [of s]
  by (cases "clients s t") (auto simp: Schedule_step_def fifo_ok_def monitor_defs Let_def split: if_splits)

lemma wait_okI:
  assumes "waiters (background_work s) \<in> {[], [Background]}"
    and "waiters (background_work s) = [Background] \<Longrightarrow> background_thread s = In_wait \<and> background_work_queue s = []"
    and "\<And>t. waiters (background_work s) = [Background] \<Longrightarrow> \<not> is_signalled (clients s t)"
  shows "wait_ok s"
  using assms by (simp add: wait_ok_def)

lemma wait_okD:
  assumes "wait_ok s"
  shows "waiters (background_work s) = [] \<or> waiters (background_work s) = [Background]"
    and "waiters (background_work s) = [Background] \<Longrightarrow> background_thread s = In_wait \<and> background_work_queue s = []"
    and "waiters (background_work s) = [Background] \<Longrightarrow> \<not> is_signalled (clients s t)"
  using assms by (auto simp: wait_ok_def)

lemma Schedule_wait_ok:
  assumes s: "Schedule_step pick t s = Some s'" and ok: "wait_ok s" "started_ok s"
  shows "wait_ok s'"
proof (rule wait_okI)
  note d = wait_okD(1) [OF ok(1)] wait_okD(2) [OF ok(1)] wait_okD(3) [OF ok(1), of t] started_okD(2) [OF ok(2)]
  show "waiters (background_work s') \<in> {[], [Background]}"
    using s d(1) by (cases "clients s t") (auto simp: Schedule_step_def monitor_defs Let_def split: if_splits)
  assume w: "waiters (background_work s') = [Background]"
  show "background_thread s' = In_wait \<and> background_work_queue s' = []"
    using w s d by (cases "clients s t") (auto simp: Schedule_step_def monitor_defs Let_def split: if_splits)
  show "\<not> is_signalled (clients s' u)" for u
    using w s d wait_okD(3) [OF ok(1), of u]
    by (cases "clients s t") (auto simp: Schedule_step_def monitor_defs Let_def split: if_splits)
qed

lemma Background_mutex_ok:
  assumes s: "BackgroundThreadMain_step s = Some s'" and ok: "mutex_ok s"
  shows "mutex_ok s'"
proof (rule mutex_okI)
  note d = mutex_okD [OF ok]
  note unf = BackgroundThreadMain_step_def monitor_defs
  show "client_holds (clients s' u) \<longleftrightarrow> holder (background_work s') = Some (Client u)" for u
    using s d(1) [of u] d(2) by (cases "background_thread s") (auto simp: unf split: if_splits list.splits)
  show "bg_holds (background_thread s') \<longleftrightarrow> holder (background_work s') = Some Background"
    using s d(2) by (cases "background_thread s") (auto simp: unf split: if_splits list.splits)
qed

lemma Background_started_ok:
  assumes s: "BackgroundThreadMain_step s = Some s'" and ok: "started_ok s"
  shows "started_ok s'"
  using s ok by (cases "background_thread s")
    (auto simp: BackgroundThreadMain_step_def monitor_defs started_ok_def split: if_splits list.splits)

lemma Background_fifo_ok: "BackgroundThreadMain_step s = Some s' \<Longrightarrow> fifo_ok s \<Longrightarrow> fifo_ok s'"
  by (cases "background_thread s") (auto simp: BackgroundThreadMain_step_def monitor_defs fifo_ok_def split: if_splits list.splits)

lemma Background_wait_ok:
  assumes s: "BackgroundThreadMain_step s = Some s'" and ok: "wait_ok s" "mutex_ok s"
  shows "wait_ok s'"
proof (rule wait_okI)
  note d = wait_okD [OF ok(1)]
  note unf = BackgroundThreadMain_step_def monitor_defs
  show "waiters (background_work s') \<in> {[], [Background]}"
    using s d(1,2) by (cases "background_thread s") (auto simp: unf split: if_splits list.splits)
  assume w: "waiters (background_work s') = [Background]"
  show "background_thread s' = In_wait \<and> background_work_queue s' = []"
    using w s d(1,2) by (cases "background_thread s") (auto simp: unf split: if_splits list.splits)
  show "\<not> is_signalled (clients s' u)" for u
  proof
    assume "is_signalled (clients s' u)"
    moreover have "clients s' = clients s"
      using s by (cases "background_thread s") (auto simp: unf split: if_splits list.splits)
    ultimately have u: "is_signalled (clients s u)" "client_holds (clients s u)" using signalled_holds(1) by auto
    then have "waiters (background_work s) = []" "\<not> bg_holds (background_thread s)"
      using d(1) d(3) [of u] client_holds_unique(2) [OF ok(2)] by auto
    then show False using w s by (cases "background_thread s") (auto simp: unf split: if_splits list.splits)
  qed
qed

lemma background_step_ok:
  assumes "background_step s s'" "background_ok s"
  shows "background_ok s'"
  using assms(1)
proof cases
  case (call t j)
  have "client_holds (clients s' u) = client_holds (clients s u)" for u using call by simp
  then have "mutex_ok s'" using assms(2) call(1) by (simp add: background_ok_def mutex_ok_def)
  moreover have "wait_ok s'" "started_ok s'" "fifo_ok s'"
    using assms(2) call by (auto simp: background_ok_def wait_ok_def started_ok_def fifo_ok_def)
  ultimately show ?thesis by (simp add: background_ok_def)
next
  case (client pick t)
  then show ?thesis using assms(2) Schedule_mutex_ok Schedule_wait_ok Schedule_started_ok Schedule_fifo_ok
    unfolding background_ok_def by blast
next
  case background
  then show ?thesis using assms(2) Background_mutex_ok Background_wait_ok Background_started_ok Background_fifo_ok
    unfolding background_ok_def by blast
next
  case (spurious t)
  have "mutex_ok s'" "started_ok s'" "fifo_ok s'"
    using assms(2) spurious unfolding background_ok_def by (auto simp: mutex_ok_def started_ok_def fifo_ok_def)
  moreover have "wait_ok s'" using assms(2) spurious by (cases "t = Background") (auto simp: background_ok_def wait_ok_def)
  ultimately show ?thesis by (simp add: background_ok_def)
qed

lemma background_init_ok: "background_ok background_init"
  by (simp add: background_ok_defs background_init_def)

lemma background_reach_ok: "background_reach s \<Longrightarrow> background_ok s"
  by (induction rule: background_reach.induct) (auto intro: background_init_ok background_step_ok)

text \<open>C25. However the calls of \<^verbatim>\<open>Schedule\<close> and the background thread interleave: the functions are called in the order in which their
  items entered the queue, each exactly once, those not called yet being the one in hand and the queue; at most one background thread
  is ever created; and the mutex is held by at most one of them.\<close>

theorem background_fifo:
  assumes "background_reach s"
  shows "scheduled s = executed s @ in_hand (background_thread s) @ background_work_queue s \<and> threads_created s \<le> 1 \<and>
    (client_holds (clients s t) \<and> client_holds (clients s u) \<longrightarrow> t = u) \<and> \<not> (client_holds (clients s t) \<and> bg_holds (background_thread s))"
  using background_reach_ok [OF assms] client_holds_unique [of s]
  by (auto simp: background_ok_def fifo_ok_def started_ok_def)

section \<open>Progress\<close>

text \<open>The threads run in the order of the list.\<close>

fun run_threads :: "thread list \<Rightarrow> 'j background \<Rightarrow> 'j background option" where
  "run_threads [] s = Some s"
| "run_threads (Background # ts) s = Option.bind (BackgroundThreadMain_step s) (run_threads ts)"
| "run_threads (Client t # ts) s = Option.bind (Schedule_step 0 t s) (run_threads ts)"

lemma run_threads_append: "run_threads (xs @ ys) s = Option.bind (run_threads xs s) (run_threads ys)"
proof (induction xs arbitrary: s)
  case (Cons x xs)
  then show ?case by (cases x) (auto split: bind_splits)
qed simp

fun pc_rank :: "'j background_pc \<Rightarrow> nat" where
  "pc_rank (Popped j) = 6"
| "pc_rank (Running j) = 5"
| "pc_rank At_check = 3"
| "pc_rank _ = 4"

definition pending_work :: "'j background \<Rightarrow> nat" where
  "pending_work s = 4 * length (background_work_queue s) + pc_rank (background_thread s)"

definition client_inside :: "'j background \<Rightarrow> bool" where
  "client_inside s \<longleftrightarrow> (\<exists>t. holder (background_work s) = Some (Client t))"

text \<open>While there is work and no client holds the mutex, the background thread can go on.\<close>

lemma background_progress:
  assumes ok: "background_ok s" and free: "\<not> client_inside s"
    and work: "in_hand (background_thread s) @ background_work_queue s \<noteq> []"
  shows "\<exists>s'. BackgroundThreadMain_step s = Some s' \<and> pending_work s' < pending_work s \<and> scheduled s' = scheduled s \<and> \<not> client_inside s'"
proof -
  note d = mutex_okD(2) [of s] wait_okD(1,2) [of s]
  have ok': "mutex_ok s" "wait_ok s" "started_ok s" using ok by (simp_all add: background_ok_def)
  have h: "holder (background_work s) = None \<or> holder (background_work s) = Some Background"
    using free by (cases "holder (background_work s)"; cases "the (holder (background_work s))") (auto simp: client_inside_def)
  have "background_thread s \<noteq> Not_started"
    using ok'(3) work by (auto simp: started_ok_def)
  then show ?thesis using h work d(1) [OF ok'(1)] d(2,3) [OF ok'(2)] free
    by (cases "background_thread s"; cases "background_work_queue s")
      (auto simp: BackgroundThreadMain_step_def monitor_defs pending_work_def client_inside_def)
qed

lemma run_background:
  assumes "background_ok s" "\<not> client_inside s"
  shows "\<exists>n s'. run_threads (replicate n Background) s = Some s' \<and> executed s' = scheduled s"
  using assms
proof (induction "pending_work s" arbitrary: s rule: less_induct)
  case less
  show ?case
  proof (cases "in_hand (background_thread s) @ background_work_queue s = []")
    case True
    then have "executed s = scheduled s" using less.prems(1) by (simp add: background_ok_def fifo_ok_def)
    then show ?thesis by (intro exI [of _ 0]) simp
  next
    case False
    obtain s1 where s1: "BackgroundThreadMain_step s = Some s1" "pending_work s1 < pending_work s" "scheduled s1 = scheduled s"
      "\<not> client_inside s1" using background_progress [OF less.prems False] by blast
    have "background_ok s1" using background_step_ok [OF background_step.background [OF s1(1)] less.prems(1)] .
    from less.hyps [OF s1(2) this s1(4)] obtain n s' where
      "run_threads (replicate n Background) s1 = Some s'" "executed s' = scheduled s1" by blast
    then show ?thesis using s1 by (intro exI [of _ "Suc n"]) simp
  qed
qed

fun client_left :: "'j client_pc \<Rightarrow> nat" where
  "client_left (Locked j) = 4"
| "client_left (Thread_started j) = 3"
| "client_left (Signalled j) = 2"
| "client_left Pushed = 1"
| "client_left _ = 0"

text \<open>The client that holds the mutex is never blocked and gives it up after at most four steps.\<close>

lemma client_leaves:
  assumes "background_ok s" "holder (background_work s) = Some (Client t)"
  shows "\<exists>s'. run_threads (replicate (client_left (clients s t)) (Client t)) s = Some s' \<and> background_ok s' \<and> \<not> client_inside s' \<and>
    (\<exists>more. scheduled s' = scheduled s @ more)"
  using assms
proof (induction "client_left (clients s t)" arbitrary: s)
  case 0
  have "client_holds (clients s t)" using 0 mutex_okD(1) [of s t] by (simp add: background_ok_def)
  then show ?case using 0(1) by (cases "clients s t") simp_all
next
  case (Suc n)
  have "client_holds (clients s t)" using Suc mutex_okD(1) [of s t] by (simp add: background_ok_def)
  then obtain s1 where s1: "Schedule_step 0 t s = Some s1" "client_left (clients s1 t) = n" "\<exists>more. scheduled s1 = scheduled s @ more"
    "n = 0 \<and> holder (background_work s1) = None \<or> n > 0 \<and> holder (background_work s1) = Some (Client t)"
    using Suc(2,4) by (cases "clients s t") (auto simp: Schedule_step_def monitor_defs Let_def)
  have ok: "background_ok s1" using background_step_ok [OF background_step.client [OF s1(1)] Suc(3)] .
  show ?case
  proof (cases "n = 0")
    case True
    then show ?thesis using s1 ok Suc(2) by (simp add: Suc(2) [symmetric] client_inside_def)
  next
    case False
    from Suc(1) [OF s1(2) [symmetric] ok] s1 False show ?thesis
      by (auto simp: Suc(2) [symmetric])
  qed
qed

text \<open>C24. No wake-up is lost and nothing deadlocks: from every reachable state the threads can run, without further calls or spurious
  wake-ups, to a state in which every item scheduled so far has been executed; and a background thread that still waits for a signal
  has nothing left to do.\<close>

theorem background_no_lost_wakeup:
  assumes "background_reach s"
  shows "(\<exists>ts s'. run_threads ts s = Some s' \<and> (\<exists>more. executed s' = scheduled s @ more)) \<and>
    (Background \<in> set (waiters (background_work s)) \<longrightarrow> executed s = scheduled s)"
proof
  note ok = background_reach_ok [OF assms]
  show "\<exists>ts s'. run_threads ts s = Some s' \<and> (\<exists>more. executed s' = scheduled s @ more)"
  proof (cases "client_inside s")
    case True
    then obtain t where "holder (background_work s) = Some (Client t)" by (auto simp: client_inside_def)
    from client_leaves [OF ok this] obtain xs s1 more where
      1: "run_threads xs s = Some s1" "background_ok s1" "\<not> client_inside s1" "scheduled s1 = scheduled s @ more" by blast
    from run_background [OF 1(2,3)] obtain n s2 where
      "run_threads (replicate n Background) s1 = Some s2" "executed s2 = scheduled s1" by blast
    then show ?thesis using 1 by (intro exI [of _ "xs @ replicate n Background"]) (simp add: run_threads_append)
  next
    case False
    from run_background [OF ok this] show ?thesis by (metis append_Nil2)
  qed
  show "Background \<in> set (waiters (background_work s)) \<longrightarrow> executed s = scheduled s"
    using ok wait_okD(1,2) [of s] by (auto simp: background_ok_def fifo_ok_def)
qed

lemma run_threads_reach: "background_reach s \<Longrightarrow> run_threads ts s = Some s' \<Longrightarrow> background_reach s'"
proof (induction ts arbitrary: s)
  case (Cons x ts)
  then obtain y where "background_step s y" "run_threads ts y = Some s'"
    by (cases x) (auto simp: Option.bind_eq_Some_conv intro: background_step.intros)
  then show ?case using Cons.IH background_reach.step [OF Cons.prems(1)] by blast
qed simp

text \<open>A state in which the background thread waits and one in which a second item is in the queue.\<close>

definition background_called :: "nat background" where
  "background_called = background_init\<lparr>clients := (\<lambda>_. Idle)(0 := Called 7, 1 := Called 8)\<rparr>"

lemma background_called_reach: "background_reach background_called"
proof -
  have 1: "background_reach (background_init\<lparr>clients := (clients background_init)(0 := Called (7 :: nat))\<rparr>)"
    by (rule background_reach.step [OF background_reach.start background_step.call]) (simp add: background_init_def)
  show ?thesis
    using background_reach.step [OF 1 background_step.call [of _ 1 8]] by (simp add: background_called_def background_init_def)
qed

definition two_scheduled :: "thread list" where
  "two_scheduled = replicate 5 (Client 0) @ [Client 1, Client 1, Client 1, Client 1, Client 1, Background, Background]"

lemma two_scheduled_run:
  "\<exists>s. run_threads two_scheduled background_called = Some s \<and> scheduled s = [7, 8] \<and> executed s = [] \<and> background_work_queue s = [8] \<and>
    background_thread s = Popped 7"
  by (simp add: two_scheduled_def background_called_def background_init_def Schedule_step_def BackgroundThreadMain_step_def monitor_defs
      numeral_eq_Suc)

theorem background_fifo_witness:
  "\<exists>s. run_threads two_scheduled background_called = Some s \<and> scheduled s = executed s @ [7] @ [8] \<and> threads_created s \<le> 1"
proof -
  obtain s where s: "run_threads two_scheduled background_called = Some s" "background_work_queue s = [8]" "background_thread s = Popped 7"
    using two_scheduled_run by blast
  show ?thesis using background_fifo [OF run_threads_reach [OF background_called_reach s(1)]] s by auto
qed

theorem background_no_lost_wakeup_witness:
  "\<exists>s ts s'. run_threads two_scheduled background_called = Some s \<and> executed s = [] \<and> run_threads ts s = Some s' \<and>
    (\<exists>more. executed s' = [7, 8] @ more)"
proof -
  obtain s where s: "run_threads two_scheduled background_called = Some s" "scheduled s = [7, 8]" "executed s = []"
    using two_scheduled_run by blast
  show ?thesis using background_no_lost_wakeup [OF run_threads_reach [OF background_called_reach s(1)]] s by metis
qed

end
