(* ===== verification/Spec2Isabelle.thy ===== *)
theory Spec2Isabelle
  imports Memtable_iterator Skiplist_concurrent Skiplist_driver Log Cache_interface Env_services Posix_faults Posix_background
begin

text \<open>
  A verification development for mini\_leveldb, a C++ rewrite of parts of LevelDB: the in-memory tables, the write-ahead log,
  the block cache and the utilities they stand on.  Source files are named by their path under \<^verbatim>\<open>src/\<close>.

  \<^bold>\<open>The program and its parts.\<close>  A memtable (\<^verbatim>\<open>db/memtable\<close>) keeps versioned entries in a skip list (\<^verbatim>\<open>db/skiplist.h\<close>) whose
  nodes are allocated in an arena (\<^verbatim>\<open>util/arena\<close>) and whose keys are internal keys (\<^verbatim>\<open>db/dbformat\<close>): a user key, a sequence number
  and a type, encoded with the routines of \<^verbatim>\<open>util/coding\<close> and ordered by a comparator (\<^verbatim>\<open>util/comparator.cc\<close>).  A log
  (\<^verbatim>\<open>db/log_writer\<close>, \<^verbatim>\<open>db/log_reader\<close>) frames records into blocks of 32 KiB with masked CRC-32C checksums (\<^verbatim>\<open>util/crc32c\<close>) on top of the
  file interfaces of \<^verbatim>\<open>include/env.h\<close>.  The cache (\<^verbatim>\<open>util/cache.cc\<close>) is a hash table and two circular lists of reference-counted
  handles, sharded by hash (\<^verbatim>\<open>util/hash\<close>).  The environment (\<^verbatim>\<open>include/env.h\<close>) is the only way to files, locks, threads and log
  messages; \<^verbatim>\<open>util/env_posix.cc\<close> implements it over POSIX calls, with buffered writing, limits on open files, a lock table and one
  background thread.  All iterators share the base class of \<^verbatim>\<open>table/iterator.cc\<close>.  Bloom filters (\<^verbatim>\<open>util/bloom.cc\<close>), statuses, number parsing and a random generator complete it.

  \<^bold>\<open>Conventions.\<close>  Bytes are \<open>8 word\<close>, C++ integers whose width matters are words, sizes and addresses are naturals where the
  code cannot overflow them.  A failed assertion, an access outside an array or to freed memory, and a loop that does not end
  are the value \<open>None\<close>; every theorem that an operation works states that it returns \<open>Some\<close>.  Loops are structural recursion,
  \<open>function\<close> with a measure, or \<open>partial_function (option)\<close>.  There is no fuel in the model; only \<open>writer_run\<close> and \<open>reader_run\<close>, which
  count the steps of a thread that runs alone, take a number of steps, and the theorems give a number that is enough.  Library code and the operating
  system (\<^verbatim>\<open>new\<close>, \<^verbatim>\<open>malloc\<close>, files) are arguments of the definitions; what is assumed of them are the assumptions of a locale or a
  named hypothesis, each with an instance.

  \<^bold>\<open>The theories.\<close>
  \<^item> \<open>Prelude\<close>: shared types, named collections and lemmas on words and lists.
  \<^item> \<open>Slice\<close>, \<open>Comparator\<close>, \<open>Coding\<close>, \<open>Hash\<close>, \<open>Rand\<close>, \<open>Logging\<close>, \<open>Status\<close>: the utilities.  Encoders and decoders are inverse to
    each other and bounded; the separator and successor of keys lie where documented; the hash is a fold, the generator is Lehmer's.
    \<open>Slice_compare\<close> is shown to return \<open>1\<close> for equal slices, which makes \<open>BytewiseComparator\<close> violate its own contract; the two
    contracts are the locales of \<open>Comparator\<close>.
  \<^item> \<open>Filter_policy\<close>, \<open>Bloom\<close>: the policy interface as a record with its contract as a locale, and the Bloom filter as an instance.
  \<^item> \<open>Arena\<close>: blocks and regions; memory handed out never overlaps.  Its assertions are hypotheses on the sizes asked for and
    conclusions on the alignment.
  \<^item> \<open>Skiplist\<close>: nodes with arrays of successors; searches, insertion and the iterator against the sorted list of keys.
  \<^item> \<open>Skiplist_concurrent\<close>: the same list with one writer and any number of readers, every shared access a step, all interleavings.  The
    invariant says which levels of which nodes are published.  Insertion takes effect at one store, searches are linearizable and end
    whatever the writer does, no thread touches an entry of \<^verbatim>\<open>next_\<close> that does not exist or was never stored to, and the writer's steps
    run in one go are the sequential \<open>Insert\<close>.
  \<^item> \<open>Skiplist_driver\<close>: the exerciser \<^verbatim>\<open>examples/skiplistTest/skiplist_est.cc\<close>, with exactly what it prints.
  \<^item> \<open>Dbformat\<close>, \<open>Memtable\<close>: internal keys, lookup keys, \<open>Add\<close>, \<open>Get\<close> and the iterator; \<open>Get\<close> returns the newest visible version
    for every comparator that meets the documented contract, and always misses for the built-in one.
  \<^item> \<open>Crc32c_Tables\<close>, \<open>Crc32c\<close>: the tables and the stride loops compute division by the CRC-32C polynomial.
  \<^item> \<open>Env\<close>, \<open>Log_format\<close>, \<open>Log_writer\<close>, \<open>Log_reader\<close>, \<open>Log_reader_facts\<close>, \<open>Log\<close>: file interfaces and their contracts (locales), the layout of a log as a
    specification, writer, reader, and their composition over the in-memory files of \<^verbatim>\<open>examples/opLogTest\<close>: round trip, truncation at any
    byte, reopening, corruption.
  \<^item> \<open>Cache_heap\<close>, \<open>Handle_table\<close>, \<open>Lru_cache\<close>, \<open>Lru_facts\<close>, \<open>Lru_ops\<close>, \<open>Lru_client\<close>, \<open>Sharded_cache\<close>: the cache over an explicit memory: hash chains,
    resizing, rings, reference counts; then the clients' contract as a step relation with its reachable states, in which no assertion
    fails, counts and usage add up, eviction is oldest first, and every inserted value is deleted exactly once.
  \<^item> \<open>Cache_interface\<close>: the abstract class \<^verbatim>\<open>Cache\<close> as a record, its contract as a locale in which sessions of clients are followed once and for
    all, and the cache of \<^verbatim>\<open>NewLRUCache\<close> as the instance.
  \<^item> \<open>Iterator\<close>, \<open>Memtable_iterator\<close>: the iterator interface with its documented contract as a locale, the cleanup list over an explicit heap
    (every function is called once), the empty iterators, and the memtable's iterator as an implementation: a scan in either direction
    or from a target delivers the versions added, in order.
  \<^item> \<open>Posix\<close>, \<open>Posix_writable\<close>, \<open>Posix_memory\<close>, \<open>Posix_env\<close>, \<open>Posix_random_access\<close>: the POSIX environment.  The operating system is the record of its
    calls, an argument; \<open>regular_read\<close>, \<open>regular_write\<close>, \<open>regular_files\<close> and \<open>record_locks\<close> state what POSIX promises of them, and
    \<open>memory_posix\<close> is a small system that keeps all of it.  Writable and sequential files refine the file contracts, so the log's round trip
    holds over them; the limiter is a step relation over its atomic operations; the lock table and the slots of the limiters are
    invariants of all sequences of calls.  Two defects are theorems: the range check of mapped files wraps around, and a second
    \<^verbatim>\<open>LockFile\<close> gives up the first lock.
  \<^item> \<open>Posix_faults\<close>: writing when \<^verbatim>\<open>write\<close> may fail with any error (\<open>failing_write\<close>): no error is lost, and the file never holds anything but a
    prefix of what was appended.
  \<^item> \<open>Posix_background\<close>: mutex and condition variable (\<^verbatim>\<open>include/mutex.h\<close>), \<^verbatim>\<open>Schedule\<close> and the background thread, statement by statement, with
    all interleavings and spurious wake-ups: first in first out, exactly once, no lost wake-up.
  \<^item> \<open>Posix_logger\<close>: \<^verbatim>\<open>PosixLogger::Logv\<close> with its two buffers; every message is written in full.
  \<^item> \<open>Env_files\<close>: \<^verbatim>\<open>class Env\<close> as a record of methods, defaults, \<^verbatim>\<open>EnvWrapper\<close>, \<^verbatim>\<open>WriteStringToFile\<close> and \<^verbatim>\<open>ReadFileToString\<close>, and their round trip over
    the POSIX environment.  \<open>Env_services\<close> adds the methods for threads, time and logging, and \<^verbatim>\<open>Logger\<close>.

  \<^bold>\<open>Bounds.\<close>  The hash table of the cache doubles a 32-bit length: its theorems assume fewer than \<open>2^31\<close> allocated handles, and that no
  handle is held \<open>2^32 - 2\<close> times or more.  Lengths in the log and in keys are assumed to fit the C++ types that store them.

  A log message and its header are assumed to be shorter than \<open>2^31\<close> bytes, and the year to have four digits.

  \<^bold>\<open>Not modelled.\<close>  The bodies of \<^verbatim>\<open>StartThread\<close> and \<^verbatim>\<open>SleepForMicroseconds\<close> in the POSIX environment, which only call the standard library; the
  branches for macOS and Fuchsia; executions of the skip list in which an acquire load returns an older pointer than the last one stored
  (its steps see the stores in the order in which they are made, only \<^verbatim>\<open>max_height_\<close> may be read late); the mutexes outside the background
  thread and the limiter (those operations are atomic steps); the test programs other than the skip list's, which call the
  library on fixed inputs and print or compare; and the vendored test framework.
\<close>

end
